(* ===== verification/Walkrie_Prelude.thy ===== *)
theory Walkrie_Prelude
  imports Main "HOL-Library.Word"
begin

unbundle bit_operations_syntax

text \<open>
  Shared vocabulary of the development: machine integers at their C++ widths, bytes and
  characters, exceptions and out-of-bounds reads as values of a sum type, the JSON values of
  \<^verbatim>\<open>nlohmann::ordered_json\<close>, and the list and word lemmas that the
  component theories use.
\<close>

section \<open>Machine integers\<close>

type_synonym u8 = "8 word"
type_synonym u16 = "16 word"
type_synonym u32 = "32 word"
type_synonym u64 = "64 word"

named_theorems byte_simps \<open>rewriting of byte-level readers and writers\<close>
named_theorems sink_simps \<open>equations of the sinks' batch passes\<close>
named_theorems store_simps \<open>equations of the staging store\<close>

lemma push_or_nat [byte_simps]:
  assumes "b < 2 ^ k"
  shows "push_bit k (word_of_nat a) OR word_of_nat b = (word_of_nat (a * 2 ^ k + b) :: 'a::len word)"
proof -
  have "\<not> bit (push_bit k (word_of_nat a :: 'a word)) n \<or> \<not> bit (word_of_nat b :: 'a word) n" for n
  proof (cases "n < k")
    case True
    then show ?thesis by (simp add: bit_push_bit_iff)
  next
    case False
    with assms have "b < 2 ^ n"
      by (meson leI one_less_numeral_iff order_less_le_trans power_increasing_iff semiring_norm(76))
    then have "\<not> bit b n" by (simp add: bit_nat_def)
    then show ?thesis by (simp add: bit_of_nat_iff)
  qed
  then have "push_bit k (word_of_nat a :: 'a word) OR word_of_nat b
      = push_bit k (word_of_nat a) + word_of_nat b"
    by (rule disjunctive_add [symmetric])
  then show ?thesis by (simp add: push_bit_eq_mult)
qed

lemma ucast_byte_nat: "(ucast (b :: u8) :: 'a::len word) = word_of_nat (unat b)"
  by simp

lemma unat_bound: "unat (w :: 'a::len word) < 2 ^ LENGTH('a)"
  by (rule unsigned_less)

lemma byte_lt: "unat (b :: u8) < 256"
  using unat_bound [of b] by simp

text \<open>The big-endian value of a byte list, the reference for every integer reader.\<close>

definition be_nat :: "u8 list \<Rightarrow> nat" where
  "be_nat bs = foldl (\<lambda>v b. v * 256 + unat b) 0 bs"

lemma be_nat_Nil [simp]: "be_nat [] = 0"
  by (simp add: be_nat_def)

lemma be_nat_snoc [simp]: "be_nat (bs @ [b]) = be_nat bs * 256 + unat b"
  by (simp add: be_nat_def)

lemma be_nat_append: "be_nat (xs @ ys) = be_nat xs * 256 ^ length ys + be_nat ys"
proof (induction ys rule: rev_induct)
  case Nil
  then show ?case by simp
next
  case (snoc y ys)
  have "be_nat ((xs @ ys) @ [y]) = be_nat (xs @ ys) * 256 + unat y"
    by (rule be_nat_snoc)
  with snoc show ?case by (simp add: algebra_simps)
qed

lemma be_nat_lt: "be_nat bs < 256 ^ length bs"
proof (induction bs rule: rev_induct)
  case Nil
  then show ?case by simp
next
  case (snoc b bs)
  have "be_nat bs * 256 + unat b < (be_nat bs + 1) * 256"
    using byte_lt [of b] by simp
  also have "\<dots> \<le> 256 ^ length bs * 256"
    using snoc by (intro mult_le_mono1) simp
  finally show ?case by simp
qed

lemma drop_chunk: "drop n xs = take k (drop n xs) @ drop (n + k) xs"
  by (metis add.commute append_take_drop_id drop_drop)

section \<open>Filling a list by index\<close>

lemma fold_list_update_length [simp]:
  "length (fold (\<lambda>(i, v) rs. rs[i := v]) ps rs) = length rs"
  by (induction ps arbitrary: rs) auto

lemma fold_list_update_nth:
  assumes "distinct (map fst ps)" "i < length rs"
  shows "fold (\<lambda>(i, v) rs. rs[i := v]) ps rs ! i = (case map_of ps i of None \<Rightarrow> rs ! i | Some v \<Rightarrow> v)"
  using assms
proof (induction ps arbitrary: rs)
  case (Cons p ps)
  then show ?case by (cases p) (auto simp: map_of_eq_None_iff [symmetric] split: option.splits)
qed simp

section \<open>Bytes and characters\<close>

definition char_of_byte :: "u8 \<Rightarrow> char" where
  "char_of_byte b = char_of (unat b)"

definition byte_of_char :: "char \<Rightarrow> u8" where
  "byte_of_char c = word_of_nat (of_char c)"

abbreviation string_of_bytes :: "u8 list \<Rightarrow> string" where
  "string_of_bytes \<equiv> map char_of_byte"

abbreviation bytes_of_string :: "string \<Rightarrow> u8 list" where
  "bytes_of_string \<equiv> map byte_of_char"

lemma unat_byte_of_char [simp]: "unat (byte_of_char c) = of_char c"
  by (simp add: byte_of_char_def unat_of_nat)

lemma char_of_byte_of_char [simp]: "char_of_byte (byte_of_char c) = c"
  by (simp add: char_of_byte_def)

lemma byte_of_char_of_byte [simp]: "byte_of_char (char_of_byte b) = b"
  by (simp add: char_of_byte_def byte_of_char_def byte_lt)

lemma byte_of_char_inject [simp]: "byte_of_char c = byte_of_char d \<longleftrightarrow> c = d"
  by (metis char_of_byte_of_char)

lemma byte_of_char_eq_0 [simp]: "byte_of_char c = 0 \<longleftrightarrow> c = CHR 0x00"
proof -
  have "byte_of_char (CHR 0x00) = 0" by (simp add: byte_of_char_def)
  then show ?thesis by (metis byte_of_char_inject)
qed

lemma char_byte_comp [simp]: "char_of_byte \<circ> byte_of_char = id"
  by (simp add: fun_eq_iff)

lemma string_of_bytes_of_string [simp]: "string_of_bytes (bytes_of_string s) = s"
  by (simp add: comp_def)

section \<open>Failures as values\<close>

text \<open>
  A C++ exception is \<open>Throw\<close> with the text of \<^verbatim>\<open>what()\<close>.
  \<open>OutOfBounds\<close> is a read outside the buffer that was handed over: the source has no check
  there, so it is undefined behaviour and not an exception. A handler that catches
  \<^verbatim>\<open>std::exception\<close> sees the first kind only.
\<close>

datatype failure = Throw string | OutOfBounds

type_synonym 'a result = "failure + 'a"

definition bindE :: "('e + 'a) \<Rightarrow> ('a \<Rightarrow> 'e + 'b) \<Rightarrow> 'e + 'b" where
  "bindE m f = (case m of Inl e \<Rightarrow> Inl e | Inr x \<Rightarrow> f x)"

lemma bindE_simps [simp]:
  "bindE (Inl e) f = Inl e"
  "bindE (Inr x) f = f x"
  by (simp_all add: bindE_def)

lemma bindE_Inr_iff: "bindE m f = Inr y \<longleftrightarrow> (\<exists>x. m = Inr x \<and> f x = Inr y)"
  by (cases m) auto

section \<open>Operations on a state\<close>

text \<open>
  An operation changes a state and returns a value or throws; \<open>bindS\<close> is the semicolon and \<open>forS\<close>
  a range-based for loop, both of which an exception leaves.
\<close>

type_synonym ('s, 'a) op = "'s \<Rightarrow> 's \<times> 'a result"

definition returnS :: "'a \<Rightarrow> ('s, 'a) op" where
  "returnS x s = (s, Inr x)"

definition throwS :: "failure \<Rightarrow> ('s, 'a) op" where
  "throwS e s = (s, Inl e)"

definition bindS :: "('s, 'a) op \<Rightarrow> ('a \<Rightarrow> ('s, 'b) op) \<Rightarrow> ('s, 'b) op" where
  "bindS m f s = (case m s of (s', Inl e) \<Rightarrow> (s', Inl e) | (s', Inr x) \<Rightarrow> f x s')"

fun forS :: "('a \<Rightarrow> ('s, unit) op) \<Rightarrow> 'a list \<Rightarrow> ('s, unit) op" where
  "forS f [] s = (s, Inr ())"
| "forS f (x # xs) s = bindS (f x) (\<lambda>_. forS f xs) s"

text \<open>\<^verbatim>\<open>try { m } catch (const std::exception& e) { h (e.what ()) }\<close>.\<close>

definition catchS :: "('s, 'a) op \<Rightarrow> (string \<Rightarrow> ('s, 'a) op) \<Rightarrow> ('s, 'a) op" where
  "catchS m h s = (case m s of (s', Inl (Throw e)) \<Rightarrow> h e s' | r \<Rightarrow> r)"

lemma bindS_simps [simp]:
  "m s = (s', Inl e) \<Longrightarrow> bindS m f s = (s', Inl e)"
  "m s = (s', Inr x) \<Longrightarrow> bindS m f s = f x s'"
  by (simp_all add: bindS_def)

lemma returnS_apply [simp]: "returnS x s = (s, Inr x)" "throwS e s = (s, Inl e)"
  by (simp_all add: returnS_def throwS_def)

lemma bindS_cases:
  assumes "bindS m f s = (s', r)"
  obtains (stop) e where "m s = (s', Inl e)" "r = Inl e"
    | (step) s1 x where "m s = (s1, Inr x)" "f x s1 = (s', r)"
  using assms by (auto simp: bindS_def split: prod.splits sum.splits)

lemma forS_inv:
  assumes "\<And>x s s' r. x \<in> set xs \<Longrightarrow> I s \<Longrightarrow> f x s = (s', r) \<Longrightarrow> I s'" "I s" "forS f xs s = (s', r)"
  shows "I s'"
  using assms
proof (induction xs arbitrary: s)
  case (Cons x xs)
  have "bindS (f x) (\<lambda>_. forS f xs) s = (s', r)" using Cons.prems(3) by simp
  then show ?case
  proof (cases rule: bindS_cases)
    case (stop e)
    then show ?thesis using Cons.prems(1,2) by (metis list.set_intros(1))
  next
    case (step s1 u)
    then have "I s1" using Cons.prems(1,2) by (metis list.set_intros(1))
    then show ?thesis using Cons.IH [OF _ _ step(2)] Cons.prems(1) by (meson list.set_intros(2))
  qed
qed auto

section \<open>Loops that may not end\<close>

text \<open>
  A loop whose body either leaves with a result (\<open>Inl\<close>) or goes on with a new state (\<open>Inr\<close>). A
  body or a loop that does not return is \<open>None\<close>. \<open>loop_inv\<close> is partial correctness with an
  invariant, \<open>loop_total\<close> total correctness with a measure.
\<close>

partial_function (option) loop :: "('a \<Rightarrow> ('b + 'a) option) \<Rightarrow> 'a \<Rightarrow> 'b option" where
  "loop f a = (case f a of None \<Rightarrow> None | Some (Inl b) \<Rightarrow> Some b | Some (Inr a') \<Rightarrow> loop f a')"

declare loop.simps [code]

lemma loop_simps:
  "f a = None \<Longrightarrow> loop f a = None"
  "f a = Some (Inl b) \<Longrightarrow> loop f a = Some b"
  "f a = Some (Inr a') \<Longrightarrow> loop f a = loop f a'"
  by (subst loop.simps, simp)+

lemma loop_inv:
  fixes f :: "'a \<Rightarrow> ('b + 'a) option"
  assumes "loop f a = Some b" "I a"
    and done_step: "\<And>a b. I a \<Longrightarrow> f a = Some (Inl b) \<Longrightarrow> Q b"
    and next_step: "\<And>a a'. I a \<Longrightarrow> f a = Some (Inr a') \<Longrightarrow> I a'"
  shows "Q b"
proof -
  have "f = f \<longrightarrow> I a \<longrightarrow> Q b"
  proof (rule loop.raw_induct [where P = "\<lambda>g a b. g = f \<longrightarrow> I a \<longrightarrow> Q b", OF _ assms(1)])
    fix rec :: "('a \<Rightarrow> ('b + 'a) option) \<Rightarrow> 'a \<Rightarrow> 'b option" and g a b
    assume IH: "\<And>g a b. rec g a = Some b \<Longrightarrow> g = f \<longrightarrow> I a \<longrightarrow> Q b"
      and r: "(case g a of None \<Rightarrow> None | Some (Inl b) \<Rightarrow> Some b | Some (Inr a') \<Rightarrow> rec g a') = Some b"
    show "g = f \<longrightarrow> I a \<longrightarrow> Q b"
    proof (intro impI)
      assume g: "g = f" and I: "I a"
      show "Q b"
        using r IH done_step [OF I] next_step [OF I] g by (auto split: option.splits sum.splits)
    qed
  qed
  then show ?thesis using assms(2) by blast
qed

lemma loop_total:
  assumes "I a"
    and step: "\<And>a. I a \<Longrightarrow> (\<exists>b. f a = Some (Inl b) \<and> Q b) \<or> (\<exists>a'. f a = Some (Inr a') \<and> I a' \<and> m a' < (m a :: nat))"
  shows "\<exists>b. loop f a = Some b \<and> Q b"
  using assms(1)
proof (induction a rule: measure_induct_rule [of m])
  case (less a)
  from step [OF less.prems] show ?case
    using less.IH loop_simps(2,3) by metis
qed

section \<open>Ordered JSON values\<close>

text \<open>
  \<^verbatim>\<open>nlohmann::ordered_json\<close> keeps the keys of an object in insertion
  order; \<open>JFloat\<close> is a number assigned from a \<^verbatim>\<open>float\<close> and
  \<open>JDouble\<close> a parsed number with a fraction, each as its bit pattern. \<open>obj_set\<close> is
  \<^verbatim>\<open>j[key] = v\<close>: the value of a key that
  exists is replaced where it stands, a new key goes to the end.
\<close>

datatype json =
    JNull
  | JBool bool
  | JInt int
  | JFloat u32
  | JDouble u64
  | JStr string
  | JArr "json list"
  | JObj "(string \<times> json) list"

fun obj_set :: "string \<Rightarrow> 'v \<Rightarrow> (string \<times> 'v) list \<Rightarrow> (string \<times> 'v) list" where
  "obj_set k v [] = [(k, v)]"
| "obj_set k v ((k', v') # o') = (if k' = k then (k, v) # o' else (k', v') # obj_set k v o')"

lemma map_of_obj_set [simp]: "map_of (obj_set k v ob) = (map_of ob)(k \<mapsto> v)"
  by (induction ob) auto

lemma keys_obj_set [simp]: "set (map fst (obj_set k v ob)) = insert k (set (map fst ob))"
  by (induction ob rule: obj_set.induct) auto

lemma distinct_obj_set [simp]: "distinct (map fst ob) \<Longrightarrow> distinct (map fst (obj_set k v ob))"
  by (induction k v ob rule: obj_set.induct) (auto simp del: set_map)

section \<open>Text building\<close>

definition digit :: "nat \<Rightarrow> char" where
  "digit d = char_of (48 + d)"

text \<open>\<^verbatim>\<open>std::to_string\<close> and \<^verbatim>\<open>operator<<\<close> on integers.\<close>

fun show_nat :: "nat \<Rightarrow> string" where
  "show_nat n = (if n < 10 then [digit n] else show_nat (n div 10) @ [digit (n mod 10)])"

declare show_nat.simps [simp del]

definition show_int :: "int \<Rightarrow> string" where
  "show_int i = (if i < 0 then ''-'' @ show_nat (nat (- i)) else show_nat (nat i))"

text \<open>The em dash of the log and error texts, as its three UTF-8 bytes.\<close>

definition em_dash :: string where
  "em_dash = [CHR 0xE2, CHR 0x80, CHR 0x94]"

text \<open>A text between single quotes.\<close>

definition squote :: "string \<Rightarrow> string" where
  "squote s = CHR 0x27 # s @ [CHR 0x27]"

fun join :: "string \<Rightarrow> string list \<Rightarrow> string" where
  "join sep [] = []"
| "join sep [x] = x"
| "join sep (x # y # ys) = x @ sep @ join sep (y # ys)"

lemma digit_inj: "a < 10 \<Longrightarrow> b < 10 \<Longrightarrow> digit a = digit b \<longleftrightarrow> a = b"
proof -
  assume *: "a < 10" "b < 10"
  have "of_char (digit n) = 48 + n" if "n < 10" for n
    using that by (simp add: digit_def)
  with * show ?thesis by (metis add_left_cancel)
qed

lemma show_nat_not_Nil [simp]: "show_nat n \<noteq> []"
  by (subst show_nat.simps) simp

lemma show_nat_inj: "show_nat m = show_nat n \<longleftrightarrow> m = n"
proof (induction m arbitrary: n rule: show_nat.induct)
  case (1 m)
  show ?case
  proof
    assume eq: "show_nat m = show_nat n"
    show "m = n"
    proof (cases "m < 10")
      case True
      then have "n < 10"
        using eq show_nat.simps [of m] show_nat.simps [of n]
        by (cases "n < 10") (auto simp: Cons_eq_append_conv)
      with True eq show ?thesis
        by (simp add: show_nat.simps [of m] show_nat.simps [of n] digit_inj)
    next
      case False
      then have n: "\<not> n < 10"
        using eq show_nat.simps [of m] show_nat.simps [of n]
        by (cases "n < 10") (auto simp: append_eq_Cons_conv)
      with False eq have "show_nat (m div 10) = show_nat (n div 10)" "digit (m mod 10) = digit (n mod 10)"
        by (simp_all add: show_nat.simps [of m] show_nat.simps [of n])
      then have "m div 10 = n div 10" "m mod 10 = n mod 10"
        using 1 False by (simp_all add: digit_inj)
      then show ?thesis by (metis div_mult_mod_eq)
    qed
  qed simp
qed

end
