(* ===== verification/Byte_Utils.thy ===== *)
theory Byte_Utils
  imports Walkrie_Prelude
begin

text \<open>
  The cursor readers of \<^verbatim>\<open>src/src/byte_utils.cpp\<close>. A cursor
  \<^verbatim>\<open>const uint8_t*& p\<close> into a buffer is the list of the bytes from
  \<^verbatim>\<open>p\<close> to the end of the buffer; a reader returns the value and the advanced
  cursor. None of the readers checks the end of the buffer, so a read past it is
  \<open>OutOfBounds\<close>. Every integer reader is shown equal to the big-endian value of the
  bytes it consumes.
\<close>

type_synonym 'a reader = "u8 list \<Rightarrow> ('a \<times> u8 list) result"

fun read_u8 :: "u8 reader" where
  "read_u8 [] = Inl OutOfBounds"
| "read_u8 (b # bs) = Inr (b, bs)"

text \<open>\<^verbatim>\<open>memcpy\<close> into a \<^verbatim>\<open>uint16_t\<close> on the little-endian hosts walkrie is built for, then a byte swap.\<close>

fun read_u16 :: "u16 reader" where
  "read_u16 (p0 # p1 # bs) =
     (let v = ucast p0 OR push_bit 8 (ucast p1)
      in Inr (push_bit 8 (v AND 0xFF) OR drop_bit 8 v, bs))"
| "read_u16 _ = Inl OutOfBounds"

fun read_u32 :: "u32 reader" where
  "read_u32 (p0 # p1 # p2 # p3 # bs) =
     Inr (push_bit 24 (ucast p0) OR push_bit 16 (ucast p1) OR push_bit 8 (ucast p2) OR ucast p3, bs)"
| "read_u32 _ = Inl OutOfBounds"

definition read_u64 :: "u64 reader" where
  "read_u64 bs =
     bindE (read_u32 bs) (\<lambda>(hi, bs1).
     bindE (read_u32 bs1) (\<lambda>(lo, bs2).
     Inr (push_bit 32 (ucast hi) OR ucast lo, bs2)))"

fun read_cstr :: "string reader" where
  "read_cstr [] = Inl OutOfBounds"
| "read_cstr (b # bs) =
     (if b = 0 then Inr ([], bs)
      else bindE (read_cstr bs) (\<lambda>(s, bs'). Inr (char_of_byte b # s, bs')))"

text \<open>\<^verbatim>\<open>std::string(p, n)\<close> and \<^verbatim>\<open>p += n\<close>: the next \<open>n\<close> bytes.\<close>

definition read_bytes :: "nat \<Rightarrow> u8 list reader" where
  "read_bytes n bs = (if length bs < n then Inl OutOfBounds else Inr (take n bs, drop n bs))"

section \<open>The big-endian writer that the readers invert\<close>

fun be_bytes :: "nat \<Rightarrow> nat \<Rightarrow> u8 list" where
  "be_bytes 0 n = []"
| "be_bytes (Suc k) n = be_bytes k (n div 256) @ [word_of_nat (n mod 256)]"

definition enc_u16 :: "u16 \<Rightarrow> u8 list" where
  "enc_u16 v = be_bytes 2 (unat v)"

definition enc_u32 :: "u32 \<Rightarrow> u8 list" where
  "enc_u32 v = be_bytes 4 (unat v)"

definition enc_u64 :: "u64 \<Rightarrow> u8 list" where
  "enc_u64 v = be_bytes 8 (unat v)"

definition enc_cstr :: "string \<Rightarrow> u8 list" where
  "enc_cstr s = bytes_of_string s @ [0]"

lemma length_be_bytes [simp]: "length (be_bytes k n) = k"
  by (induction k arbitrary: n) auto

lemma be_nat_be_bytes [simp]: "be_nat (be_bytes k n) = n mod 256 ^ k"
proof (induction k arbitrary: n)
  case 0
  then show ?case by simp
next
  case (Suc k)
  have "n div 256 mod 256 ^ k * 256 + n mod 256 = n mod (256 * 256 ^ k)"
    by (simp add: mod_mult2_eq)
  moreover have "unat (word_of_nat (n mod 256) :: u8) = n mod 256"
    by (simp add: unat_of_nat)
  ultimately show ?case using Suc by simp
qed

lemma be_bytes_be_nat: "be_bytes (length bs) (be_nat bs) = bs"
proof (induction bs rule: rev_induct)
  case Nil
  then show ?case by simp
next
  case (snoc b bs)
  have "(be_nat bs * 256 + unat b) div 256 = be_nat bs" "(be_nat bs * 256 + unat b) mod 256 = unat b"
    using byte_lt [of b] by simp_all
  with snoc show ?case by simp
qed

lemma length_enc [simp]:
  "length (enc_u16 a) = 2" "length (enc_u32 b) = 4" "length (enc_u64 c) = 8"
  by (simp_all add: enc_u16_def enc_u32_def enc_u64_def)

section \<open>Readers compute the big-endian value\<close>

lemma read_u16_value:
  "read_u16 bs = (if length bs < 2 then Inl OutOfBounds
     else Inr (word_of_nat (be_nat (take 2 bs)), drop 2 bs))"
proof (cases bs rule: read_u16.cases)
  case (1 p0 p1 r)
  let ?n = "unat p1 * 256 + unat p0"
  have v: "ucast p0 OR push_bit 8 (ucast p1) = (word_of_nat ?n :: u16)"
    using byte_lt [of p0] by (subst or.commute) (simp add: ucast_byte_nat push_or_nat del: of_nat_unat)
  have n: "?n < 2 ^ 16"
    using byte_lt [of p0] byte_lt [of p1] by simp
  have low: "word_of_nat ?n AND 0xFF = (word_of_nat (unat p0) :: u16)"
  proof -
    have "word_of_nat ?n AND 0xFF = (take_bit 8 (word_of_nat ?n) :: u16)"
      by (simp add: take_bit_eq_mask mask_eq_exp_minus_1)
    also have "\<dots> = word_of_nat (take_bit 8 ?n)"
      by (rule take_bit_of_nat)
    also have "take_bit 8 ?n = unat p0"
      using byte_lt [of p0] by (simp add: take_bit_eq_mod)
    finally show ?thesis .
  qed
  have high: "drop_bit 8 (word_of_nat ?n :: u16) = word_of_nat (unat p1)"
  proof -
    have "unat (word_of_nat ?n :: u16) = ?n"
      using n by (simp only: unat_of_nat) simp
    then have "unat (drop_bit 8 (word_of_nat ?n :: u16)) = ?n div 256"
      by (subst unat_drop_bit_eq) (simp only: drop_bit_eq_div, simp)
    also have "\<dots> = unat p1"
      using byte_lt [of p0] by simp
    also have "\<dots> = unat (word_of_nat (unat p1) :: u16)"
      using byte_lt [of p1] by (simp only: unat_of_nat) simp
    finally show ?thesis by (simp only: word_unat_eq_iff)
  qed
  have "push_bit 8 ((ucast p0 OR push_bit 8 (ucast p1)) AND 0xFF)
      OR drop_bit 8 (ucast p0 OR push_bit 8 (ucast p1)) = (word_of_nat (unat p0 * 2 ^ 8 + unat p1) :: u16)"
    using byte_lt [of p1] by (simp only: v low high) (simp add: push_or_nat del: of_nat_unat)
  then show ?thesis
    using 1 by (simp only: read_u16.simps Let_def) (simp add: be_nat_def)
qed auto

lemma read_u32_value:
  "read_u32 bs = (if length bs < 4 then Inl OutOfBounds
     else Inr (word_of_nat (be_nat (take 4 bs)), drop 4 bs))"
proof (cases bs rule: read_u32.cases)
  case (1 p0 p1 p2 p3 r)
  have "push_bit 24 (ucast p0) OR push_bit 16 (ucast p1) OR push_bit 8 (ucast p2) OR ucast p3
      = (push_bit 8 (push_bit 8 (push_bit 8 (ucast p0) OR ucast p1) OR ucast p2) OR ucast p3 :: u32)"
    by (simp add: push_bit_or or.assoc)
  also have "\<dots> = word_of_nat (be_nat [p0, p1, p2, p3])"
    using byte_lt [of p1] byte_lt [of p2] byte_lt [of p3]
    by (simp only: ucast_byte_nat push_or_nat) (simp add: be_nat_def push_or_nat del: of_nat_unat of_nat_add of_nat_mult)
  finally show ?thesis using 1 by simp
qed auto

lemma read_u64_value:
  "read_u64 bs = (if length bs < 8 then Inl OutOfBounds
     else Inr (word_of_nat (be_nat (take 8 bs)), drop 8 bs))"
proof (cases "length bs < 8")
  case True
  then show ?thesis by (auto simp: read_u64_def read_u32_value)
next
  case False
  let ?hi = "be_nat (take 4 bs)" and ?lo = "be_nat (take 4 (drop 4 bs))"
  have len: "length (take 4 bs) = 4" "length (take 4 (drop 4 bs)) = 4"
    using False by auto
  have lt: "?hi < 2 ^ 32" "?lo < 2 ^ 32"
    using be_nat_lt [of "take 4 bs"] be_nat_lt [of "take 4 (drop 4 bs)"] len by simp_all
  have ucast: "ucast (word_of_nat n :: u32) = (word_of_nat n :: u64)" if "n < 2 ^ 32" for n
  proof -
    have "unat (word_of_nat n :: u32) = n"
      using that by (simp only: unat_of_nat) simp
    then show ?thesis by (metis of_nat_unat)
  qed
  have "push_bit 32 (ucast (word_of_nat ?hi :: u32)) OR ucast (word_of_nat ?lo :: u32)
      = (word_of_nat (?hi * 2 ^ 32 + ?lo) :: u64)"
    using lt by (simp only: ucast push_or_nat)
  moreover have "take 8 bs = take 4 bs @ take 4 (drop 4 bs)"
    by (simp flip: take_add)
  then have "be_nat (take 8 bs) = ?hi * 2 ^ 32 + ?lo"
    using len by (simp add: be_nat_append)
  ultimately show ?thesis
    using False by (simp add: read_u64_def read_u32_value del: of_nat_add of_nat_mult)
qed

lemmas read_values = read_u16_value read_u32_value read_u64_value

text \<open>The loop of the two local \<^verbatim>\<open>read_u64\<close> helpers computes the same value.\<close>

fun shift_in :: "u8 list \<Rightarrow> u64 \<Rightarrow> u64" where
  "shift_in [] v = v"
| "shift_in (b # bs) v = shift_in bs (push_bit 8 v OR ucast b)"

lemma shift_in_nat: "shift_in bs (word_of_nat v) = word_of_nat (foldl (\<lambda>v b. v * 256 + unat b) v bs)"
proof (induction bs arbitrary: v)
  case Nil
  then show ?case by simp
next
  case (Cons b bs)
  have "push_bit 8 (word_of_nat v) OR ucast b = (word_of_nat (v * 256 + unat b) :: u64)"
    using byte_lt [of b] by (simp add: ucast_byte_nat push_or_nat del: of_nat_unat)
  then show ?case using Cons by (simp del: of_nat_add of_nat_mult)
qed

lemma shift_in_value: "shift_in bs 0 = word_of_nat (be_nat bs)"
  using shift_in_nat [of bs 0] by (simp add: be_nat_def)

section \<open>Round trips\<close>

lemma read_enc [byte_simps]:
  "read_u16 (enc_u16 a @ r) = Inr (a, r)"
  "read_u32 (enc_u32 b @ r) = Inr (b, r)"
  "read_u64 (enc_u64 c @ r) = Inr (c, r)"
  using unat_bound [of a] unat_bound [of b] unat_bound [of c]
  by (simp_all add: read_values enc_u16_def enc_u32_def enc_u64_def)

lemma shift_in_enc: "shift_in (enc_u64 c) 0 = c"
  using unat_bound [of c] by (simp add: shift_in_value enc_u64_def)

lemma read_cstr_enc [byte_simps]:
  "CHR 0x00 \<notin> set s \<Longrightarrow> read_cstr (enc_cstr s @ r) = Inr (s, r)"
  by (induction s) (auto simp: enc_cstr_def)

lemma read_bytes_append [byte_simps]:
  "length xs = n \<Longrightarrow> read_bytes n (xs @ r) = Inr (xs, r)"
  by (simp add: read_bytes_def)

lemma read_u8_Cons [byte_simps]: "read_u8 (b # r) = Inr (b, r)"
  by simp

text \<open>A reader consumes a prefix of the buffer: what is left is shorter by the width read.\<close>

lemma read_cstr_prefix:
  "read_cstr bs = Inr (s, r) \<Longrightarrow> bs = enc_cstr s @ r \<and> CHR 0x00 \<notin> set s"
proof (induction bs arbitrary: s)
  case Nil
  then show ?case by simp
next
  case (Cons b bs)
  show ?case
  proof (cases "b = 0")
    case True
    with Cons.prems show ?thesis by (simp add: enc_cstr_def)
  next
    case False
    with Cons.prems obtain s' where s': "read_cstr bs = Inr (s', r)" "s = char_of_byte b # s'"
      by (auto simp: bindE_Inr_iff)
    from False have "char_of_byte b \<noteq> CHR 0x00"
      by (metis byte_of_char_eq_0 byte_of_char_of_byte)
    with Cons.IH [OF s'(1)] s'(2) show ?thesis
      by (simp add: enc_cstr_def)
  qed
qed

end
