(* ===== verification/Wal_Frame.thy ===== *)
theory Wal_Frame
  imports Byte_Utils
begin

text \<open>
  The CopyData frames of the replication stream: \<^verbatim>\<open>src/src/wal_frame.hpp\<close>
  and \<^verbatim>\<open>src/src/wal_frame.cpp\<close>. A buffer pointer is an optional byte
  list, \<open>None\<close> for \<^verbatim>\<open>nullptr\<close>; \<^verbatim>\<open>len\<close> is
  the length of the list. The parsers are characterised completely: they accept exactly the
  frames of the documented layout, so the length guards are the right ones.
\<close>

record XLogDataHeader =
  wal_start :: u64
  wal_end :: u64
  send_time :: u64
  payload :: "u8 list"

record KeepaliveMessage =
  ka_wal_end :: u64
  ka_send_time :: u64
  reply_requested :: bool

text \<open>The local \<^verbatim>\<open>read_u64(p + off)\<close>: eight bytes from \<open>off\<close>, shifted in one by one.\<close>

definition read_u64_at :: "u8 list \<Rightarrow> nat \<Rightarrow> u64" where
  "read_u64_at p off = shift_in (take 8 (drop off p)) 0"

definition parse_xlogdata_header :: "u8 list option \<Rightarrow> XLogDataHeader option" where
  "parse_xlogdata_header buf =
     (case buf of
        None \<Rightarrow> None
      | Some bs \<Rightarrow>
          let headerLen = 1 + 8 + 8 + 8 in
          if length bs < headerLen then None
          else (let p = drop 1 bs in
            Some \<lparr>wal_start = read_u64_at p 0, wal_end = read_u64_at p 8,
                  send_time = read_u64_at p 16, payload = drop headerLen bs\<rparr>))"

definition parse_keepalive_message :: "u8 list option \<Rightarrow> KeepaliveMessage option" where
  "parse_keepalive_message buf =
     (case buf of
        None \<Rightarrow> None
      | Some bs \<Rightarrow>
          let keepaliveLen = 1 + 8 + 8 + 1 in
          if length bs < keepaliveLen then None
          else (let p = drop 1 bs in
            Some \<lparr>ka_wal_end = read_u64_at p 0, ka_send_time = read_u64_at p 8,
                  reply_requested = (bs ! 17 \<noteq> 0)\<rparr>))"

section \<open>The layout\<close>

lemma enc_u64_read_at:
  assumes "off + 8 \<le> length p"
  shows "enc_u64 (read_u64_at p off) = take 8 (drop off p)"
proof -
  have len: "length (take 8 (drop off p)) = 8" using assms by simp
  have "be_nat (take 8 (drop off p)) < 2 ^ 64"
    using be_nat_lt [of "take 8 (drop off p)"] len by simp
  then have "unat (read_u64_at p off) = be_nat (take 8 (drop off p))"
    by (simp add: read_u64_at_def shift_in_value unat_of_nat)
  then show ?thesis
    using be_bytes_be_nat [of "take 8 (drop off p)"] len by (simp add: enc_u64_def)
qed

lemma read_u64_at_enc:
  "length xs = off \<Longrightarrow> read_u64_at (xs @ enc_u64 v @ r) off = v"
  by (simp add: read_u64_at_def shift_in_enc)

lemmas read_u64_at_enc0 = read_u64_at_enc [of "[]" 0, simplified]

lemma parse_xlogdata_enc [byte_simps]:
  "parse_xlogdata_header (Some (t # enc_u64 a @ enc_u64 b @ enc_u64 c @ bs)) = Some \<lparr>wal_start = a, wal_end = b, send_time = c, payload = bs\<rparr>"
  by (simp add: parse_xlogdata_header_def Let_def read_u64_at_def shift_in_enc)

lemma parse_keepalive_enc [byte_simps]:
  "parse_keepalive_message (Some (t # enc_u64 a @ enc_u64 b @ flag # bs)) = Some \<lparr>ka_wal_end = a, ka_send_time = b, reply_requested = (flag \<noteq> 0)\<rparr>"
  by (simp add: parse_keepalive_message_def Let_def read_u64_at_def shift_in_enc nth_append)

text \<open>
  The XLogData parser accepts exactly the documented layout: one type byte, three
  big-endian 64-bit fields, then the payload, which may be empty.
\<close>

theorem parse_xlogdata_header_iff:
  "parse_xlogdata_header (Some bs) = Some h \<longleftrightarrow>
     (\<exists>t. bs = t # enc_u64 (wal_start h) @ enc_u64 (wal_end h) @ enc_u64 (send_time h) @ payload h)"
  (is "?parse \<longleftrightarrow> (\<exists>t. ?layout t)")
proof
  assume parse: ?parse
  then obtain t p where bs: "bs = t # p" and len: "24 \<le> length p"
    and h: "h = \<lparr>wal_start = read_u64_at p 0, wal_end = read_u64_at p 8,
                  send_time = read_u64_at p 16, payload = drop 24 p\<rparr>"
    by (cases bs) (auto simp: parse_xlogdata_header_def Let_def split: if_splits)
  have "p = take 8 p @ take 8 (drop 8 p) @ take 8 (drop 16 p) @ drop 24 p"
    using drop_chunk [of 0 p 8] drop_chunk [of 8 p 8] drop_chunk [of 16 p 8] by simp
  moreover have "enc_u64 (read_u64_at p 0) = take 8 p" "enc_u64 (read_u64_at p 8) = take 8 (drop 8 p)"
    "enc_u64 (read_u64_at p 16) = take 8 (drop 16 p)"
    using len enc_u64_read_at [of 0 p] enc_u64_read_at [of 8 p] enc_u64_read_at [of 16 p] by simp_all
  ultimately show "\<exists>t. ?layout t"
    using bs h by simp
next
  assume "\<exists>t. ?layout t"
  then obtain t where "?layout t" ..
  then show ?parse
    by (cases h) (simp add: parse_xlogdata_header_def Let_def read_u64_at_def shift_in_enc)
qed

text \<open>
  The keepalive parser accepts exactly the frames that start with one type byte, two
  big-endian 64-bit fields and the reply flag, and reads the flag as \<open>\<noteq> 0\<close>.
\<close>

theorem parse_keepalive_message_iff:
  "parse_keepalive_message (Some bs) = Some m \<longleftrightarrow>
     (\<exists>t flag r. bs = t # enc_u64 (ka_wal_end m) @ enc_u64 (ka_send_time m) @ flag # r
        \<and> reply_requested m = (flag \<noteq> 0))"
  (is "?parse \<longleftrightarrow> (\<exists>t flag r. ?layout t flag r)")
proof
  assume parse: ?parse
  then obtain t p where bs: "bs = t # p" and len: "17 \<le> length p"
    and m: "m = \<lparr>ka_wal_end = read_u64_at p 0, ka_send_time = read_u64_at p 8,
                  reply_requested = (p ! 16 \<noteq> 0)\<rparr>"
    by (cases bs) (auto simp: parse_keepalive_message_def Let_def split: if_splits)
  have "p = take 8 p @ take 8 (drop 8 p) @ drop 16 p"
    using drop_chunk [of 0 p 8] drop_chunk [of 8 p 8] by simp
  moreover have "drop 16 p = p ! 16 # drop 17 p"
    using len Cons_nth_drop_Suc [of 16 p] by simp
  moreover have "enc_u64 (read_u64_at p 0) = take 8 p" "enc_u64 (read_u64_at p 8) = take 8 (drop 8 p)"
    using len enc_u64_read_at [of 0 p] enc_u64_read_at [of 8 p] by simp_all
  ultimately have "?layout t (p ! 16) (drop 17 p)"
    using bs m by simp
  then show "\<exists>t flag r. ?layout t flag r" by blast
next
  assume "\<exists>t flag r. ?layout t flag r"
  then obtain t flag r where "?layout t flag r" by blast
  then show ?parse
    by (cases m) (simp add: parse_keepalive_message_def Let_def read_u64_at_def shift_in_enc nth_append)
qed

end
