(* ===== verification/Events.thy ===== *)
theory Events
  imports Walkrie_Prelude
begin

text \<open>
  The data that flows through the pipeline: \<^verbatim>\<open>src/src/event.hpp\<close>, with
  the JSON form of rows and events. Enumerators carry the name of their enum where two enums
  share a name.
\<close>

record ColumnValue =
  cv_name :: string
  is_null :: bool
  is_unchanged_toast :: bool
  text_value :: string

datatype TupleKind = TupleInsert | UpdateOld | UpdateNew | TupleDelete

record DecodedRow =
  row_schema :: string
  row_table :: string
  row_kind :: TupleKind
  columns :: "ColumnValue list"

datatype Op = Insert | Update | Delete | Truncate | Commit

record ChangeEvent =
  op :: Op
  schema_name :: string
  table_name :: string
  old_row :: "DecodedRow option"
  new_row :: "DecodedRow option"
  commit_lsn :: u64
  commit_timestamp :: u64

text \<open>A default-constructed event with the given operation.\<close>

definition new_event :: "Op \<Rightarrow> ChangeEvent" where
  "new_event k = \<lparr>op = k, schema_name = [], table_name = [], old_row = None, new_row = None,
     commit_lsn = 0, commit_timestamp = 0\<rparr>"

lemma new_event_simps [simp]:
  "op (new_event k) = k" "schema_name (new_event k) = []" "table_name (new_event k) = []"
  "old_row (new_event k) = None" "new_row (new_event k) = None"
  "commit_lsn (new_event k) = 0" "commit_timestamp (new_event k) = 0"
  by (simp_all add: new_event_def)

record RelationInfo =
  relation_id :: u32
  rel_schema :: string
  rel_table :: string
  column_names :: "string list"

section \<open>JSON\<close>

definition cv_json :: "ColumnValue \<Rightarrow> json" where
  "cv_json c = (if is_null c then JNull
     else if is_unchanged_toast c then JStr ''__unchanged_toast__''
     else JStr (text_value c))"

fun row_members :: "ColumnValue list \<Rightarrow> (string \<times> json) list \<Rightarrow> (string \<times> json) list" where
  "row_members [] ob = ob"
| "row_members (c # cs) ob = row_members cs (obj_set (cv_name c) (cv_json c) ob)"

text \<open>The first assignment turns the null value into an object, so a row without columns stays null.\<close>

definition row_to_json :: "DecodedRow \<Rightarrow> json" where
  "row_to_json row = (if columns row = [] then JNull else JObj (row_members (columns row) []))"

fun op_to_string :: "Op \<Rightarrow> string" where
  "op_to_string Insert = ''insert''"
| "op_to_string Update = ''update''"
| "op_to_string Delete = ''delete''"
| "op_to_string Truncate = ''truncate''"
| "op_to_string Commit = ''commit''"

definition event_to_json :: "ChangeEvent \<Rightarrow> json" where
  "event_to_json e =
     (let j = [(''op'', JStr (op_to_string (op e))), (''schema'', JStr (schema_name e)),
               (''table'', JStr (table_name e)), (''lsn'', JInt (uint (commit_lsn e))),
               (''commit_timestamp'', JInt (uint (commit_timestamp e)))];
          j1 = (case old_row e of None \<Rightarrow> j | Some r \<Rightarrow> obj_set ''old'' (row_to_json r) j);
          j2 = (case new_row e of None \<Rightarrow> j1 | Some r \<Rightarrow> obj_set ''new'' (row_to_json r) j1)
      in JObj j2)"

lemma obj_set_fresh: "k \<notin> set (map fst ob) \<Longrightarrow> obj_set k v ob = ob @ [(k, v)]"
  by (induction ob rule: obj_set.induct) auto

lemma row_members_append:
  "distinct (map cv_name cs) \<Longrightarrow> set (map cv_name cs) \<inter> set (map fst ob) = {} \<Longrightarrow>
     row_members cs ob = ob @ map (\<lambda>c. (cv_name c, cv_json c)) cs"
proof (induction cs arbitrary: ob)
  case Nil
  then show ?case by simp
next
  case (Cons c cs)
  then show ?case by (simp add: obj_set_fresh del: set_map)
qed

lemma op_to_string_inj: "op_to_string a = op_to_string b \<longleftrightarrow> a = b"
  by (cases a; cases b) auto

text \<open>
  The JSON form of a row keeps the columns in table order, one member per column, when the
  column names are distinct: null, placeholder or text, as the flags say.
\<close>

theorem row_to_json_members:
  assumes "distinct (map cv_name (columns row))" and "columns row \<noteq> []"
  shows "row_to_json row = JObj (map (\<lambda>c. (cv_name c, cv_json c)) (columns row))"
  using assms row_members_append [of "columns row" "[]"] by (simp add: row_to_json_def)

definition sample_row :: DecodedRow where
  "sample_row = \<lparr>row_schema = ''public'', row_table = ''items'', row_kind = TupleInsert,
     columns = [\<lparr>cv_name = ''id'', is_null = False, is_unchanged_toast = False, text_value = ''7''\<rparr>,
                \<lparr>cv_name = ''body'', is_null = True, is_unchanged_toast = False, text_value = []\<rparr>]\<rparr>"

theorem row_to_json_members_witness:
  "row_to_json sample_row = JObj [(''id'', JStr ''7''), (''body'', JNull)]"
  using row_to_json_members [of sample_row] by (simp add: sample_row_def cv_json_def)

end
