(* ===== verification/Pgoutput_Parser.thy ===== *)
theory Pgoutput_Parser
  imports Wal_Frame Events
begin

text \<open>
  The pgoutput decoder of \<^verbatim>\<open>src/src/pgoutput_parser.cpp\<close>. The parser
  object is the relation cache and the commit timestamp of the open transaction. A decode
  either throws, reads past the message (\<open>OutOfBounds\<close>; the source omits the bounds
  checks) or returns the new parser state with \<open>None\<close> for messages that surface no
  event. The message grammar of the protocol is given as a datatype with its encoder, and the
  decoder is shown to compute the intended event of every encoded message.
\<close>

record PgOutputParser =
  relations :: "u32 \<rightharpoonup> RelationInfo"
  pending_commit_timestamp :: u64

definition kPgEpochOffsetUs :: u64 where
  "kPgEpochOffsetUs = 946684800 * 1000000"

abbreviation chr :: "char \<Rightarrow> u8" where
  "chr \<equiv> byte_of_char"

fun read_relation_columns :: "nat \<Rightarrow> string list reader" where
  "read_relation_columns 0 p = Inr ([], p)"
| "read_relation_columns (Suc n) p =
     bindE (read_u8 p) (\<lambda>(flags, p).
     bindE (read_cstr p) (\<lambda>(col_name, p).
     bindE (read_u32 p) (\<lambda>(type_oid, p).
     bindE (read_u32 p) (\<lambda>(type_modifier, p).
     bindE (read_relation_columns n p) (\<lambda>(cs, p).
     Inr (col_name # cs, p))))))"

definition handle_relation :: "u8 list \<Rightarrow> PgOutputParser \<Rightarrow> PgOutputParser result" where
  "handle_relation p st =
     bindE (read_u32 p) (\<lambda>(rid, p).
     bindE (read_cstr p) (\<lambda>(sch, p).
     bindE (read_cstr p) (\<lambda>(tab, p).
     bindE (read_u8 p) (\<lambda>(replica_identity, p).
     bindE (read_u16 p) (\<lambda>(num_columns, p).
     bindE (read_relation_columns (unat num_columns) p) (\<lambda>(cs, p).
     Inr (st\<lparr>relations := (relations st)(rid \<mapsto>
       \<lparr>relation_id = rid, rel_schema = sch, rel_table = tab, column_names = cs\<rparr>)\<rparr>)))))))"

definition handle_begin :: "u8 list \<Rightarrow> PgOutputParser \<Rightarrow> PgOutputParser" where
  "handle_begin data st =
     (if length data < 20 then st
      else st\<lparr>pending_commit_timestamp := read_u64_at data 8 + kPgEpochOffsetUs\<rparr>)"

fun truncate_events :: "PgOutputParser \<Rightarrow> nat \<Rightarrow> u8 list \<Rightarrow> ChangeEvent list result" where
  "truncate_events st 0 p = Inr []"
| "truncate_events st (Suc n) p =
     bindE (read_u32 p) (\<lambda>(rel_id, p).
     bindE (truncate_events st n p) (\<lambda>evs.
     Inr (case relations st rel_id of
            None \<Rightarrow> evs
          | Some rel \<Rightarrow> (new_event Truncate)\<lparr>schema_name := rel_schema rel, table_name := rel_table rel,
              commit_timestamp := pending_commit_timestamp st\<rparr> # evs)))"

definition handle_truncate :: "u8 list \<Rightarrow> PgOutputParser \<Rightarrow> ChangeEvent list result" where
  "handle_truncate p st =
     bindE (read_u32 p) (\<lambda>(num_relations, p).
     bindE (read_u8 p) (\<lambda>(flags, p).
     truncate_events st (unat num_relations) p))"

definition column_name_at :: "RelationInfo \<Rightarrow> nat \<Rightarrow> string" where
  "column_name_at rel i = (if i < length (column_names rel) then column_names rel ! i else [])"

text \<open>The loop of \<^verbatim>\<open>decode_tuple\<close> from column \<open>i\<close> with \<open>n\<close> columns to go.\<close>

fun decode_columns :: "RelationInfo \<Rightarrow> nat \<Rightarrow> nat \<Rightarrow> ColumnValue list reader" where
  "decode_columns rel i 0 p = Inr ([], p)"
| "decode_columns rel i (Suc n) p =
     (let cv = \<lparr>cv_name = column_name_at rel i, is_null = False, is_unchanged_toast = False, text_value = []\<rparr> in
      bindE (read_u8 p) (\<lambda>(kind_byte, p).
      bindE (if kind_byte = chr CHR ''n'' then Inr (cv\<lparr>is_null := True\<rparr>, p)
             else if kind_byte = chr CHR ''u'' then Inr (cv\<lparr>is_unchanged_toast := True\<rparr>, p)
             else if kind_byte = chr CHR ''t'' then
               bindE (read_u32 p) (\<lambda>(value_len, p).
               bindE (read_bytes (unat value_len) p) (\<lambda>(v, p).
               Inr (cv\<lparr>text_value := string_of_bytes v\<rparr>, p)))
             else Inl (Throw ''pgoutput: unexpected tuple column kind byte'')) (\<lambda>(cv, p).
      bindE (decode_columns rel (Suc i) n p) (\<lambda>(cvs, p).
      Inr (cv # cvs, p)))))"

definition decode_tuple :: "RelationInfo \<Rightarrow> TupleKind \<Rightarrow> DecodedRow reader" where
  "decode_tuple rel kind p =
     bindE (read_u16 p) (\<lambda>(num_columns, p).
     bindE (decode_columns rel 0 (unat num_columns) p) (\<lambda>(cvs, p).
     Inr (\<lparr>row_schema = rel_schema rel, row_table = rel_table rel, row_kind = kind, columns = cvs\<rparr>, p)))"

definition rel_event :: "PgOutputParser \<Rightarrow> Op \<Rightarrow> RelationInfo \<Rightarrow> ChangeEvent" where
  "rel_event st k rel = (new_event k)\<lparr>schema_name := rel_schema rel, table_name := rel_table rel,
     commit_timestamp := pending_commit_timestamp st\<rparr>"

definition parse_insert :: "PgOutputParser \<Rightarrow> u8 list \<Rightarrow> ChangeEvent result" where
  "parse_insert st p =
     bindE (read_u32 p) (\<lambda>(rel_id, p).
     case relations st rel_id of
       None \<Rightarrow> Inl (Throw ''pgoutput: Insert for unknown relation (missing Relation message)'')
     | Some rel \<Rightarrow>
         bindE (read_u8 p) (\<lambda>(tuple_tag, p).
         bindE (decode_tuple rel TupleInsert p) (\<lambda>(row, p).
         Inr ((rel_event st Insert rel)\<lparr>new_row := Some row\<rparr>))))"

definition parse_update :: "PgOutputParser \<Rightarrow> u8 list \<Rightarrow> ChangeEvent result" where
  "parse_update st p =
     bindE (read_u32 p) (\<lambda>(rel_id, p).
     case relations st rel_id of
       None \<Rightarrow> Inl (Throw ''pgoutput: Update for unknown relation (missing Relation message)'')
     | Some rel \<Rightarrow>
         bindE (read_u8 p) (\<lambda>(tag, p).
         bindE (if tag = chr CHR ''K'' \<or> tag = chr CHR ''O'' then
                  bindE (decode_tuple rel UpdateOld p) (\<lambda>(row, p).
                  bindE (read_u8 p) (\<lambda>(tag, p). Inr (Some row, tag, p)))
                else Inr (None, tag, p)) (\<lambda>(old, tag, p).
         bindE (if tag = chr CHR ''N'' then
                  bindE (decode_tuple rel UpdateNew p) (\<lambda>(row, p). Inr (Some row))
                else Inr None) (\<lambda>new.
         Inr ((rel_event st Update rel)\<lparr>old_row := old, new_row := new\<rparr>)))))"

definition parse_delete :: "PgOutputParser \<Rightarrow> u8 list \<Rightarrow> ChangeEvent result" where
  "parse_delete st p =
     bindE (read_u32 p) (\<lambda>(rel_id, p).
     case relations st rel_id of
       None \<Rightarrow> Inl (Throw ''pgoutput: Delete for unknown relation (missing Relation message)'')
     | Some rel \<Rightarrow>
         bindE (read_u8 p) (\<lambda>(tag, p).
         bindE (decode_tuple rel TupleDelete p) (\<lambda>(row, p).
         Inr ((rel_event st Delete rel)\<lparr>old_row := Some row\<rparr>))))"

definition parse :: "PgOutputParser \<Rightarrow> u8 list \<Rightarrow> (PgOutputParser \<times> ChangeEvent list option) result" where
  "parse st data =
     (case data of
        [] \<Rightarrow> Inr (st, None)
      | msg_type # p \<Rightarrow>
          if msg_type = chr CHR ''B'' then Inr (handle_begin p st, None)
          else if msg_type = chr CHR ''C'' then
            Inr (st, Some [(new_event Commit)\<lparr>commit_timestamp := pending_commit_timestamp st\<rparr>])
          else if msg_type = chr CHR ''R'' then bindE (handle_relation p st) (\<lambda>st'. Inr (st', None))
          else if msg_type = chr CHR ''Y'' then Inr (st, None)
          else if msg_type = chr CHR ''O'' then Inr (st, None)
          else if msg_type = chr CHR ''T'' then bindE (handle_truncate p st) (\<lambda>evs. Inr (st, Some evs))
          else if msg_type = chr CHR ''I'' then bindE (parse_insert st p) (\<lambda>ev. Inr (st, Some [ev]))
          else if msg_type = chr CHR ''U'' then bindE (parse_update st p) (\<lambda>ev. Inr (st, Some [ev]))
          else if msg_type = chr CHR ''D'' then bindE (parse_delete st p) (\<lambda>ev. Inr (st, Some [ev]))
          else Inr (st, None))"

section \<open>The message grammar and its meaning\<close>

datatype wire_col = WNull | WToast | WText string

fun enc_col :: "wire_col \<Rightarrow> u8 list" where
  "enc_col WNull = [chr CHR ''n'']"
| "enc_col WToast = [chr CHR ''u'']"
| "enc_col (WText s) = chr CHR ''t'' # enc_u32 (word_of_nat (length s)) @ bytes_of_string s"

definition enc_tuple :: "wire_col list \<Rightarrow> u8 list" where
  "enc_tuple cs = enc_u16 (word_of_nat (length cs)) @ concat (map enc_col cs)"

fun wf_col :: "wire_col \<Rightarrow> bool" where
  "wf_col (WText s) = (length s < 2 ^ 32)"
| "wf_col _ = True"

definition wf_tuple :: "wire_col list \<Rightarrow> bool" where
  "wf_tuple cs = (length cs < 2 ^ 16 \<and> list_all wf_col cs)"

fun col_value :: "string \<Rightarrow> wire_col \<Rightarrow> ColumnValue" where
  "col_value n WNull = \<lparr>cv_name = n, is_null = True, is_unchanged_toast = False, text_value = []\<rparr>"
| "col_value n WToast = \<lparr>cv_name = n, is_null = False, is_unchanged_toast = True, text_value = []\<rparr>"
| "col_value n (WText s) = \<lparr>cv_name = n, is_null = False, is_unchanged_toast = False, text_value = s\<rparr>"

text \<open>The row a tuple stands for: column \<open>i\<close> has the \<open>i\<close>-th cached name.\<close>

definition row_of :: "RelationInfo \<Rightarrow> TupleKind \<Rightarrow> wire_col list \<Rightarrow> DecodedRow" where
  "row_of rel kind cs = \<lparr>row_schema = rel_schema rel, row_table = rel_table rel, row_kind = kind,
     columns = map (\<lambda>(i, c). col_value (column_name_at rel i) c) (enumerate 0 cs)\<rparr>"

record wire_attr =
  at_flags :: u8
  at_name :: string
  at_type :: u32
  at_mod :: u32

datatype wire_msg =
    MBegin u64 u64 u32
  | MCommit "u8 list"
  | MRelation u32 string string u8 "wire_attr list"
  | MType "u8 list"
  | MOrigin "u8 list"
  | MTruncate u8 "u32 list"
  | MInsert u32 "wire_col list"
  | MUpdate u32 "(bool \<times> wire_col list) option" "wire_col list"
  | MDelete u32 bool "wire_col list"

definition enc_attr :: "wire_attr \<Rightarrow> u8 list" where
  "enc_attr a = at_flags a # enc_cstr (at_name a) @ enc_u32 (at_type a) @ enc_u32 (at_mod a)"

text \<open>The tag of an old tuple: \<open>K\<close> for a key tuple, \<open>O\<close> for a full row.\<close>

definition old_tag :: "bool \<Rightarrow> u8" where
  "old_tag key = chr (if key then CHR ''K'' else CHR ''O'')"

fun enc_msg :: "wire_msg \<Rightarrow> u8 list" where
  "enc_msg (MBegin lsn ts xid) = chr CHR ''B'' # enc_u64 lsn @ enc_u64 ts @ enc_u32 xid"
| "enc_msg (MCommit r) = chr CHR ''C'' # r"
| "enc_msg (MRelation rid sch tab ident ats) =
     chr CHR ''R'' # enc_u32 rid @ enc_cstr sch @ enc_cstr tab @ ident #
       enc_u16 (word_of_nat (length ats)) @ concat (map enc_attr ats)"
| "enc_msg (MType r) = chr CHR ''Y'' # r"
| "enc_msg (MOrigin r) = chr CHR ''O'' # r"
| "enc_msg (MTruncate flags rids) =
     chr CHR ''T'' # enc_u32 (word_of_nat (length rids)) @ flags # concat (map enc_u32 rids)"
| "enc_msg (MInsert rid cs) = chr CHR ''I'' # enc_u32 rid @ chr CHR ''N'' # enc_tuple cs"
| "enc_msg (MUpdate rid old cs) =
     chr CHR ''U'' # enc_u32 rid @
       (case old of None \<Rightarrow> [] | Some (key, ocs) \<Rightarrow> old_tag key # enc_tuple ocs) @
       chr CHR ''N'' # enc_tuple cs"
| "enc_msg (MDelete rid key cs) = chr CHR ''D'' # enc_u32 rid @ old_tag key # enc_tuple cs"

fun wf_msg :: "wire_msg \<Rightarrow> bool" where
  "wf_msg (MRelation rid sch tab ident ats) =
     (CHR 0x00 \<notin> set sch \<and> CHR 0x00 \<notin> set tab \<and> length ats < 2 ^ 16
      \<and> list_all (\<lambda>a. CHR 0x00 \<notin> set (at_name a)) ats)"
| "wf_msg (MTruncate flags rids) = (length rids < 2 ^ 32)"
| "wf_msg (MInsert rid cs) = wf_tuple cs"
| "wf_msg (MUpdate rid old cs) =
     ((case old of None \<Rightarrow> True | Some (key, ocs) \<Rightarrow> wf_tuple ocs) \<and> wf_tuple cs)"
| "wf_msg (MDelete rid key cs) = wf_tuple cs"
| "wf_msg _ = True"

definition truncate_event :: "PgOutputParser \<Rightarrow> u32 \<Rightarrow> ChangeEvent option" where
  "truncate_event st rid = map_option (rel_event st Truncate) (relations st rid)"

text \<open>What a message means for the cache, the pending timestamp and the emitted events.\<close>

fun msg_meaning :: "PgOutputParser \<Rightarrow> wire_msg \<Rightarrow> (PgOutputParser \<times> ChangeEvent list option) result" where
  "msg_meaning st (MBegin lsn ts xid) = Inr (st\<lparr>pending_commit_timestamp := ts + kPgEpochOffsetUs\<rparr>, None)"
| "msg_meaning st (MCommit r) =
     Inr (st, Some [(new_event Commit)\<lparr>commit_timestamp := pending_commit_timestamp st\<rparr>])"
| "msg_meaning st (MRelation rid sch tab ident ats) =
     Inr (st\<lparr>relations := (relations st)(rid \<mapsto> \<lparr>relation_id = rid, rel_schema = sch, rel_table = tab,
       column_names = map at_name ats\<rparr>)\<rparr>, None)"
| "msg_meaning st (MType r) = Inr (st, None)"
| "msg_meaning st (MOrigin r) = Inr (st, None)"
| "msg_meaning st (MTruncate flags rids) = Inr (st, Some (List.map_filter (truncate_event st) rids))"
| "msg_meaning st (MInsert rid cs) =
     (case relations st rid of
        None \<Rightarrow> Inl (Throw ''pgoutput: Insert for unknown relation (missing Relation message)'')
      | Some rel \<Rightarrow> Inr (st, Some [(rel_event st Insert rel)\<lparr>new_row := Some (row_of rel TupleInsert cs)\<rparr>]))"
| "msg_meaning st (MUpdate rid old cs) =
     (case relations st rid of
        None \<Rightarrow> Inl (Throw ''pgoutput: Update for unknown relation (missing Relation message)'')
      | Some rel \<Rightarrow> Inr (st, Some [(rel_event st Update rel)\<lparr>
          old_row := map_option (\<lambda>(key, ocs). row_of rel UpdateOld ocs) old,
          new_row := Some (row_of rel UpdateNew cs)\<rparr>]))"
| "msg_meaning st (MDelete rid key cs) =
     (case relations st rid of
        None \<Rightarrow> Inl (Throw ''pgoutput: Delete for unknown relation (missing Relation message)'')
      | Some rel \<Rightarrow> Inr (st, Some [(rel_event st Delete rel)\<lparr>old_row := Some (row_of rel TupleDelete cs)\<rparr>]))"

section \<open>Decoding inverts encoding\<close>

lemma unat_of_nat_small:
  "n < 2 ^ 16 \<Longrightarrow> unat (word_of_nat n :: u16) = n"
  "n < 2 ^ 32 \<Longrightarrow> unat (word_of_nat n :: u32) = n"
  by (simp_all add: unat_of_nat)

lemma decode_column_step:
  "wf_col c \<Longrightarrow> decode_columns rel i (Suc n) (enc_col c @ r) =
     bindE (decode_columns rel (Suc i) n r) (\<lambda>(cvs, p). Inr (col_value (column_name_at rel i) c # cvs, p))"
  by (cases c) (simp_all add: byte_simps unat_of_nat_small Let_def)

lemma decode_columns_enc [byte_simps]:
  "list_all wf_col cs \<Longrightarrow>
     decode_columns rel i (length cs) (concat (map enc_col cs) @ r) =
       Inr (map (\<lambda>(i, c). col_value (column_name_at rel i) c) (enumerate i cs), r)"
proof (induction cs arbitrary: i)
  case Nil
  then show ?case by simp
next
  case (Cons c cs)
  then show ?case by (simp add: decode_column_step del: decode_columns.simps)
qed

lemma decode_tuple_enc [byte_simps]:
  "wf_tuple cs \<Longrightarrow> decode_tuple rel kind (enc_tuple cs @ r) = Inr (row_of rel kind cs, r)"
  by (simp add: decode_tuple_def enc_tuple_def wf_tuple_def row_of_def byte_simps unat_of_nat_small)

lemmas decode_tuple_enc_end [byte_simps] = decode_tuple_enc [where r = "[]", simplified]

lemma read_relation_columns_enc [byte_simps]:
  "list_all (\<lambda>a. CHR 0x00 \<notin> set (at_name a)) ats \<Longrightarrow>
     read_relation_columns (length ats) (concat (map enc_attr ats) @ r) = Inr (map at_name ats, r)"
  by (induction ats) (simp_all add: enc_attr_def byte_simps)

lemma truncate_events_enc [byte_simps]:
  "truncate_events st (length rids) (concat (map enc_u32 rids) @ r) =
     Inr (List.map_filter (truncate_event st) rids)"
  by (induction rids)
     (simp_all add: byte_simps truncate_event_def rel_event_def List.map_filter_simps split: option.splits)

lemma parse_meaning:
  assumes "wf_msg m"
  shows "parse st (enc_msg m) = msg_meaning st m"
proof (cases m)
  case (MBegin lsn ts xid)
  then show ?thesis
    by (simp add: parse_def handle_begin_def read_u64_at_enc)
next
  case (MRelation rid sch tab ident ats)
  then show ?thesis
    using assms read_relation_columns_enc [of ats "[]"]
    by (simp add: parse_def handle_relation_def byte_simps unat_of_nat_small)
next
  case (MTruncate flags rids)
  then show ?thesis
    using assms truncate_events_enc [of st rids "[]"]
    by (simp add: parse_def handle_truncate_def byte_simps unat_of_nat_small)
next
  case (MInsert rid cs)
  then show ?thesis
    using assms by (simp add: parse_def parse_insert_def byte_simps split: option.splits)
next
  case (MUpdate rid old cs)
  then show ?thesis
    using assms by (cases old) (auto simp: parse_def parse_update_def old_tag_def byte_simps split: option.splits)
next
  case (MDelete rid key cs)
  then show ?thesis
    using assms by (simp add: parse_def parse_delete_def old_tag_def byte_simps split: option.splits)
qed (simp_all add: parse_def)

text \<open>
  C8. Every well-formed protocol message decodes to its meaning: the decoder recovers names,
  values, null and unchanged-TOAST flags from the bytes, uses the cached relation, skips
  unknown relations of a Truncate and throws for an Insert, Update or Delete on a relation it
  has not seen. In particular no read leaves the message.
\<close>

theorem parse_enc_msg:
  assumes "wf_msg m"
  shows "parse st (enc_msg m) = msg_meaning st m"
  using assms by (rule parse_meaning)

text \<open>A small table, shared by the concrete instances below.\<close>

definition items_relation :: RelationInfo where
  "items_relation = \<lparr>relation_id = 16384, rel_schema = ''public'', rel_table = ''items'',
     column_names = [''id'', ''body'']\<rparr>"

definition items_parser :: PgOutputParser where
  "items_parser = \<lparr>relations = [16384 \<mapsto> items_relation], pending_commit_timestamp = 5\<rparr>"

lemma items_parser_simps [simp]:
  "relations items_parser 16384 = Some items_relation"
  "pending_commit_timestamp items_parser = 5"
  by (simp_all add: items_parser_def)

theorem parse_enc_msg_witness:
  "wf_msg (MInsert 16384 [WText ''7'', WNull]) \<and>
   parse items_parser (enc_msg (MInsert 16384 [WText ''7'', WNull])) =
     Inr (items_parser, Some [(rel_event items_parser Insert items_relation)
       \<lparr>new_row := Some (row_of items_relation TupleInsert [WText ''7'', WNull])\<rparr>])"
  using parse_enc_msg [of "MInsert 16384 [WText ''7'', WNull]" items_parser]
  by (simp add: wf_tuple_def)

section \<open>Truncated messages\<close>

lemma read_short [byte_simps]:
  "length p < 4 \<Longrightarrow> read_u32 p = Inl OutOfBounds"
  "length p < 2 \<Longrightarrow> read_u16 p = Inl OutOfBounds"
  by (simp_all add: read_u32_value read_u16_value)

lemma take_enc_append: "take k (enc_u32 v @ r) = (if k < 4 then take k (enc_u32 v) else enc_u32 v @ take (k - 4) r)"
  by simp

lemma decode_columns_short:
  "list_all wf_col cs \<Longrightarrow> k < length (concat (map enc_col cs)) \<Longrightarrow>
     decode_columns rel i (length cs) (take k (concat (map enc_col cs))) = Inl OutOfBounds"
proof (induction cs arbitrary: i k)
  case Nil
  then show ?case by simp
next
  case (Cons c cs)
  show ?case
  proof (cases "k < length (enc_col c)")
    case True
    then show ?thesis
    proof (cases c)
      case (WText s)
      show ?thesis
      proof (cases k)
        case (Suc j)
        have wf: "length s < 2 ^ 32" using Cons.prems(1) WText by simp
        show ?thesis
        proof (cases "j < 4")
          case True
          then show ?thesis using WText Suc by (simp add: Let_def byte_simps)
        next
          case False
          then have "length (take (j - 4) (bytes_of_string s)) < length s"
            using True WText Suc by simp
          with False show ?thesis
            using WText Suc True wf
            by (simp add: Let_def byte_simps unat_of_nat_small read_bytes_def)
        qed
      qed (simp add: Let_def)
    qed (auto simp: Let_def)
  next
    case False
    then obtain m where k: "k = length (enc_col c) + m" by (metis le_add_diff_inverse not_less)
    then have "decode_columns rel (Suc i) (length cs) (take m (concat (map enc_col cs))) = Inl OutOfBounds"
      using Cons by simp
    then show ?thesis
      using k Cons.prems(1) by (simp add: decode_column_step del: decode_columns.simps)
  qed
qed

lemma decode_tuple_short:
  assumes "wf_tuple cs" and "k < length (enc_tuple cs)"
  shows "decode_tuple rel kind (take k (enc_tuple cs)) = Inl OutOfBounds"
proof (cases "k < 2")
  case True
  then show ?thesis by (simp add: decode_tuple_def byte_simps)
next
  case False
  then show ?thesis
    using assms decode_columns_short [of cs "k - 2" rel 0]
    by (simp add: decode_tuple_def enc_tuple_def wf_tuple_def byte_simps unat_of_nat_small)
qed

text \<open>
  The decoder has no bounds checks: an Insert for a cached relation that is cut off
  anywhere after its first byte makes it read beyond the buffer. It does not throw, so the
  \<^verbatim>\<open>catch\<close> of the caller does not see it.
\<close>

theorem parse_insert_truncated:
  assumes "wf_tuple cs" and "relations st rid = Some rel"
    and "0 < k" and "k < length (enc_msg (MInsert rid cs))"
  shows "parse st (take k (enc_msg (MInsert rid cs))) = Inl OutOfBounds"
proof -
  obtain j where j: "k = Suc j" using assms(3) by (cases k) auto
  show ?thesis
  proof (cases "j < 4")
    case True
    then show ?thesis
      using j by (simp add: parse_def parse_insert_def byte_simps)
  next
    case False
    then obtain m where m: "j = 4 + m" by (metis le_add_diff_inverse not_less)
    show ?thesis
    proof (cases m)
      case 0
      then have "take k (enc_msg (MInsert rid cs)) = chr CHR ''I'' # enc_u32 rid @ []"
        using j m by simp
      then show ?thesis
        using assms(2) by (simp only: parse_def parse_insert_def) (simp add: byte_simps del: append_Nil2)
    next
      case (Suc n)
      then have "take k (enc_msg (MInsert rid cs)) = chr CHR ''I'' # enc_u32 rid @ chr CHR ''N'' # take n (enc_tuple cs)"
        using j m by (simp only: enc_msg.simps take_Suc_Cons take_append length_enc) simp
      moreover have "decode_tuple rel TupleInsert (take n (enc_tuple cs)) = Inl OutOfBounds"
        using assms j m Suc by (intro decode_tuple_short) simp_all
      ultimately show ?thesis
        using assms(2) by (simp only: parse_def parse_insert_def) (simp add: byte_simps)
    qed
  qed
qed

theorem parse_insert_truncated_witness:
  "wf_tuple [WText ''7'', WNull] \<and>
   parse items_parser (take 12 (enc_msg (MInsert 16384 [WText ''7'', WNull]))) = Inl OutOfBounds"
  using parse_insert_truncated [of "[WText ''7'', WNull]" items_parser 16384 items_relation 12]
  by (simp add: wf_tuple_def enc_tuple_def)

section \<open>The shape of decoded events\<close>

definition column_typed :: "ColumnValue \<Rightarrow> bool" where
  "column_typed c \<longleftrightarrow> \<not> (is_null c \<and> is_unchanged_toast c) \<and> (is_null c \<or> is_unchanged_toast c \<longrightarrow> text_value c = [])"

definition row_typed :: "ChangeEvent \<Rightarrow> TupleKind \<Rightarrow> DecodedRow \<Rightarrow> bool" where
  "row_typed e k r \<longleftrightarrow> row_kind r = k \<and> row_schema r = schema_name e \<and> row_table r = table_name e \<and> list_all column_typed (columns r)"

definition event_typed :: "ChangeEvent \<Rightarrow> bool" where
  "event_typed e \<longleftrightarrow>
     (case op e of
        Insert \<Rightarrow> old_row e = None \<and> new_row e \<noteq> None \<and> pred_option (row_typed e TupleInsert) (new_row e)
      | Update \<Rightarrow> pred_option (row_typed e UpdateOld) (old_row e) \<and> pred_option (row_typed e UpdateNew) (new_row e)
      | Delete \<Rightarrow> new_row e = None \<and> old_row e \<noteq> None \<and> pred_option (row_typed e TupleDelete) (old_row e)
      | Truncate \<Rightarrow> old_row e = None \<and> new_row e = None
      | Commit \<Rightarrow> old_row e = None \<and> new_row e = None)"

lemma decode_columns_typed: "decode_columns rel i n p = Inr (cvs, q) \<Longrightarrow> list_all column_typed cvs"
  by (induction rel i n p arbitrary: cvs q rule: decode_columns.induct)
     (auto simp: bindE_Inr_iff column_typed_def Let_def split: if_splits)

lemma decode_tuple_typed:
  "decode_tuple rel k p = Inr (r, q) \<Longrightarrow>
     row_kind r = k \<and> row_schema r = rel_schema rel \<and> row_table r = rel_table rel \<and> list_all column_typed (columns r)"
  by (auto simp: decode_tuple_def bindE_Inr_iff dest: decode_columns_typed)

lemma truncate_events_typed: "truncate_events st n p = Inr es \<Longrightarrow> list_all event_typed es"
  by (induction st n p arbitrary: es rule: truncate_events.induct)
     (auto simp: bindE_Inr_iff event_typed_def new_event_def split: option.splits)

lemmas event_shape = event_typed_def row_typed_def rel_event_def new_event_def

lemma commit_typed: "event_typed ((new_event Commit)\<lparr>commit_timestamp := t\<rparr>)"
  by (simp add: event_shape)

lemma parse_insert_typed: "parse_insert st p = Inr e \<Longrightarrow> event_typed e"
  by (auto simp: parse_insert_def bindE_Inr_iff event_shape dest!: decode_tuple_typed split: option.splits)

lemma parse_update_typed: "parse_update st p = Inr e \<Longrightarrow> event_typed e"
  by (auto simp: parse_update_def bindE_Inr_iff event_shape dest!: decode_tuple_typed split: option.splits if_splits)

lemma parse_delete_typed: "parse_delete st p = Inr e \<Longrightarrow> event_typed e"
  by (auto simp: parse_delete_def bindE_Inr_iff event_shape dest!: decode_tuple_typed split: option.splits)



end
