(* ===== verification/Table_Mapping.thy ===== *)
theory Table_Mapping
  imports Events
begin

text \<open>
  Table mappings (\<^verbatim>\<open>ColumnMapping\<close>, \<^verbatim>\<open>TableMapping\<close>
  and \<^verbatim>\<open>resolve_columns\<close> of \<^verbatim>\<open>src/src/config.hpp\<close>)
  and the prepared actions of a batch (\<^verbatim>\<open>src/src/batch_event.hpp\<close>). The
  pointer \<^verbatim>\<open>BatchEvent::tm\<close> points into the sink's own mapping list, which does
  not change after start-up, so a batch event carries the mapping itself.
\<close>

record ColumnMapping =
  source_column :: string
  sink_column :: string
  role :: string

record TableMapping =
  source_table :: string
  tm_columns :: "ColumnMapping list"
  id_source :: string
  id_sink :: string
  embed_source :: string
  embed_sink :: string
  has_discriminator :: bool
  discriminator_sink :: string
  discriminator_label :: string

definition empty_mapping :: TableMapping where
  "empty_mapping = \<lparr>source_table = [], tm_columns = [], id_source = [], id_sink = [],
     embed_source = [], embed_sink = [], has_discriminator = False, discriminator_sink = [],
     discriminator_label = []\<rparr>"

fun resolve_step :: "ColumnMapping list \<Rightarrow> TableMapping \<Rightarrow> TableMapping" where
  "resolve_step [] tm = tm"
| "resolve_step (m # ms) tm =
     resolve_step ms
       (if role m = ''id'' then tm\<lparr>id_source := source_column m, id_sink := sink_column m\<rparr>
        else if role m = ''embed'' then tm\<lparr>embed_source := source_column m, embed_sink := sink_column m\<rparr>
        else tm)"

definition resolve_columns :: "TableMapping \<Rightarrow> TableMapping" where
  "resolve_columns tm = resolve_step (tm_columns tm) tm"

definition metadata_columns :: "TableMapping \<Rightarrow> ColumnMapping list" where
  "metadata_columns tm = filter (\<lambda>m. role m = ''metadata'') (tm_columns tm)"

datatype Kind = KindUpsert | KindDelete | KindTruncate

record BatchEvent =
  kind :: Kind
  be_tm :: TableMapping
  id_val :: string
  embed_val :: string
  meta_vals :: "string list"

type_synonym Batch = "BatchEvent list"

section \<open>Resolution picks the last column of each role\<close>

definition last_with_role :: "string \<Rightarrow> ColumnMapping list \<Rightarrow> ColumnMapping option" where
  "last_with_role r ms = find (\<lambda>m. role m = r) (rev ms)"

lemma last_with_role_Cons:
  "last_with_role r (m # ms) =
     (case last_with_role r ms of None \<Rightarrow> if role m = r then Some m else None | Some x \<Rightarrow> Some x)"
proof -
  have "find P (xs @ [m]) = (case find P xs of None \<Rightarrow> if P m then Some m else None | Some x \<Rightarrow> Some x)"
    for P and xs :: "ColumnMapping list"
    by (induction xs) auto
  then show ?thesis by (simp add: last_with_role_def)
qed

lemma resolve_step_fields:
  "source_table (resolve_step ms tm) = source_table tm"
  "tm_columns (resolve_step ms tm) = tm_columns tm"
  "has_discriminator (resolve_step ms tm) = has_discriminator tm"
  "discriminator_sink (resolve_step ms tm) = discriminator_sink tm"
  "discriminator_label (resolve_step ms tm) = discriminator_label tm"
  by (induction ms arbitrary: tm) auto

lemma resolve_step_id:
  "id_source (resolve_step ms tm) =
     (case last_with_role ''id'' ms of None \<Rightarrow> id_source tm | Some m \<Rightarrow> source_column m)"
  "id_sink (resolve_step ms tm) =
     (case last_with_role ''id'' ms of None \<Rightarrow> id_sink tm | Some m \<Rightarrow> sink_column m)"
  by (induction ms arbitrary: tm)
     (auto simp: last_with_role_Cons last_with_role_def [of _ "[]"] split: option.splits)

lemma resolve_step_embed:
  "embed_source (resolve_step ms tm) =
     (case last_with_role ''embed'' ms of None \<Rightarrow> embed_source tm | Some m \<Rightarrow> source_column m)"
  "embed_sink (resolve_step ms tm) =
     (case last_with_role ''embed'' ms of None \<Rightarrow> embed_sink tm | Some m \<Rightarrow> sink_column m)"
  by (induction ms arbitrary: tm)
     (auto simp: last_with_role_Cons last_with_role_def [of _ "[]"] split: option.splits)

end
