(* ===== verification/Batch_Sink.thy ===== *)
theory Batch_Sink
  imports Table_Mapping
begin

text \<open>
  What the three embedding sinks share. \<^verbatim>\<open>PgEmbeddingSink\<close>,
  \<^verbatim>\<open>QdrantSink\<close> and \<^verbatim>\<open>MilvusSink\<close> each repeat the
  same two-pass \<^verbatim>\<open>call_batch\<close>: collect the prepared actions of a batch of
  events, embed all texts in one call, then apply the actions in order. The locale
  \<open>batch_sink\<close> states what the passes promise one another; its main lemma says that a
  batch has the effect of its events one after the other, in their original order, up to the
  first exception. Each sink interprets it on its own definitions.
\<close>

type_synonym vec = "u32 list"

text \<open>A provider call: provider state and texts to new state and vectors, or a failure.\<close>

type_synonym 'p embedder = "'p \<Rightarrow> string list \<Rightarrow> 'p \<times> vec list result"

abbreviation upsert_count :: "Batch \<Rightarrow> nat" where
  "upsert_count b \<equiv> length (filter (\<lambda>be. kind be = KindUpsert) b)"

abbreviation batch_texts :: "Batch \<Rightarrow> string list" where
  "batch_texts b \<equiv> map embed_val (filter (\<lambda>be. kind be = KindUpsert) b)"

section \<open>Steps one after the other\<close>

text \<open>A loop that an exception ends.\<close>

fun run_all :: "('a \<Rightarrow> 'w \<Rightarrow> 'w \<times> failure option) \<Rightarrow> 'a list \<Rightarrow> 'w \<Rightarrow> 'w \<times> failure option" where
  "run_all f [] w = (w, None)"
| "run_all f (x # xs) w = (case f x w of (w', None) \<Rightarrow> run_all f xs w' | (w', Some e) \<Rightarrow> (w', Some e))"

lemma run_all_append:
  "run_all f (xs @ ys) w =
     (case run_all f xs w of (w', None) \<Rightarrow> run_all f ys w' | (w', Some e) \<Rightarrow> (w', Some e))"
  by (induction xs arbitrary: w) (auto split: prod.splits option.splits)

lemma run_all_concat: "run_all f (concat (map g xs)) w = run_all (\<lambda>x. run_all f (g x)) xs w"
  by (induction xs arbitrary: w) (auto simp: run_all_append split: prod.splits option.splits)

lemma run_all_cong [fundef_cong]:
  "xs = ys \<Longrightarrow> w = v \<Longrightarrow> (\<And>x w. x \<in> set ys \<Longrightarrow> f x w = g x w) \<Longrightarrow> run_all f xs w = run_all g ys v"
proof (induction xs arbitrary: ys w v)
  case Nil
  then show ?case by auto
next
  case (Cons x xs)
  have "run_all f xs u = run_all g xs u" for u
    using Cons.prems by (intro Cons.IH) auto
  with Cons.prems show ?case by (auto split: prod.splits option.splits)
qed

lemma run_all_pure: "run_all (\<lambda>x w. (g x w, None)) xs w = (fold g xs w, None)"
  by (induction xs arbitrary: w) simp_all

definition outcome :: "'w \<times> bool result \<Rightarrow> 'w \<times> failure option" where
  "outcome = (\<lambda>(w, r). (w, case r of Inl e \<Rightarrow> Some e | Inr _ \<Rightarrow> None))"

text \<open>The effect a single prepared action should have, given the vector of its text.\<close>

definition action_effect ::
  "(TableMapping \<Rightarrow> string \<Rightarrow> string \<Rightarrow> string list \<Rightarrow> vec \<Rightarrow> 'w \<Rightarrow> 'w \<times> bool result) \<Rightarrow>
   (TableMapping \<Rightarrow> string \<Rightarrow> 'w \<Rightarrow> 'w \<times> bool result) \<Rightarrow> (TableMapping \<Rightarrow> 'w \<Rightarrow> 'w \<times> bool result) \<Rightarrow>
   (string \<Rightarrow> vec) \<Rightarrow> BatchEvent \<Rightarrow> 'w \<Rightarrow> 'w \<times> failure option" where
  "action_effect ups rem trunc f be w =
     (case kind be of
        KindUpsert \<Rightarrow> if f (embed_val be) = [] then (w, None)
                      else outcome (ups (be_tm be) (id_val be) (embed_val be) (meta_vals be) (f (embed_val be)) w)
      | KindDelete \<Rightarrow> outcome (rem (be_tm be) (id_val be) w)
      | KindTruncate \<Rightarrow> outcome (trunc (be_tm be) w))"

text \<open>
  The reference: events one at a time, in order; \<open>coll [e]\<close> is what a sink makes of the
  single event \<open>e\<close>.
\<close>

definition events_effect ::
  "(ChangeEvent list \<Rightarrow> Batch) \<Rightarrow>
   (TableMapping \<Rightarrow> string \<Rightarrow> string \<Rightarrow> string list \<Rightarrow> vec \<Rightarrow> 'w \<Rightarrow> 'w \<times> bool result) \<Rightarrow>
   (TableMapping \<Rightarrow> string \<Rightarrow> 'w \<Rightarrow> 'w \<times> bool result) \<Rightarrow> (TableMapping \<Rightarrow> 'w \<Rightarrow> 'w \<times> bool result) \<Rightarrow>
   (string \<Rightarrow> vec) \<Rightarrow> ChangeEvent list \<Rightarrow> 'w \<Rightarrow> 'w \<times> failure option" where
  "events_effect coll ups rem trunc f evs =
     run_all (\<lambda>e. run_all (action_effect ups rem trunc f) (coll [e])) evs"

text \<open>No vector and no state make the action raise an exception.\<close>

definition never_throws ::
  "(TableMapping \<Rightarrow> string \<Rightarrow> string \<Rightarrow> string list \<Rightarrow> vec \<Rightarrow> 'w \<Rightarrow> 'w \<times> bool result) \<Rightarrow>
   (TableMapping \<Rightarrow> string \<Rightarrow> 'w \<Rightarrow> 'w \<times> bool result) \<Rightarrow> (TableMapping \<Rightarrow> 'w \<Rightarrow> 'w \<times> bool result) \<Rightarrow>
   BatchEvent \<Rightarrow> bool" where
  "never_throws ups rem trunc be \<longleftrightarrow>
     (\<forall>v w. snd (outcome (ups (be_tm be) (id_val be) (embed_val be) (meta_vals be) v w)) = None)
   \<and> (\<forall>w. snd (outcome (rem (be_tm be) (id_val be) w)) = None)
   \<and> (\<forall>w. snd (outcome (trunc (be_tm be) w)) = None)"

section \<open>The contract\<close>

locale batch_sink =
  fixes collect :: "ChangeEvent list \<Rightarrow> Batch"
    and apply_batch :: "Batch \<Rightarrow> vec list \<Rightarrow> 'w \<Rightarrow> 'w \<times> failure option"
    and call_batch :: "'p embedder \<Rightarrow> ChangeEvent list \<Rightarrow> 'p \<times> 'w \<Rightarrow> ('p \<times> 'w) \<times> failure option"
    and upsert :: "TableMapping \<Rightarrow> string \<Rightarrow> string \<Rightarrow> string list \<Rightarrow> vec \<Rightarrow> 'w \<Rightarrow> 'w \<times> bool result"
    and remove :: "TableMapping \<Rightarrow> string \<Rightarrow> 'w \<Rightarrow> 'w \<times> bool result"
    and truncate :: "TableMapping \<Rightarrow> 'w \<Rightarrow> 'w \<times> bool result"
  assumes collect_append: "collect (xs @ ys) = collect xs @ collect ys"
    and collect_Nil: "collect [] = []"
    and apply_Nil: "apply_batch [] vs w = (w, None)"
    and apply_upsert: "kind be = KindUpsert \<Longrightarrow> apply_batch (be # b) (v # vs) w =
          (case (if v = [] then (w, None)
                 else outcome (upsert (be_tm be) (id_val be) (embed_val be) (meta_vals be) v w)) of
             (w', None) \<Rightarrow> apply_batch b vs w' | (w', Some e) \<Rightarrow> (w', Some e))"
    and apply_delete: "kind be = KindDelete \<Longrightarrow> apply_batch (be # b) vs w =
          (case outcome (remove (be_tm be) (id_val be) w) of
             (w', None) \<Rightarrow> apply_batch b vs w' | (w', Some e) \<Rightarrow> (w', Some e))"
    and apply_truncate: "kind be = KindTruncate \<Longrightarrow> apply_batch (be # b) vs w =
          (case outcome (truncate (be_tm be) w) of
             (w', None) \<Rightarrow> apply_batch b vs w' | (w', Some e) \<Rightarrow> (w', Some e))"
    and call_empty: "collect evs = [] \<Longrightarrow> call_batch emb evs (p, w) = ((p, w), None)"
    and call_no_text: "collect evs \<noteq> [] \<Longrightarrow> batch_texts (collect evs) = [] \<Longrightarrow>
          call_batch emb evs (p, w) =
            (case apply_batch (collect evs) [] w of (w', r) \<Rightarrow> ((p, w'), r))"
    and call_texts: "collect evs \<noteq> [] \<Longrightarrow> batch_texts (collect evs) \<noteq> [] \<Longrightarrow>
          call_batch emb evs (p, w) =
            (case emb p (batch_texts (collect evs)) of
               (p', Inl e) \<Rightarrow> ((p', w), Some e)
             | (p', Inr vs) \<Rightarrow>
                 if length vs \<noteq> length (batch_texts (collect evs)) then ((p', w), None)
                 else (case apply_batch (collect evs) vs w of (w', r) \<Rightarrow> ((p', w'), r)))"
begin

lemma apply_batch_map:
  "apply_batch b (map f (batch_texts b)) w = run_all (action_effect upsert remove truncate f) b w"
proof (induction b arbitrary: w)
  case Nil
  then show ?case by (simp add: apply_Nil)
next
  case (Cons be b)
  then show ?case
    by (cases "kind be")
       (auto simp: apply_upsert apply_delete apply_truncate action_effect_def split: prod.splits option.splits)
qed

lemma apply_batch_total:
  "\<forall>be \<in> set b. never_throws upsert remove truncate be \<Longrightarrow> length vs = upsert_count b \<Longrightarrow>
     snd (apply_batch b vs w) = None"
proof (induction b arbitrary: vs w)
  case Nil
  then show ?case by (simp add: apply_Nil)
next
  case (Cons be b)
  from Cons.prems(1) have nt: "never_throws upsert remove truncate be" by simp
  show ?case
  proof (cases "kind be")
    case KindUpsert
    with Cons.prems obtain v vs' where "vs = v # vs'" by (cases vs) auto
    with KindUpsert Cons nt show ?thesis
      by (auto simp: apply_upsert never_throws_def split: prod.splits option.splits)
         (metis option.distinct(1) snd_conv)+
  next
    case KindDelete
    with Cons nt show ?thesis
      by (subst apply_delete) (auto simp: never_throws_def split: prod.splits option.splits,
          metis option.distinct(1) snd_conv)
  next
    case KindTruncate
    with Cons nt show ?thesis
      by (subst apply_truncate) (auto simp: never_throws_def split: prod.splits option.splits,
          metis option.distinct(1) snd_conv)
  qed
qed

abbreviation effect :: "(string \<Rightarrow> vec) \<Rightarrow> ChangeEvent list \<Rightarrow> 'w \<Rightarrow> 'w \<times> failure option" where
  "effect \<equiv> events_effect collect upsert remove truncate"

lemma collect_concat: "collect evs = concat (map (\<lambda>e. collect [e]) evs)"
proof (induction evs)
  case Nil
  then show ?case by (simp add: collect_Nil)
next
  case (Cons e evs)
  then show ?case using collect_append [of "[e]" evs] by simp
qed

lemma effect_collect: "effect f evs w = run_all (action_effect upsert remove truncate f) (collect evs) w"
  unfolding events_effect_def by (subst collect_concat) (simp add: run_all_concat)

text \<open>A batch acts as its events in order, for a provider that embeds each text by itself.\<close>

lemma call_batch_eventwise:
  assumes "okp p" and emb: "\<And>p ts. okp p \<Longrightarrow> \<exists>p'. okp p' \<and> emb p ts = (p', Inr (map f ts))"
  shows "\<exists>p'. okp p' \<and> call_batch emb evs (p, w) = ((p', fst (effect f evs w)), snd (effect f evs w))"
proof -
  let ?b = "collect evs"
  have eff: "effect f evs w = apply_batch ?b (map f (batch_texts ?b)) w"
    by (simp only: effect_collect apply_batch_map)
  consider "?b = []" | "?b \<noteq> []" "batch_texts ?b = []" | "?b \<noteq> []" "batch_texts ?b \<noteq> []" by blast
  then show ?thesis
  proof cases
    case 1
    then show ?thesis using assms(1) eff by (auto simp: call_empty apply_Nil)
  next
    case 2
    then show ?thesis
      using assms(1) eff by (auto simp: call_no_text split: prod.splits)
  next
    case 3
    obtain p' where "okp p'" "emb p (batch_texts ?b) = (p', Inr (map f (batch_texts ?b)))"
      using emb [OF assms(1)] by blast
    with 3 show ?thesis
      using eff by (auto simp: call_texts split: prod.splits)
  qed
qed

text \<open>Cutting a batch in two does not change its effect.\<close>

lemma call_batch_split:
  assumes "okp p" and emb: "\<And>p ts. okp p \<Longrightarrow> \<exists>p'. okp p' \<and> emb p ts = (p', Inr (map f ts))"
    and x: "call_batch emb xs (p, w) = ((p1, w1), r1)"
  shows "\<exists>p2 q w2 r2. call_batch emb ys (p1, w1) = ((p2, w2), r2)
      \<and> call_batch emb (xs @ ys) (p, w) = (if r1 = None then ((q, w2), r2) else ((q, w1), r1))"
proof -
  from x have 1: "okp p1" "effect f xs w = (w1, r1)"
    using call_batch_eventwise [of okp p emb f xs w] assms by auto
  obtain p2 where 2: "call_batch emb ys (p1, w1) = ((p2, fst (effect f ys w1)), snd (effect f ys w1))"
    using call_batch_eventwise [of okp p1 emb f ys w1] 1(1) emb by blast
  obtain q where 3: "call_batch emb (xs @ ys) (p, w) =
      ((q, fst (effect f (xs @ ys) w)), snd (effect f (xs @ ys) w))"
    using call_batch_eventwise [of okp p emb f "xs @ ys" w] assms by blast
  have "effect f (xs @ ys) w = (if r1 = None then effect f ys w1 else (w1, r1))"
    using 1(2) by (auto simp: events_effect_def run_all_append)
  with 2 3 show ?thesis by auto
qed

text \<open>Unless an action can throw, the only failure a batch reports is one the provider raised.\<close>

lemma call_batch_failure_from_provider:
  assumes "snd (call_batch emb evs (p, w)) = Some e"
    and nt: "\<forall>be \<in> set (collect evs). never_throws upsert remove truncate be"
  shows "snd (emb p (batch_texts (collect evs))) = Inl e"
proof -
  let ?b = "collect evs"
  consider "?b = []" | "?b \<noteq> []" "batch_texts ?b = []" | "?b \<noteq> []" "batch_texts ?b \<noteq> []" by blast
  then show ?thesis
  proof cases
    case 1
    then show ?thesis using assms by (simp add: call_empty)
  next
    case 2
    then show ?thesis
      using assms(1) apply_batch_total [OF nt, of "[]" w] by (simp add: call_no_text split: prod.splits)
  next
    case 3
    show ?thesis
    proof (cases "emb p (batch_texts ?b)")
      case (Pair p' r)
      then show ?thesis
      proof (cases r)
        case (Inr vs)
        have "length vs = upsert_count ?b \<Longrightarrow> snd (apply_batch ?b vs w) = None"
          by (rule apply_batch_total [OF nt])
        with 3 Pair Inr show ?thesis
          using assms(1) by (auto simp: call_texts split: prod.splits if_splits)
      qed (use 3 Pair assms in \<open>simp add: call_texts\<close>)
    qed
  qed
qed

end

end
