(* ===== verification/Sql_Builder.thy ===== *)
theory Sql_Builder
  imports Table_Mapping
begin

text \<open>
  The parameterised statements of \<^verbatim>\<open>src/src/pg_sql_builder.cpp\<close> behind the
  interface of \<^verbatim>\<open>src/src/sql_builder.hpp\<close>. Column names are concatenated
  into the text as they are; values travel as parameters.
\<close>

record PgSqlBuilder =
  sb_table :: string
  sb_column :: string

definition upsert_sink_cols :: "PgSqlBuilder \<Rightarrow> TableMapping \<Rightarrow> string list" where
  "upsert_sink_cols b tm =
     [id_sink tm] @ (if has_discriminator tm then [discriminator_sink tm] else []) @
     [embed_sink tm] @ map sink_column (metadata_columns tm) @ [sb_column b]"

definition upsert_update_cols :: "PgSqlBuilder \<Rightarrow> TableMapping \<Rightarrow> string list" where
  "upsert_update_cols b tm = [embed_sink tm] @ map sink_column (metadata_columns tm) @ [sb_column b]"

definition placeholder :: "PgSqlBuilder \<Rightarrow> nat \<times> string \<Rightarrow> string" where
  "placeholder b = (\<lambda>(i, c). ''$'' @ show_nat (i + 1) @ (if c = sb_column b then ''::vector'' else []))"

definition build_upsert_sql :: "PgSqlBuilder \<Rightarrow> TableMapping \<Rightarrow> string" where
  "build_upsert_sql b tm =
     (let sink_cols = upsert_sink_cols b tm;
          col_list = join '', '' sink_cols;
          val_list = join '', '' (map (placeholder b) (enumerate 0 sink_cols));
          update_list = join '', '' (map (\<lambda>c. c @ '' = EXCLUDED.'' @ c) (upsert_update_cols b tm))
      in ''INSERT INTO '' @ sb_table b @ '' ('' @ col_list @ '')'' @ '' VALUES ('' @ val_list @ '')'' @
         '' ON CONFLICT ('' @ id_sink tm @
         (if has_discriminator tm then '', '' @ discriminator_sink tm else []) @
         '') DO UPDATE SET '' @ update_list)"

definition build_delete_sql :: "PgSqlBuilder \<Rightarrow> TableMapping \<Rightarrow> string" where
  "build_delete_sql b tm =
     ''DELETE FROM '' @ sb_table b @ '' WHERE '' @ id_sink tm @ '' = $1'' @
     (if has_discriminator tm then '' AND '' @ discriminator_sink tm @ '' = $2'' else [])"

definition build_truncate_sql :: "PgSqlBuilder \<Rightarrow> TableMapping \<Rightarrow> string" where
  "build_truncate_sql b tm =
     ''DELETE FROM '' @ sb_table b @
     (if has_discriminator tm then '' WHERE '' @ discriminator_sink tm @ '' = $1'' else [])"

section \<open>The statements, structured\<close>

text \<open>The key a mapping's rows are identified by in the sink table.\<close>

definition conflict_cols :: "TableMapping \<Rightarrow> string list" where
  "conflict_cols tm = id_sink tm # (if has_discriminator tm then [discriminator_sink tm] else [])"

definition where_eq :: "nat \<times> string \<Rightarrow> string" where
  "where_eq = (\<lambda>(i, c). c @ '' = $'' @ show_nat (i + 1))"

lemma show_nat_1_2: "show_nat (Suc 0) = ''1''" "show_nat (Suc (Suc 0)) = ''2''"
  by code_simp+

text \<open>
  The upsert names every column once as key or as refreshed column: the inserted columns
  are the conflict key followed by exactly the columns of the update list; its conflict target
  and the delete statement's condition list the same key columns, and the truncate statement's
  condition is the key without the id.
\<close>

theorem upsert_delete_agree_on_key:
  "upsert_sink_cols b tm = conflict_cols tm @ upsert_update_cols b tm
   \<and> build_upsert_sql b tm =
       ''INSERT INTO '' @ sb_table b @ '' ('' @ join '', '' (conflict_cols tm @ upsert_update_cols b tm) @
       '') VALUES ('' @ join '', '' (map (placeholder b) (enumerate 0 (upsert_sink_cols b tm))) @
       '') ON CONFLICT ('' @ join '', '' (conflict_cols tm) @ '') DO UPDATE SET '' @
       join '', '' (map (\<lambda>c. c @ '' = EXCLUDED.'' @ c) (upsert_update_cols b tm))
   \<and> build_delete_sql b tm =
       ''DELETE FROM '' @ sb_table b @ '' WHERE '' @ join '' AND '' (map where_eq (enumerate 0 (conflict_cols tm)))
   \<and> build_truncate_sql b tm =
       ''DELETE FROM '' @ sb_table b @
       (if tl (conflict_cols tm) = [] then []
        else '' WHERE '' @ join '' AND '' (map where_eq (enumerate 0 (tl (conflict_cols tm)))))"
  by (simp add: upsert_sink_cols_def upsert_update_cols_def conflict_cols_def build_upsert_sql_def
      build_delete_sql_def build_truncate_sql_def where_eq_def show_nat_1_2 Let_def)

end
