(* ===== verification/C_Library.thy ===== *)
theory C_Library
  imports Walkrie_Prelude
begin

text \<open>
  What the sources use of the C and C++ standard library: C strings, number parsing
  (\<^verbatim>\<open>atoi\<close>, \<^verbatim>\<open>strtol\<close>, \<^verbatim>\<open>std::stoi\<close>, \<^verbatim>\<open>std::stoul\<close>),
  hexadecimal conversions of \<^verbatim>\<open>printf\<close> and \<^verbatim>\<open>scanf\<close>, and the
  default output format of a \<^verbatim>\<open>float\<close>.
\<close>

section \<open>C strings\<close>

definition c_str :: "string \<Rightarrow> string" where
  "c_str s = takeWhile (\<lambda>c. c \<noteq> CHR 0x00) s"

lemma c_str_idem [simp]: "c_str (c_str s) = c_str s"
  by (simp add: c_str_def takeWhile_eq_all_conv)

lemma c_str_id: "CHR 0x00 \<notin> set s \<Longrightarrow> c_str s = s"
  by (auto simp: c_str_def takeWhile_eq_all_conv)

section \<open>Decimal numbers\<close>

definition is_space :: "char \<Rightarrow> bool" where
  "is_space c \<longleftrightarrow> c = CHR '' '' \<or> of_char c \<in> {9 ..< 14 :: nat}"

definition is_digit :: "char \<Rightarrow> bool" where
  "is_digit c \<longleftrightarrow> of_char c \<in> {48 ..< 58 :: nat}"

definition digits_value :: "string \<Rightarrow> nat" where
  "digits_value s = foldl (\<lambda>v c. v * 10 + (of_char c - 48)) 0 s"

text \<open>
  \<^verbatim>\<open>strtol (s, &end, 10)\<close>: the value, clamped to 64 bits, with the rest of the
  text; \<open>None\<close> when there is no digit.
\<close>

definition strtol :: "string \<Rightarrow> (int \<times> string) option" where
  "strtol s =
     (let t = dropWhile is_space s;
          (neg, u) = (case t of c # u \<Rightarrow> if c = CHR ''-'' then (True, u)
                                        else if c = CHR ''+'' then (False, u) else (False, t)
                      | [] \<Rightarrow> (False, t));
          ds = takeWhile is_digit u
      in if ds = [] then None
         else Some (let v = (if neg then - int (digits_value ds) else int (digits_value ds))
                    in max (- (2 ^ 63)) (min (2 ^ 63 - 1) v), dropWhile is_digit u))"

text \<open>Conversions of 64-bit values to \<^verbatim>\<open>int\<close> keep the low 32 bits.\<close>

definition to_i32 :: "int \<Rightarrow> int" where
  "to_i32 i = (i + 2 ^ 31) mod 2 ^ 32 - 2 ^ 31"

definition to_u64 :: "int \<Rightarrow> nat" where
  "to_u64 i = nat (i mod 2 ^ 64)"

definition atoi :: "string \<Rightarrow> int" where
  "atoi s = (case strtol (c_str s) of None \<Rightarrow> 0 | Some (v, _) \<Rightarrow> to_i32 v)"

text \<open>\<^verbatim>\<open>std::stoi\<close> throws when there is no number or it does not fit.\<close>

definition stoi :: "string \<Rightarrow> int result" where
  "stoi s = (case strtol (c_str s) of
       None \<Rightarrow> Inl (Throw ''stoi'')
     | Some (v, _) \<Rightarrow> if - (2 ^ 31) \<le> v \<and> v < 2 ^ 31 then Inr v else Inl (Throw ''stoi''))"

text \<open>
  \<^verbatim>\<open>std::stoul\<close>: a minus sign negates modulo \<open>2 ^ 64\<close>; it throws when there is no
  number or its magnitude does not fit.
\<close>

definition stoul :: "string \<Rightarrow> u64 result" where
  "stoul s =
     (let t = dropWhile is_space (c_str s);
          (neg, u) = (case t of c # u \<Rightarrow> if c = CHR ''-'' then (True, u)
                                        else if c = CHR ''+'' then (False, u) else (False, t)
                      | [] \<Rightarrow> (False, t));
          ds = takeWhile is_digit u; n = digits_value ds
      in if ds = [] \<or> 2 ^ 64 \<le> n then Inl (Throw ''stoul'') else Inr (if neg then - word_of_nat n else word_of_nat n))"

lemma to_i32_id: "- (2 ^ 31) \<le> i \<Longrightarrow> i < 2 ^ 31 \<Longrightarrow> to_i32 i = i"
  by (simp add: to_i32_def)

lemma to_i32_bounds: "- (2 ^ 31) \<le> to_i32 i" "to_i32 i < 2 ^ 31"
proof -
  have "0 \<le> (i + 2 ^ 31) mod 2 ^ 32"
    by simp
  then show "- (2 ^ 31) \<le> to_i32 i"
    unfolding to_i32_def by linarith
  have "(i + 2 ^ 31) mod 2 ^ 32 < (2 ^ 32 :: int)"
    by simp
  then show "to_i32 i < 2 ^ 31"
    unfolding to_i32_def by simp
qed

lemma to_u64_id: "n < 2 ^ 64 \<Longrightarrow> to_u64 (int n) = n"
  by (simp add: to_u64_def)

lemma is_digit_digit [simp]: "d < 10 \<Longrightarrow> is_digit (digit d)"
  by (simp add: is_digit_def digit_def)

lemma digit_code: "d < 10 \<Longrightarrow> of_char (digit d) = 48 + d"
  by (simp add: digit_def)

lemma digits_value_show_nat [simp]: "digits_value (show_nat n) = n"
proof (induction n rule: show_nat.induct)
  case (1 n)
  show ?case
  proof (cases "n < 10")
    case True
    then have "show_nat n = [digit n]" by (simp add: show_nat.simps [of n])
    with True show ?thesis by (simp add: digits_value_def digit_code)
  next
    case False
    with 1 have "digits_value (show_nat (n div 10)) = n div 10" by simp
    moreover have "show_nat n = show_nat (n div 10) @ [digit (n mod 10)]"
      using False by (simp add: show_nat.simps [of n])
    ultimately show ?thesis by (simp add: digits_value_def digit_code)
  qed
qed

lemma show_nat_digits: "c \<in> set (show_nat n) \<Longrightarrow> is_digit c"
proof (induction n rule: show_nat.induct)
  case (1 n)
  show ?case
  proof (cases "n < 10")
    case True
    then show ?thesis using 1(2) show_nat.simps [of n] by simp
  next
    case False
    then have "c \<in> set (show_nat (n div 10)) \<or> c = digit (n mod 10)"
      using 1(2) show_nat.simps [of n] by auto
    then show ?thesis using 1(1) False by auto
  qed
qed

section \<open>Hexadecimal numbers\<close>

definition hex_digit :: "nat \<Rightarrow> char" where
  "hex_digit d = (if d < 10 then digit d else char_of (55 + d))"

text \<open>\<^verbatim>\<open>printf ("%X", n)\<close>.\<close>

fun show_hex :: "nat \<Rightarrow> string" where
  "show_hex n = (if n < 16 then [hex_digit n] else show_hex (n div 16) @ [hex_digit (n mod 16)])"

declare show_hex.simps [simp del]

definition is_xdigit :: "char \<Rightarrow> bool" where
  "is_xdigit c \<longleftrightarrow> is_digit c \<or> of_char c \<in> {65 ..< 71 :: nat} \<or> of_char c \<in> {97 ..< 103 :: nat}"

definition xdigit_value :: "char \<Rightarrow> nat" where
  "xdigit_value c = (if is_digit c then of_char c - 48 else if of_char c < (97 :: nat) then of_char c - 55 else of_char c - 87)"

definition hex_value :: "string \<Rightarrow> nat" where
  "hex_value s = foldl (\<lambda>v c. v * 16 + xdigit_value c) 0 s"

text \<open>
  The conversion \<^verbatim>\<open>%X\<close> of \<^verbatim>\<open>sscanf\<close>: white space, a sign, a prefix
  \<^verbatim>\<open>0x\<close>, then digits. The number is clamped to 64 bits and its low 32 bits are stored.
  \<open>None\<close> when there is no digit.
\<close>

definition scan_hex :: "string \<Rightarrow> (u32 \<times> string) option" where
  "scan_hex s =
     (let t = dropWhile is_space s;
          (neg, u) = (case t of c # u \<Rightarrow> if c = CHR ''-'' then (True, u)
                                        else if c = CHR ''+'' then (False, u) else (False, t)
                      | [] \<Rightarrow> (False, t));
          v = (case u of z # x # r \<Rightarrow> if z = CHR ''0'' \<and> (x = CHR ''x'' \<or> x = CHR ''X'') then z # r else u | _ \<Rightarrow> u);
          ds = takeWhile is_xdigit v
      in if ds = [] then None
         else Some (let n = min (2 ^ 64 - 1) (hex_value ds) in if neg then - word_of_nat n else word_of_nat n, dropWhile is_xdigit v))"

lemma hex_digit_code: "d < 16 \<Longrightarrow> of_char (hex_digit d) = (if d < 10 then 48 + d else 55 + d)"
  by (simp add: hex_digit_def digit_def)

lemma hex_digit_props: "d < 16 \<Longrightarrow> is_xdigit (hex_digit d)" "d < 16 \<Longrightarrow> xdigit_value (hex_digit d) = d"
  by (simp_all add: is_xdigit_def xdigit_value_def is_digit_def hex_digit_code)

lemma show_hex_digits: "c \<in> set (show_hex n) \<Longrightarrow> is_xdigit c"
proof (induction n rule: show_hex.induct)
  case (1 n)
  then show ?case using show_hex.simps [of n] hex_digit_props(1) by (cases "n < 16") auto
qed

lemma hex_value_show_hex [simp]: "hex_value (show_hex n) = n"
proof (induction n rule: show_hex.induct)
  case (1 n)
  show ?case
  proof (cases "n < 16")
    case True
    then show ?thesis by (simp add: show_hex.simps [of n] hex_value_def hex_digit_props)
  next
    case False
    then have "hex_value (show_hex (n div 16)) = n div 16" using 1 by simp
    then show ?thesis using False by (simp add: show_hex.simps [of n] hex_value_def hex_digit_props)
  qed
qed

lemma show_hex_not_Nil [simp]: "show_hex n \<noteq> []"
  by (subst show_hex.simps) simp

text \<open>Scanning a printed number reads it back and stops at the first other character.\<close>

lemma scan_show_hex:
  assumes "n < 2 ^ 32" "r = [] \<or> \<not> is_xdigit (hd r)" "r = [] \<or> hd r \<noteq> CHR ''x'' \<and> hd r \<noteq> CHR ''X''"
  shows "scan_hex (show_hex n @ r) = Some (word_of_nat n, r)"
proof -
  obtain c cs where h: "show_hex n = c # cs" by (cases "show_hex n") auto
  have x: "\<forall>d \<in> set (c # cs). is_xdigit d" using show_hex_digits [of _ n] h by auto
  have d: "\<not> is_xdigit (CHR '' '')" "\<not> is_xdigit (CHR ''-'')" "\<not> is_xdigit (CHR ''+'')" "\<not> is_xdigit (CHR ''x'')" "\<not> is_xdigit (CHR ''X'')"
    by (simp_all add: is_xdigit_def is_digit_def)
  have "\<not> is_space c" using x d by (auto simp: is_space_def is_xdigit_def is_digit_def)
  then have sp: "dropWhile is_space (c # cs @ r) = c # cs @ r" by simp
  have sg: "c \<noteq> CHR ''-''" "c \<noteq> CHR ''+''" using x d by auto
  have pre: "(case c # cs @ r of z # x # t \<Rightarrow> if z = CHR ''0'' \<and> (x = CHR ''x'' \<or> x = CHR ''X'') then z # t else c # cs @ r | _ \<Rightarrow> c # cs @ r) = c # cs @ r"
  proof (cases cs)
    case Nil
    then show ?thesis using assms(3) by (cases r) auto
  next
    case (Cons y ys)
    then have "y \<noteq> CHR ''x''" "y \<noteq> CHR ''X''" using x d by auto
    then show ?thesis using Cons by simp
  qed
  have tw: "takeWhile is_xdigit (c # cs @ r) = c # cs" "dropWhile is_xdigit (c # cs @ r) = r"
    using x assms(2) takeWhile_append2 [of "c # cs" is_xdigit r] dropWhile_append2 [of "c # cs" is_xdigit r]
    by (cases r; simp)+
  have v: "hex_value (c # cs) = n" using hex_value_show_hex [of n] h by simp
  have "min (2 ^ 64 - 1) n = n" using assms(1) by simp
  then show ?thesis using sp sg pre tw v by (simp add: scan_hex_def h Let_def)
qed

section \<open>Printing a float\<close>

text \<open>
  \<^verbatim>\<open>os << f\<close> with the default format of a stream: \<^verbatim>\<open>%g\<close> with
  six significant digits, rounded half to even, trailing zeros removed. A float is its 32-bit
  pattern; a finite one has the exact value \<open>n / d\<close>.
\<close>

definition float_ratio :: "u32 \<Rightarrow> nat \<times> nat" where
  "float_ratio b =
     (let ex = unat b div 2 ^ 23 mod 256; man = unat b mod 2 ^ 23;
          m = (if ex = 0 then man else man + 2 ^ 23); e = max ex 1
      in if 150 \<le> e then (m * 2 ^ (e - 150), 1) else (m, 2 ^ (150 - e)))"

definition round_half_even :: "nat \<Rightarrow> nat \<Rightarrow> nat" where
  "round_half_even n d =
     (let q = n div d; r = n mod d in if d < 2 * r \<or> (2 * r = d \<and> odd q) then q + 1 else q)"

function tens_below_one :: "nat \<Rightarrow> nat \<Rightarrow> nat" where
  "tens_below_one n d = (if n = 0 \<or> d \<le> n then 0 else Suc (tens_below_one (10 * n) d))"
  by auto
termination by (relation "measure (\<lambda>(n, d). d - n)") auto

definition decimal_exponent :: "nat \<Rightarrow> nat \<Rightarrow> int" where
  "decimal_exponent n d =
     (if d \<le> n then int (length (show_nat (n div d))) - 1 else - int (tens_below_one n d))"

definition strip_zeros :: "string \<Rightarrow> string" where
  "strip_zeros s = rev (dropWhile (\<lambda>c. c = CHR ''0'') (rev s))"

definition with_fraction :: "string \<Rightarrow> string \<Rightarrow> string" where
  "with_fraction i f = (if strip_zeros f = [] then i else i @ ''.'' @ strip_zeros f)"

definition show_ratio :: "nat \<Rightarrow> nat \<Rightarrow> string" where
  "show_ratio n d =
     (let x0 = decimal_exponent n d;
          q0 = (if x0 \<le> 5 then round_half_even (n * 10 ^ nat (5 - x0)) d
                else round_half_even n (d * 10 ^ nat (x0 - 5)));
          (q, x) = (if q0 = 10 ^ 6 then (10 ^ 5, x0 + 1) else (q0, x0));
          ds = show_nat q
      in if x < -4 \<or> 6 \<le> x then
           with_fraction (take 1 ds) (drop 1 ds) @ ''e'' @ (if x < 0 then ''-'' else ''+'') @
             (if \<bar>x\<bar> < 10 then ''0'' else []) @ show_nat (nat \<bar>x\<bar>)
         else if 0 \<le> x then with_fraction (take (nat x + 1) ds) (drop (nat x + 1) ds)
         else with_fraction ''0'' (replicate (nat (- x) - 1) (CHR ''0'') @ ds))"

definition show_float :: "u32 \<Rightarrow> string" where
  "show_float b =
     (let sgn = (if 2 ^ 31 \<le> unat b then ''-'' else []); ex = unat b div 2 ^ 23 mod 256
      in if ex = 255 then sgn @ (if unat b mod 2 ^ 23 = 0 then ''inf'' else ''nan'')
         else case float_ratio b of (n, d) \<Rightarrow> sgn @ (if n = 0 then ''0'' else show_ratio n d))"

lemmas show_float_eval =
  show_float_def float_ratio_def show_ratio_def decimal_exponent_def round_half_even_def
  with_fraction_def strip_zeros_def show_nat.simps tens_below_one.simps digit_def char_of_def bit_Suc_0_iff Let_def

lemma show_float_samples:
  "show_float 0x3F800000 = ''1''" "show_float 0xBF000000 = ''-0.5''"
  "show_float 0x3DCCCCCD = ''0.1''" "show_float 0x3DCCCCCE = ''0.1''"
  "show_float 0x42F6E979 = ''123.456''" "show_float 0x497423FF = ''1e+06''"
  "show_float 0x3727C5AC = ''1e-05''"
  by (simp_all add: show_float_eval)

end
