(* ===== verification/Pg_Embedding_Sink.thy ===== *)
theory Pg_Embedding_Sink
  imports Batch_Sink Sql_Builder C_Library
begin

text \<open>
  The pgvector sink of \<^verbatim>\<open>src/src/pgembedding_sink.cpp\<close>. libpq is a
  parameter: \<open>pq_connect\<close> opens the connection (a message when it fails),
  \<open>pq_exec\<close> and \<open>pq_exec_params\<close> send a statement; the state of the outside
  world, connection and database included, is threaded through them as \<open>'w\<close>. Log lines
  are not modelled. The maps of prepared statements are \<^verbatim>\<open>std::unordered_map\<close>s
  keyed by source table; \<^verbatim>\<open>at\<close> on a missing key throws.
\<close>

datatype pg_result = TuplesOk "string list list" | CommandOk | PgFailed string

record 'w libpq =
  pq_connect :: "'w \<Rightarrow> string \<Rightarrow> 'w \<times> string option"
  pq_exec :: "'w \<Rightarrow> string \<Rightarrow> 'w \<times> pg_result"
  pq_exec_params :: "'w \<Rightarrow> string \<Rightarrow> string list \<Rightarrow> 'w \<times> pg_result"

record PgEmbeddingSinkConfig =
  pg_conninfo :: string
  pg_sink_table :: string
  pg_sink_column :: string
  pg_mappings :: "TableMapping list"

record PgEmbeddingSink =
  pg_config :: PgEmbeddingSinkConfig
  upsert_sql_list :: "string \<rightharpoonup> string"
  delete_sql_list :: "string \<rightharpoonup> string"
  truncate_sql_list :: "string \<rightharpoonup> string"

section \<open>Reading rows and preparing actions\<close>

fun pg_column_text :: "ColumnValue list \<Rightarrow> string \<Rightarrow> string" where
  "pg_column_text [] n = []"
| "pg_column_text (col # cols) n =
     (if cv_name col = n then (if is_null col \<or> is_unchanged_toast col then [] else text_value col)
      else pg_column_text cols n)"

definition pg_get_column :: "DecodedRow \<Rightarrow> string \<Rightarrow> string" where
  "pg_get_column row n = pg_column_text (columns row) n"

definition pg_is_toast :: "DecodedRow \<Rightarrow> string \<Rightarrow> bool" where
  "pg_is_toast row n =
     (case find (\<lambda>col. cv_name col = n) (columns row) of None \<Rightarrow> False | Some col \<Rightarrow> is_unchanged_toast col)"

definition pg_prepare_upsert :: "TableMapping \<Rightarrow> ChangeEvent \<Rightarrow> BatchEvent option" where
  "pg_prepare_upsert tm event =
     (case new_row event of
        None \<Rightarrow> None
      | Some row \<Rightarrow>
          let idv = pg_get_column row (id_source tm); emb = pg_get_column row (embed_source tm) in
          if op event = Update \<and> pg_is_toast row (embed_source tm) then None
          else if op event = Update \<and>
                  (case old_row event of None \<Rightarrow> False
                   | Some old \<Rightarrow> pg_get_column old (embed_source tm) \<noteq> [] \<and>
                                 pg_get_column old (embed_source tm) = emb) then None
          else if idv = [] \<or> emb = [] then None
          else Some \<lparr>kind = KindUpsert, be_tm = tm, id_val = idv, embed_val = emb,
                     meta_vals = map (\<lambda>m. pg_get_column row (source_column m)) (metadata_columns tm)\<rparr>)"

text \<open>Pass 1 of \<^verbatim>\<open>call_batch\<close>: one event, then all of them.\<close>

definition pg_collect_event :: "TableMapping list \<Rightarrow> ChangeEvent \<Rightarrow> Batch" where
  "pg_collect_event ms event =
     (if op event = Commit then []
      else case find (\<lambda>m. source_table m = table_name event) ms of
        None \<Rightarrow> []
      | Some tm \<Rightarrow>
          (case op event of
             Insert \<Rightarrow> (case pg_prepare_upsert tm event of None \<Rightarrow> [] | Some be \<Rightarrow> [be])
           | Update \<Rightarrow> (case pg_prepare_upsert tm event of None \<Rightarrow> [] | Some be \<Rightarrow> [be])
           | Delete \<Rightarrow>
               (case old_row event of
                  None \<Rightarrow> []
                | Some old \<Rightarrow>
                    if pg_get_column old (id_source tm) = [] then []
                    else [\<lparr>kind = KindDelete, be_tm = tm, id_val = pg_get_column old (id_source tm),
                           embed_val = [], meta_vals = []\<rparr>])
           | Truncate \<Rightarrow> [\<lparr>kind = KindTruncate, be_tm = tm, id_val = [], embed_val = [], meta_vals = []\<rparr>]
           | Commit \<Rightarrow> []))"

fun pg_collect :: "TableMapping list \<Rightarrow> ChangeEvent list \<Rightarrow> Batch" where
  "pg_collect ms [] = []"
| "pg_collect ms (e # es) = pg_collect_event ms e @ pg_collect ms es"

section \<open>Writing\<close>

definition vec_literal :: "vec \<Rightarrow> string" where
  "vec_literal v = ''['' @ join '','' (map show_float v) @ '']''"

definition command_ok :: "'w \<times> pg_result \<Rightarrow> 'w \<times> bool result" where
  "command_ok = (\<lambda>(w, r). (w, Inr (r = CommandOk)))"

definition upsert_params :: "TableMapping \<Rightarrow> string \<Rightarrow> string \<Rightarrow> string list \<Rightarrow> vec \<Rightarrow> string list" where
  "upsert_params tm idv emb metas v =
     map c_str ([idv] @ (if has_discriminator tm then [discriminator_label tm] else []) @ [emb] @ metas @
                [vec_literal v])"

definition remove_params :: "TableMapping \<Rightarrow> string \<Rightarrow> string list" where
  "remove_params tm idv = map c_str ([idv] @ (if has_discriminator tm then [discriminator_label tm] else []))"

definition truncate_params :: "TableMapping \<Rightarrow> string list" where
  "truncate_params tm = map c_str (if has_discriminator tm then [discriminator_label tm] else [])"

definition pg_upsert ::
  "'w libpq \<Rightarrow> PgEmbeddingSink \<Rightarrow> TableMapping \<Rightarrow> string \<Rightarrow> string \<Rightarrow> string list \<Rightarrow> vec \<Rightarrow> 'w \<Rightarrow> 'w \<times> bool result" where
  "pg_upsert pq s tm idv emb metas v w =
     (case upsert_sql_list s (source_table tm) of
        None \<Rightarrow> (w, Inl (Throw ''_Map_base::at''))
      | Some sql \<Rightarrow> command_ok (pq_exec_params pq w (c_str sql) (upsert_params tm idv emb metas v)))"

definition pg_remove :: "'w libpq \<Rightarrow> PgEmbeddingSink \<Rightarrow> TableMapping \<Rightarrow> string \<Rightarrow> 'w \<Rightarrow> 'w \<times> bool result" where
  "pg_remove pq s tm idv w =
     (case delete_sql_list s (source_table tm) of
        None \<Rightarrow> (w, Inl (Throw ''_Map_base::at''))
      | Some sql \<Rightarrow> command_ok (pq_exec_params pq w (c_str sql) (remove_params tm idv)))"

definition pg_truncate :: "'w libpq \<Rightarrow> PgEmbeddingSink \<Rightarrow> TableMapping \<Rightarrow> 'w \<Rightarrow> 'w \<times> bool result" where
  "pg_truncate pq s tm w =
     (case truncate_sql_list s (source_table tm) of
        None \<Rightarrow> (w, Inl (Throw ''_Map_base::at''))
      | Some sql \<Rightarrow> command_ok (pq_exec_params pq w (c_str sql) (truncate_params tm)))"

text \<open>
  Pass 2: the actions in order. The result of a write is ignored, an exception ends the loop.
  Reading \<^verbatim>\<open>vectors[vec_idx++]\<close> past the end is an unchecked read.
\<close>

fun pg_apply :: "'w libpq \<Rightarrow> PgEmbeddingSink \<Rightarrow> Batch \<Rightarrow> vec list \<Rightarrow> 'w \<Rightarrow> 'w \<times> failure option" where
  "pg_apply pq s [] vs w = (w, None)"
| "pg_apply pq s (be # b) vs w =
     (case kind be of
        KindUpsert \<Rightarrow>
          (case vs of
             [] \<Rightarrow> (w, Some OutOfBounds)
           | v # vs' \<Rightarrow>
               if v = [] then pg_apply pq s b vs' w
               else (case pg_upsert pq s (be_tm be) (id_val be) (embed_val be) (meta_vals be) v w of
                       (w', Inl e) \<Rightarrow> (w', Some e)
                     | (w', Inr _) \<Rightarrow> pg_apply pq s b vs' w'))
      | KindDelete \<Rightarrow>
          (case pg_remove pq s (be_tm be) (id_val be) w of
             (w', Inl e) \<Rightarrow> (w', Some e) | (w', Inr _) \<Rightarrow> pg_apply pq s b vs w')
      | KindTruncate \<Rightarrow>
          (case pg_truncate pq s (be_tm be) w of
             (w', Inl e) \<Rightarrow> (w', Some e) | (w', Inr _) \<Rightarrow> pg_apply pq s b vs w'))"

definition pg_call_batch ::
  "'w libpq \<Rightarrow> PgEmbeddingSink \<Rightarrow> 'p embedder \<Rightarrow> ChangeEvent list \<Rightarrow> 'p \<times> 'w \<Rightarrow> ('p \<times> 'w) \<times> failure option" where
  "pg_call_batch pq s emb events = (\<lambda>(p, w).
     (let batch = pg_collect (pg_mappings (pg_config s)) events in
      if batch = [] then ((p, w), None)
      else
        let texts = batch_texts batch in
        if texts = [] then (case pg_apply pq s batch [] w of (w', r) \<Rightarrow> ((p, w'), r))
        else (case emb p texts of
                (p', Inl e) \<Rightarrow> ((p', w), Some e)
              | (p', Inr vectors) \<Rightarrow>
                  if length vectors \<noteq> length texts then ((p', w), None)
                  else (case pg_apply pq s batch vectors w of (w', r) \<Rightarrow> ((p', w'), r)))))"

definition pg_call ::
  "'w libpq \<Rightarrow> PgEmbeddingSink \<Rightarrow> 'p embedder \<Rightarrow> ChangeEvent \<Rightarrow> 'p \<times> 'w \<Rightarrow> ('p \<times> 'w) \<times> failure option" where
  "pg_call pq s emb event = pg_call_batch pq s emb [event]"

section \<open>Start-up\<close>

definition pg_builder :: "PgEmbeddingSinkConfig \<Rightarrow> PgSqlBuilder" where
  "pg_builder cfg = \<lparr>sb_table = pg_sink_table cfg, sb_column = pg_sink_column cfg\<rparr>"

text \<open>The loop of \<^verbatim>\<open>init\<close> that fills the statement maps.\<close>

fun pg_fill_sql :: "PgSqlBuilder \<Rightarrow> TableMapping list \<Rightarrow> PgEmbeddingSink \<Rightarrow> PgEmbeddingSink" where
  "pg_fill_sql b [] s = s"
| "pg_fill_sql b (tm # tms) s = pg_fill_sql b tms
     (s\<lparr>upsert_sql_list := (upsert_sql_list s)(source_table tm \<mapsto> build_upsert_sql b tm),
        delete_sql_list := (delete_sql_list s)(source_table tm \<mapsto> build_delete_sql b tm),
        truncate_sql_list := (truncate_sql_list s)(source_table tm \<mapsto> build_truncate_sql b tm)\<rparr>)"

definition pg_init_sql :: "PgEmbeddingSinkConfig \<Rightarrow> PgEmbeddingSink" where
  "pg_init_sql cfg = pg_fill_sql (pg_builder cfg) (pg_mappings cfg)
     \<lparr>pg_config = cfg, upsert_sql_list = (\<lambda>_. None), delete_sql_list = (\<lambda>_. None),
      truncate_sql_list = (\<lambda>_. None)\<rparr>"

text \<open>\<open>provider_dims\<close> is the answer of \<^verbatim>\<open>provider_->dimensions()\<close>.\<close>

definition pg_verify :: "'w libpq \<Rightarrow> PgEmbeddingSinkConfig \<Rightarrow> int \<Rightarrow> 'w \<Rightarrow> 'w \<times> unit result" where
  "pg_verify pq cfg provider_dims w =
     (case pq_exec_params pq w
             (''SELECT atttypmod FROM pg_attribute '' @
              ''WHERE attrelid = $1::regclass AND attname = $2 AND NOT attisdropped'')
             [c_str (pg_sink_table cfg), c_str (pg_sink_column cfg)] of
        (w', TuplesOk rows) \<Rightarrow>
          if rows = [] then
            (w', Inl (Throw (''EmbeddingSink: sink column '' @ squote (pg_sink_column cfg) @
                             '' not found on table '' @ squote (pg_sink_table cfg))))
          else
            let column_dims = atoi (hd (hd rows)) in
            if column_dims \<le> 0 then (w', Inr ())
            else if column_dims \<noteq> provider_dims then
              (w', Inl (Throw (''EmbeddingSink: sink column '' @
                 squote (pg_sink_table cfg @ ''.'' @ pg_sink_column cfg) @ '' is vector('' @
                 show_int column_dims @ '') but the embedding provider produces '' @
                 show_int provider_dims @ ''-dimensional vectors '' @ em_dash @
                 '' fix [embedding] dimensions or the column definition'')))
            else (w', Inr ())
      | (w', CommandOk) \<Rightarrow>
          (w', Inl (Throw (''EmbeddingSink: failed to look up sink column '' @ squote (pg_sink_column cfg) @
                           '' on table '' @ squote (pg_sink_table cfg) @ '': '')))
      | (w', PgFailed err) \<Rightarrow>
          (w', Inl (Throw (''EmbeddingSink: failed to look up sink column '' @ squote (pg_sink_column cfg) @
                           '' on table '' @ squote (pg_sink_table cfg) @ '': '' @ err))))"

text \<open>Advisory: the answer only chooses a log line.\<close>

definition pg_check_vector_index :: "'w libpq \<Rightarrow> PgEmbeddingSinkConfig \<Rightarrow> 'w \<Rightarrow> 'w" where
  "pg_check_vector_index pq cfg w =
     fst (pq_exec_params pq w
       (''SELECT am.amname FROM pg_index i '' @
        ''JOIN pg_class ic ON ic.oid = i.indexrelid '' @
        ''JOIN pg_am am ON am.oid = ic.relam '' @
        ''JOIN pg_attribute a ON a.attrelid = i.indrelid AND a.attnum = ANY(i.indkey) '' @
        ''WHERE i.indrelid = $1::regclass AND a.attname = $2 AND am.amname IN ('' @
        squote ''hnsw'' @ '', '' @ squote ''ivfflat'' @ '')'')
       [c_str (pg_sink_table cfg), c_str (pg_sink_column cfg)])"

definition pg_init :: "'w libpq \<Rightarrow> PgEmbeddingSinkConfig \<Rightarrow> int \<Rightarrow> 'w \<Rightarrow> 'w \<times> PgEmbeddingSink result" where
  "pg_init pq cfg provider_dims w =
     (let s = pg_init_sql cfg in
      case pq_connect pq w (c_str (pg_conninfo cfg)) of
        (w1, Some err) \<Rightarrow> (w1, Inl (Throw (''EmbeddingSink: pg connection failed: '' @ err)))
      | (w1, None) \<Rightarrow>
          (case pq_exec pq w1 (''SELECT 1 FROM pg_extension WHERE extname = '' @ squote ''vector'') of
             (w2, r) \<Rightarrow>
               if \<not> (case r of TuplesOk rows \<Rightarrow> rows \<noteq> [] | _ \<Rightarrow> False) then
                 (w2, Inl (Throw (''EmbeddingSink: pgvector extension not installed in target db. '' @
                                  ''Run: CREATE EXTENSION vector;'')))
               else (case pg_verify pq cfg provider_dims w2 of
                       (w3, Inl e) \<Rightarrow> (w3, Inl e)
                     | (w3, Inr _) \<Rightarrow> (pg_check_vector_index pq cfg w3, Inr s))))"

section \<open>The sink as a batch sink\<close>

lemma pg_collect_append: "pg_collect ms (xs @ ys) = pg_collect ms xs @ pg_collect ms ys"
  by (induction xs) simp_all

lemma pg_prepare_upsert_tm: "pg_prepare_upsert tm e = Some be \<Longrightarrow> be_tm be = tm"
  by (auto simp: pg_prepare_upsert_def Let_def split: option.splits if_splits)

lemma pg_collect_event_tm:
  assumes "be \<in> set (pg_collect_event ms e)"
  shows "be_tm be \<in> set ms"
proof (cases "find (\<lambda>m. source_table m = table_name e) ms")
  case None
  with assms show ?thesis by (simp add: pg_collect_event_def split: if_splits)
next
  case (Some tm)
  then have "tm \<in> set ms" by (auto simp: find_Some_iff)
  moreover have "be_tm be = tm"
    using assms Some
    by (cases "op e") (auto simp: pg_collect_event_def dest: pg_prepare_upsert_tm [OF sym]
        split: if_splits option.splits)
  ultimately show ?thesis by simp
qed

lemma pg_collect_tm: "be \<in> set (pg_collect ms evs) \<Longrightarrow> be_tm be \<in> set ms"
  by (induction evs) (auto dest: pg_collect_event_tm)

lemma pg_fill_sql_config [simp]: "pg_config (pg_fill_sql b tms s) = pg_config s"
  by (induction tms arbitrary: s) simp_all

lemma pg_init_sql_config [simp]: "pg_config (pg_init_sql cfg) = cfg"
  by (simp add: pg_init_sql_def)

lemma pg_fill_sql_keep:
  assumes "t \<notin> source_table ` set tms"
  shows "upsert_sql_list (pg_fill_sql b tms s) t = upsert_sql_list s t"
    "delete_sql_list (pg_fill_sql b tms s) t = delete_sql_list s t"
    "truncate_sql_list (pg_fill_sql b tms s) t = truncate_sql_list s t"
  using assms by (induction tms arbitrary: s) auto

lemma pg_fill_sql_last:
  assumes "tm \<in> set tms"
  shows "\<exists>tm' \<in> set tms. source_table tm' = source_table tm
    \<and> upsert_sql_list (pg_fill_sql b tms s) (source_table tm) = Some (build_upsert_sql b tm')
    \<and> delete_sql_list (pg_fill_sql b tms s) (source_table tm) = Some (build_delete_sql b tm')
    \<and> truncate_sql_list (pg_fill_sql b tms s) (source_table tm) = Some (build_truncate_sql b tm')"
  using assms
proof (induction tms arbitrary: s tm)
  case Nil
  then show ?case by simp
next
  case (Cons x tms)
  show ?case
  proof (cases "source_table tm \<in> source_table ` set tms")
    case True
    then obtain y where "y \<in> set tms" "source_table y = source_table tm" by auto
    then show ?thesis using Cons.IH [of y] by fastforce
  next
    case False
    then have "tm = x" using Cons.prems by auto
    with False show ?thesis by (simp add: pg_fill_sql_keep)
  qed
qed

lemma pg_init_sql_known:
  assumes "tm \<in> set (pg_mappings cfg)"
  shows "\<exists>u d t. upsert_sql_list (pg_init_sql cfg) (source_table tm) = Some u
    \<and> delete_sql_list (pg_init_sql cfg) (source_table tm) = Some d
    \<and> truncate_sql_list (pg_init_sql cfg) (source_table tm) = Some t"
  using pg_fill_sql_last [OF assms] unfolding pg_init_sql_def by blast

text \<open>With one mapping per source table the statements are the mapping's own.\<close>

lemma pg_init_sql_own:
  assumes "tm \<in> set (pg_mappings cfg)" "distinct (map source_table (pg_mappings cfg))"
  shows "upsert_sql_list (pg_init_sql cfg) (source_table tm) = Some (build_upsert_sql (pg_builder cfg) tm)"
    "delete_sql_list (pg_init_sql cfg) (source_table tm) = Some (build_delete_sql (pg_builder cfg) tm)"
    "truncate_sql_list (pg_init_sql cfg) (source_table tm) = Some (build_truncate_sql (pg_builder cfg) tm)"
  using pg_fill_sql_last [OF assms(1), of "pg_builder cfg"] assms
  unfolding pg_init_sql_def by (metis distinct_map inj_on_eq_iff)+

interpretation pgs: batch_sink
  "pg_collect (pg_mappings (pg_config s))" "pg_apply pq s" "pg_call_batch pq s"
  "pg_upsert pq s" "pg_remove pq s" "pg_truncate pq s"
  for s :: PgEmbeddingSink and pq :: "'w libpq"
  by unfold_locales
     (auto simp: pg_collect_append pg_call_batch_def outcome_def Let_def split: prod.splits sum.splits)

lemma pg_never_throws:
  assumes "be \<in> set (pg_collect (pg_mappings cfg) evs)"
  shows "never_throws (pg_upsert pq (pg_init_sql cfg)) (pg_remove pq (pg_init_sql cfg))
    (pg_truncate pq (pg_init_sql cfg)) be"
  using pg_init_sql_known [OF pg_collect_tm [OF assms]]
  by (auto simp: never_throws_def outcome_def pg_upsert_def pg_remove_def pg_truncate_def command_ok_def
      split: prod.splits)

section \<open>Properties\<close>

text \<open>
  The reference for a batch: what the statements of the action's own mapping do to the
  database, one action at a time.
\<close>

definition pg_action :: "'w libpq \<Rightarrow> PgSqlBuilder \<Rightarrow> (string \<Rightarrow> vec) \<Rightarrow> BatchEvent \<Rightarrow> 'w \<Rightarrow> 'w" where
  "pg_action pq b f be w =
     (case kind be of
        KindUpsert \<Rightarrow>
          if f (embed_val be) = [] then w
          else fst (pq_exec_params pq w (c_str (build_upsert_sql b (be_tm be)))
                 (upsert_params (be_tm be) (id_val be) (embed_val be) (meta_vals be) (f (embed_val be))))
      | KindDelete \<Rightarrow>
          fst (pq_exec_params pq w (c_str (build_delete_sql b (be_tm be))) (remove_params (be_tm be) (id_val be)))
      | KindTruncate \<Rightarrow>
          fst (pq_exec_params pq w (c_str (build_truncate_sql b (be_tm be))) (truncate_params (be_tm be))))"

lemma pg_action_effect:
  assumes "be_tm be \<in> set (pg_mappings cfg)" "distinct (map source_table (pg_mappings cfg))"
  shows "action_effect (pg_upsert pq (pg_init_sql cfg)) (pg_remove pq (pg_init_sql cfg))
      (pg_truncate pq (pg_init_sql cfg)) f be w = (pg_action pq (pg_builder cfg) f be w, None)"
  using pg_init_sql_own [OF assms]
  by (auto simp: action_effect_def pg_action_def pg_upsert_def pg_remove_def pg_truncate_def
      command_ok_def outcome_def split: Kind.splits prod.splits)

lemma pg_events_effect:
  assumes "distinct (map source_table (pg_mappings cfg))"
  shows "pgs.effect (pg_init_sql cfg) pq f evs w =
    (fold (\<lambda>e. fold (pg_action pq (pg_builder cfg) f) (pg_collect_event (pg_mappings cfg) e)) evs w, None)"
proof -
  let ?act = "\<lambda>e. fold (pg_action pq (pg_builder cfg) f) (pg_collect_event (pg_mappings cfg) e)"
  have "run_all (action_effect (pg_upsert pq (pg_init_sql cfg)) (pg_remove pq (pg_init_sql cfg))
      (pg_truncate pq (pg_init_sql cfg)) f) (pg_collect_event (pg_mappings cfg) e) w
    = run_all (\<lambda>be w. (pg_action pq (pg_builder cfg) f be w, None)) (pg_collect_event (pg_mappings cfg) e) w" for e w
    by (rule run_all_cong [OF refl refl]) (simp add: pg_action_effect pg_collect_event_tm assms)
  then have "run_all (action_effect (pg_upsert pq (pg_init_sql cfg)) (pg_remove pq (pg_init_sql cfg))
      (pg_truncate pq (pg_init_sql cfg)) f) (pg_collect_event (pg_mappings cfg) e) = (\<lambda>w. (?act e w, None))" for e
    by (simp add: fun_eq_iff run_all_pure)
  then show ?thesis
    by (simp add: events_effect_def run_all_pure)
qed

text \<open>
  C6. Batching does not change what reaches the database. For a provider that embeds each text
  by itself and an initialised sink with one mapping per source table, a batch issues exactly
  the statements of its events one after the other in their original order (deletes and
  truncates at their place between the upserts, each with its own mapping's statement and
  parameters) and reports success.
\<close>

theorem pg_call_batch_in_order:
  assumes "distinct (map source_table (pg_mappings cfg))"
    and "okp p" "\<And>p ts. okp p \<Longrightarrow> \<exists>p'. okp p' \<and> emb p ts = (p', Inr (map f ts))"
  shows "\<exists>p'. okp p' \<and> pg_call_batch pq (pg_init_sql cfg) emb evs (p, w) =
    ((p', fold (\<lambda>e. fold (pg_action pq (pg_builder cfg) f) (pg_collect_event (pg_mappings cfg) e)) evs w), None)"
  using pgs.call_batch_eventwise [of okp p emb f pq "pg_init_sql cfg" evs w] assms(2,3)
  by (simp add: pg_events_effect [simplified] assms(1))

definition items_mapping :: TableMapping where
  "items_mapping = resolve_columns (empty_mapping\<lparr>source_table := ''items'',
     tm_columns := [\<lparr>source_column = ''id'', sink_column = ''item_id'', role = ''id''\<rparr>,
                    \<lparr>source_column = ''body'', sink_column = ''text'', role = ''embed''\<rparr>,
                    \<lparr>source_column = ''lang'', sink_column = ''lang'', role = ''metadata''\<rparr>]\<rparr>)"

definition items_config :: PgEmbeddingSinkConfig where
  "items_config = \<lparr>pg_conninfo = ''dbname=v'', pg_sink_table = ''items_vec'', pg_sink_column = ''embedding'',
     pg_mappings = [items_mapping]\<rparr>"

definition items_row :: "string \<Rightarrow> string \<Rightarrow> DecodedRow" where
  "items_row i b = \<lparr>row_schema = ''public'', row_table = ''items'', row_kind = TupleInsert,
     columns = [\<lparr>cv_name = ''id'', is_null = False, is_unchanged_toast = False, text_value = i\<rparr>,
                \<lparr>cv_name = ''body'', is_null = False, is_unchanged_toast = False, text_value = b\<rparr>]\<rparr>"

definition items_events :: "ChangeEvent list" where
  "items_events = [(new_event Insert)\<lparr>table_name := ''items'', new_row := Some (items_row ''7'' ''ab'')\<rparr>,
     (new_event Delete)\<lparr>table_name := ''items'', old_row := Some (items_row ''7'' ''ab'')\<rparr>,
     (new_event Commit)]"

text \<open>A libpq that records the statements it is given and always succeeds.\<close>

definition recording_pq :: "(string \<times> string list) list libpq" where
  "recording_pq = \<lparr>pq_connect = (\<lambda>w _. (w, None)), pq_exec = (\<lambda>w q. (w @ [(q, [])], TuplesOk [[''1'']])),
     pq_exec_params = (\<lambda>w q ps. (w @ [(q, ps)], CommandOk))\<rparr>"

lemma items_mapping_simps [simp]:
  "source_table items_mapping = ''items''" "id_source items_mapping = ''id''" "id_sink items_mapping = ''item_id''"
  "embed_source items_mapping = ''body''" "embed_sink items_mapping = ''text''"
  "has_discriminator items_mapping = False"
  "metadata_columns items_mapping = [\<lparr>source_column = ''lang'', sink_column = ''lang'', role = ''metadata''\<rparr>]"
  by (simp_all add: items_mapping_def resolve_columns_def metadata_columns_def empty_mapping_def)

theorem pg_call_batch_in_order_witness:
  "\<exists>p'. (\<lambda>_ :: unit. True) p' \<and>
     pg_call_batch recording_pq (pg_init_sql items_config) (\<lambda>p ts. (p, Inr (map (\<lambda>_. [0x3F800000]) ts)))
       items_events ((), []) =
     ((p', [(''INSERT INTO items_vec (item_id, text, lang, embedding) VALUES ($1, $2, $3, $4::vector)'' @
             '' ON CONFLICT (item_id) DO UPDATE SET text = EXCLUDED.text, lang = EXCLUDED.lang, '' @
             ''embedding = EXCLUDED.embedding'', [''7'', ''ab'', '''', ''[1]'']),
            (''DELETE FROM items_vec WHERE item_id = $1'', [''7''])]), None)"
proof -
  have "\<exists>p'. True \<and> pg_call_batch recording_pq (pg_init_sql items_config)
      (\<lambda>p ts. (p, Inr (map (\<lambda>_. [0x3F800000]) ts))) items_events ((), []) =
    ((p', fold (\<lambda>e. fold (pg_action recording_pq (pg_builder items_config) (\<lambda>_. [0x3F800000]))
        (pg_collect_event (pg_mappings items_config) e)) items_events []), None)"
    by (rule pg_call_batch_in_order [where okp = "\<lambda>_. True"]) (simp_all add: items_config_def)
  moreover have "fold (\<lambda>e. fold (pg_action recording_pq (pg_builder items_config) (\<lambda>_. [0x3F800000]))
        (pg_collect_event (pg_mappings items_config) e)) items_events [] =
      [(''INSERT INTO items_vec (item_id, text, lang, embedding) VALUES ($1, $2, $3, $4::vector)'' @
         '' ON CONFLICT (item_id) DO UPDATE SET text = EXCLUDED.text, lang = EXCLUDED.lang, '' @
         ''embedding = EXCLUDED.embedding'', [''7'', ''ab'', '''', ''[1]'']),
       (''DELETE FROM items_vec WHERE item_id = $1'', [''7''])]"
    by (simp add: items_events_def items_config_def pg_collect_event_def pg_prepare_upsert_def new_event_def
        items_row_def pg_get_column_def pg_action_def recording_pq_def build_upsert_sql_def pg_builder_def
        upsert_sink_cols_def upsert_update_cols_def placeholder_def upsert_params_def vec_literal_def
        build_delete_sql_def remove_params_def c_str_def show_float_samples Let_def
        show_nat.simps digit_def char_of_def bit_Suc_0_iff)
  ultimately show ?thesis by simp
qed

text \<open>
  How the stream of events is cut into batches does not matter: applying a batch and then
  another leaves the same database as applying their concatenation, all three successfully.
\<close>

theorem pg_call_batch_split:
  assumes "okp p" "\<And>p ts. okp p \<Longrightarrow> \<exists>p'. okp p' \<and> emb p ts = (p', Inr (map f ts))"
  shows "\<exists>p1 p2 q w1 w2. pg_call_batch pq (pg_init_sql cfg) emb xs (p, w) = ((p1, w1), None)
    \<and> pg_call_batch pq (pg_init_sql cfg) emb ys (p1, w1) = ((p2, w2), None)
    \<and> pg_call_batch pq (pg_init_sql cfg) emb (xs @ ys) (p, w) = ((q, w2), None)"
proof -
  let ?s = "pg_init_sql cfg"
  have no: "snd (pg_call_batch pq ?s emb evs (p, w)) = None" if ok: "okp p" for evs p w
  proof (rule ccontr)
    assume "snd (pg_call_batch pq ?s emb evs (p, w)) \<noteq> None"
    then have "\<exists>e. snd (emb p (batch_texts (pg_collect (pg_mappings cfg) evs))) = Inl e"
      using pgs.call_batch_failure_from_provider [of pq ?s emb evs p w] by (auto simp: pg_never_throws)
    moreover obtain p' where "emb p (batch_texts (pg_collect (pg_mappings cfg) evs)) =
        (p', Inr (map f (batch_texts (pg_collect (pg_mappings cfg) evs))))"
      using assms(2) [OF ok] by blast
    ultimately show False by simp
  qed
  obtain p1 w1 r1 where 1: "okp p1" "pg_call_batch pq ?s emb xs (p, w) = ((p1, w1), r1)"
    using pgs.call_batch_eventwise [of okp p emb f pq ?s xs w] assms by blast
  obtain p2 w2 r2 where 2: "pg_call_batch pq ?s emb ys (p1, w1) = ((p2, w2), r2)"
    by (metis prod.collapse)
  have "r1 = None" "r2 = None"
    using no [OF assms(1), of xs w] no [OF 1(1), of ys w1] 1 2 by simp_all
  then show ?thesis
    using pgs.call_batch_split [of okp p emb f pq ?s xs w p1 w1 None ys] 1 2 assms by auto
qed

theorem pg_call_batch_split_witness:
  "\<exists>p1 p2 q w1 w2.
     pg_call_batch recording_pq (pg_init_sql items_config) (\<lambda>p :: unit. \<lambda>ts. (p, Inr (map (\<lambda>_. [0]) ts)))
       (take 1 items_events) ((), []) = ((p1, w1), None)
   \<and> pg_call_batch recording_pq (pg_init_sql items_config) (\<lambda>p :: unit. \<lambda>ts. (p, Inr (map (\<lambda>_. [0]) ts)))
       (drop 1 items_events) (p1, w1) = ((p2, w2), None)
   \<and> pg_call_batch recording_pq (pg_init_sql items_config) (\<lambda>p :: unit. \<lambda>ts. (p, Inr (map (\<lambda>_. [0]) ts)))
       (take 1 items_events @ drop 1 items_events) ((), []) = ((q, w2), None)"
  by (rule pg_call_batch_split [where okp = "\<lambda>_. True" and f = "\<lambda>_. [0]"]) simp_all

text \<open>
  C39. Failed writes are not reported. As long as the provider raises nothing, a batch returns
  normally whatever libpq answers: rejected statements, and answers with too few or too many
  vectors, which drop the batch, all look like success to the caller.
\<close>

theorem pg_call_batch_ignores_write_errors:
  assumes "\<And>p ts. \<exists>p' vs. emb p ts = (p', Inr vs)"
  shows "snd (pg_call_batch pq (pg_init_sql cfg) emb evs (p, w)) = None"
proof (rule ccontr)
  assume "snd (pg_call_batch pq (pg_init_sql cfg) emb evs (p, w)) \<noteq> None"
  then obtain e where "snd (emb p (batch_texts (pg_collect (pg_mappings cfg) evs))) = Inl e"
    using pgs.call_batch_failure_from_provider [of pq "pg_init_sql cfg" emb evs p w]
    by (auto simp: pg_never_throws)
  moreover obtain p' vs where "emb p (batch_texts (pg_collect (pg_mappings cfg) evs)) = (p', Inr vs)"
    using assms by blast
  ultimately show False by simp
qed

definition failing_pq :: "unit libpq" where
  "failing_pq = \<lparr>pq_connect = (\<lambda>w _. (w, None)), pq_exec = (\<lambda>w _. (w, PgFailed ''server closed'')),
     pq_exec_params = (\<lambda>w _ _. (w, PgFailed ''server closed''))\<rparr>"

theorem pg_call_batch_ignores_write_errors_witness:
  "snd (pg_call_batch failing_pq (pg_init_sql items_config) (\<lambda>p :: unit. \<lambda>ts. (p, Inr (map (\<lambda>_. [0]) ts)))
     items_events ((), ())) = None"
  by (rule pg_call_batch_ignores_write_errors) simp



text \<open>
  Two mappings of one source table in one sink disagree with each other. The statement map
  keeps the statement of the last mapping while events are prepared with the first, so a
  statement with four placeholders is sent with three parameters.
\<close>

theorem pg_duplicate_mapping_mismatch:
  "let plain = items_mapping\<lparr>tm_columns := take 2 (tm_columns items_mapping)\<rparr>;
       cfg = items_config\<lparr>pg_mappings := [plain, items_mapping]\<rparr>
   in pg_call_batch recording_pq (pg_init_sql cfg) (\<lambda>p ts. (p, Inr (map (\<lambda>_. [0x3F800000]) ts)))
        (take 1 items_events) ((), []) =
      (((), [(build_upsert_sql (pg_builder items_config) items_mapping, [''7'', ''ab'', ''[1]''])]), None)
    \<and> length (upsert_sink_cols (pg_builder items_config) items_mapping) = 4"
  by (simp add: items_events_def items_config_def pg_call_batch_def pg_collect_event_def pg_prepare_upsert_def
      new_event_def items_row_def pg_get_column_def recording_pq_def pg_upsert_def pg_init_sql_def
      command_ok_def upsert_params_def vec_literal_def show_float_samples c_str_def pg_builder_def
      build_upsert_sql_def upsert_sink_cols_def upsert_update_cols_def placeholder_def items_mapping_def
      resolve_columns_def metadata_columns_def empty_mapping_def show_nat.simps digit_def char_of_def
      bit_Suc_0_iff Let_def)

end
