(* ===== verification/Http_Client.thy ===== *)
theory Http_Client
  imports Walkrie_Prelude
begin

text \<open>
  The libcurl wrapper of \<^verbatim>\<open>src/src/http_client.cpp\<close>. libcurl itself is a
  parameter \<open>curl\<close>: it takes the state of the outside world and the prepared request and
  returns the new state with either a transport error (and whatever part of a body had
  arrived) or a status code and the body.
\<close>

record HttpResponse =
  status_code :: int
  body :: string
  curl_ok :: bool
  curl_error :: string

datatype HttpMethod = HttpGet | HttpPost | HttpPut | HttpDelete

record curl_request =
  rq_method :: HttpMethod
  rq_url :: string
  rq_headers :: "string list"
  rq_body :: "string option"
  rq_timeout :: int
  rq_keepalive :: "int \<times> int"

datatype curl_outcome = CurlOk int string | CurlFailed string string

type_synonym 'w curl = "'w \<Rightarrow> curl_request \<Rightarrow> 'w \<times> curl_outcome"

record HttpClient =
  curl_handle :: bool
  timeout_secs :: int

definition http_perform :: "'w curl \<Rightarrow> HttpClient \<Rightarrow> HttpMethod \<Rightarrow> string \<Rightarrow> string \<Rightarrow> string list \<Rightarrow> 'w \<Rightarrow> 'w \<times> HttpResponse" where
  "http_perform curl client m url json_body extra_headers w =
     (if \<not> curl_handle client then
        (w, \<lparr>status_code = 0, body = [], curl_ok = False, curl_error = ''curl handle not initialized''\<rparr>)
      else
        let rq = \<lparr>rq_method = m, rq_url = url,
                  rq_headers = ''Content-Type: application/json'' # extra_headers,
                  rq_body = (case m of HttpGet \<Rightarrow> None | HttpPost \<Rightarrow> Some json_body
                             | HttpPut \<Rightarrow> Some json_body | HttpDelete \<Rightarrow> Some json_body),
                  rq_timeout = timeout_secs client, rq_keepalive = (60, 10)\<rparr>
        in case curl w rq of
             (w', CurlFailed err part) \<Rightarrow>
               (w', \<lparr>status_code = 0, body = part, curl_ok = False, curl_error = err\<rparr>)
           | (w', CurlOk code b) \<Rightarrow>
               (w', \<lparr>status_code = code, body = b, curl_ok = True, curl_error = []\<rparr>))"

definition post_json :: "'w curl \<Rightarrow> HttpClient \<Rightarrow> string \<Rightarrow> string \<Rightarrow> string list \<Rightarrow> 'w \<Rightarrow> 'w \<times> HttpResponse" where
  "post_json curl client url json_body hs = http_perform curl client HttpPost url json_body hs"

definition put_json :: "'w curl \<Rightarrow> HttpClient \<Rightarrow> string \<Rightarrow> string \<Rightarrow> string list \<Rightarrow> 'w \<Rightarrow> 'w \<times> HttpResponse" where
  "put_json curl client url json_body hs = http_perform curl client HttpPut url json_body hs"

definition delete_json :: "'w curl \<Rightarrow> HttpClient \<Rightarrow> string \<Rightarrow> string \<Rightarrow> string list \<Rightarrow> 'w \<Rightarrow> 'w \<times> HttpResponse" where
  "delete_json curl client url json_body hs = http_perform curl client HttpDelete url json_body hs"

definition get_json :: "'w curl \<Rightarrow> HttpClient \<Rightarrow> string \<Rightarrow> string list \<Rightarrow> 'w \<Rightarrow> 'w \<times> HttpResponse" where
  "get_json curl client url hs = http_perform curl client HttpGet url [] hs"

text \<open>A response either carries a status of the server or a transport error, never both.\<close>

lemma http_perform_exclusive:
  assumes "http_perform curl client m url b hs w = (w', r)"
  shows "curl_ok r \<Longrightarrow> curl_error r = []" and "\<not> curl_ok r \<Longrightarrow> status_code r = 0"
  using assms by (auto simp: http_perform_def Let_def split: if_splits prod.splits curl_outcome.splits)

end
