(* ===== verification/Json_Library.thy ===== *)
theory Json_Library
  imports Http_Client
begin

text \<open>
  What the REST clients use of two libraries. Of \<^verbatim>\<open>nlohmann::json\<close> the
  serialiser, the parser and the number conversions are parameters (\<open>json_lib\<close>), each of
  which may throw; element access is written out as documented. Of
  \<^verbatim>\<open>libuuid\<close> both the SHA-1 name hash and the text form are parameters.
\<close>

record json_lib =
  j_dump :: "json \<Rightarrow> string result"
  j_parse :: "string \<Rightarrow> json result"
  j_get_int :: "json \<Rightarrow> int result"
  j_get_size :: "json \<Rightarrow> nat result"
  j_get_floats :: "json \<Rightarrow> u32 list result"

record libuuid =
  uuid_generate_sha1 :: "u8 list \<Rightarrow> string \<Rightarrow> u8 list"
  uuid_unparse_lower :: "u8 list \<Rightarrow> string"

record 'w rest_env =
  re_curl :: "'w curl"
  re_json :: json_lib
  re_uuid :: libuuid

fun json_type_name :: "json \<Rightarrow> string" where
  "json_type_name JNull = ''null''"
| "json_type_name (JBool _) = ''boolean''"
| "json_type_name (JInt _) = ''number''"
| "json_type_name (JFloat _) = ''number''"
| "json_type_name (JDouble _) = ''number''"
| "json_type_name (JStr _) = ''string''"
| "json_type_name (JArr _) = ''array''"
| "json_type_name (JObj _) = ''object''"

text \<open>\<^verbatim>\<open>j.at(key)\<close> and \<^verbatim>\<open>j.at(index)\<close>.\<close>

definition json_at :: "string \<Rightarrow> json \<Rightarrow> json result" where
  "json_at k j =
     (case j of
        JObj ob \<Rightarrow>
          (case map_of ob k of
             Some v \<Rightarrow> Inr v
           | None \<Rightarrow> Inl (Throw (''[json.exception.out_of_range.403] key '' @ squote k @ '' not found'')))
      | _ \<Rightarrow> Inl (Throw (''[json.exception.type_error.304] cannot use at() with '' @ json_type_name j)))"

definition json_at_index :: "nat \<Rightarrow> json \<Rightarrow> json result" where
  "json_at_index i j =
     (case j of
        JArr xs \<Rightarrow>
          if i < length xs then Inr (xs ! i)
          else Inl (Throw (''[json.exception.out_of_range.401] array index '' @ show_nat i @ '' is out of range''))
      | _ \<Rightarrow> Inl (Throw (''[json.exception.type_error.304] cannot use at() with '' @ json_type_name j)))"

fun json_path :: "string list \<Rightarrow> json \<Rightarrow> json result" where
  "json_path [] j = Inr j"
| "json_path (k # ks) j = bindE (json_at k j) (json_path ks)"

definition json_get_string :: "json \<Rightarrow> string result" where
  "json_get_string j =
     (case j of JStr s \<Rightarrow> Inr s
      | _ \<Rightarrow> Inl (Throw (''[json.exception.type_error.302] type must be string, but is '' @ json_type_name j)))"

text \<open>\<^verbatim>\<open>j.value(key, default)\<close> at the two types the code uses.\<close>

definition json_value_string :: "string \<Rightarrow> string \<Rightarrow> json \<Rightarrow> string result" where
  "json_value_string k d j =
     (case j of
        JObj ob \<Rightarrow> (case map_of ob k of None \<Rightarrow> Inr d | Some v \<Rightarrow> json_get_string v)
      | _ \<Rightarrow> Inl (Throw (''[json.exception.type_error.306] cannot use value() with '' @ json_type_name j)))"

definition json_value_bool :: "string \<Rightarrow> bool \<Rightarrow> json \<Rightarrow> bool result" where
  "json_value_bool k d j =
     (case j of
        JObj ob \<Rightarrow>
          (case map_of ob k of
             None \<Rightarrow> Inr d
           | Some (JBool b) \<Rightarrow> Inr b
           | Some v \<Rightarrow> Inl (Throw (''[json.exception.type_error.302] type must be boolean, but is '' @ json_type_name v)))
      | _ \<Rightarrow> Inl (Throw (''[json.exception.type_error.306] cannot use value() with '' @ json_type_name j)))"

text \<open>A range-based for loop over a value: elements, member values, nothing, or the scalar itself.\<close>

fun json_elements :: "json \<Rightarrow> json list" where
  "json_elements (JArr xs) = xs"
| "json_elements (JObj ob) = map snd ob"
| "json_elements JNull = []"
| "json_elements j = [j]"

text \<open>A vector of floats as a JSON value.\<close>

definition json_floats :: "u32 list \<Rightarrow> json" where
  "json_floats v = JArr (map JFloat v)"

text \<open>
  A \<^verbatim>\<open>catch (const std::exception& e)\<close> that rethrows with another text, and one
  that goes on with a default.
\<close>

definition rethrow :: "(string \<Rightarrow> string) \<Rightarrow> 'a result \<Rightarrow> 'a result" where
  "rethrow f r = (case r of Inl (Throw s) \<Rightarrow> Inl (Throw (f s)) | _ \<Rightarrow> r)"

definition catch_with :: "'a \<Rightarrow> 'a result \<Rightarrow> 'a result" where
  "catch_with d r = (case r of Inl (Throw _) \<Rightarrow> Inr d | _ \<Rightarrow> r)"

lemma rethrow_Inr_iff [simp]: "rethrow f r = Inr x \<longleftrightarrow> r = Inr x"
  by (cases r) (auto simp: rethrow_def split: failure.splits)

end
