(* ===== verification/Qdrant_Sink.thy ===== *)
theory Qdrant_Sink
  imports Pg_Embedding_Sink Json_Library
begin

text \<open>
  The Qdrant sink of \<^verbatim>\<open>src/src/qdrant_sink.cpp\<close>, which talks REST
  through the HTTP client. The passes of \<^verbatim>\<open>call_batch\<close> are the class's own
  copies in the source and here; that they agree with those of the pgvector sink is proved,
  not assumed.
\<close>

record QdrantSinkConfig =
  qdrant_url :: string
  qdrant_api_key :: string
  qdrant_collection :: string
  qdrant_mappings :: "TableMapping list"

record QdrantSink =
  qdrant_config :: QdrantSinkConfig
  qdrant_http :: HttpClient
  qdrant_headers :: "string list"

definition qdrant_namespace :: "u8 list" where
  "qdrant_namespace = [0xbd, 0x18, 0x03, 0x45, 0xc3, 0xdb, 0x46, 0x86,
                       0x86, 0x5f, 0xd7, 0x0b, 0x69, 0x49, 0xd8, 0xe1]"

text \<open>\<open>handle\<close>: whether \<^verbatim>\<open>curl_easy_init\<close> gave the client a handle.\<close>

definition new_QdrantSink :: "QdrantSinkConfig \<Rightarrow> bool \<Rightarrow> QdrantSink" where
  "new_QdrantSink cfg handle =
     \<lparr>qdrant_config = cfg, qdrant_http = \<lparr>curl_handle = handle, timeout_secs = 30\<rparr>,
      qdrant_headers = (if qdrant_api_key cfg = [] then [] else [''api-key: '' @ qdrant_api_key cfg])\<rparr>"

definition qdrant_key :: "TableMapping \<Rightarrow> string \<Rightarrow> string" where
  "qdrant_key tm source_id =
     (if has_discriminator tm then discriminator_label tm @ '':'' @ source_id else source_id)"

definition point_id_for :: "libuuid \<Rightarrow> TableMapping \<Rightarrow> string \<Rightarrow> string" where
  "point_id_for lib tm source_id =
     uuid_unparse_lower lib (uuid_generate_sha1 lib qdrant_namespace (qdrant_key tm source_id))"

section \<open>Reading rows and preparing actions\<close>

fun qdrant_column_text :: "ColumnValue list \<Rightarrow> string \<Rightarrow> string" where
  "qdrant_column_text [] n = []"
| "qdrant_column_text (col # cols) n =
     (if cv_name col = n then (if is_null col \<or> is_unchanged_toast col then [] else text_value col)
      else qdrant_column_text cols n)"

definition qdrant_get_column :: "DecodedRow \<Rightarrow> string \<Rightarrow> string" where
  "qdrant_get_column row n = qdrant_column_text (columns row) n"

definition qdrant_is_toast :: "DecodedRow \<Rightarrow> string \<Rightarrow> bool" where
  "qdrant_is_toast row n =
     (case find (\<lambda>col. cv_name col = n) (columns row) of None \<Rightarrow> False | Some col \<Rightarrow> is_unchanged_toast col)"

definition qdrant_prepare_upsert :: "TableMapping \<Rightarrow> ChangeEvent \<Rightarrow> BatchEvent option" where
  "qdrant_prepare_upsert tm event =
     (case new_row event of
        None \<Rightarrow> None
      | Some row \<Rightarrow>
          let idv = qdrant_get_column row (id_source tm); emb = qdrant_get_column row (embed_source tm) in
          if op event = Update \<and> qdrant_is_toast row (embed_source tm) then None
          else if op event = Update \<and>
                  (case old_row event of None \<Rightarrow> False
                   | Some old \<Rightarrow> qdrant_get_column old (embed_source tm) \<noteq> [] \<and>
                                 qdrant_get_column old (embed_source tm) = emb) then None
          else if idv = [] \<or> emb = [] then None
          else Some \<lparr>kind = KindUpsert, be_tm = tm, id_val = idv, embed_val = emb,
                     meta_vals = map (\<lambda>m. qdrant_get_column row (source_column m)) (metadata_columns tm)\<rparr>)"

text \<open>Pass 1 of \<^verbatim>\<open>call_batch\<close>: one event, then all of them.\<close>

definition qdrant_collect_event :: "TableMapping list \<Rightarrow> ChangeEvent \<Rightarrow> Batch" where
  "qdrant_collect_event ms event =
     (if op event = Commit then []
      else case find (\<lambda>m. source_table m = table_name event) ms of
        None \<Rightarrow> []
      | Some tm \<Rightarrow>
          (case op event of
             Insert \<Rightarrow> (case qdrant_prepare_upsert tm event of None \<Rightarrow> [] | Some be \<Rightarrow> [be])
           | Update \<Rightarrow> (case qdrant_prepare_upsert tm event of None \<Rightarrow> [] | Some be \<Rightarrow> [be])
           | Delete \<Rightarrow>
               (case old_row event of
                  None \<Rightarrow> []
                | Some old \<Rightarrow>
                    if qdrant_get_column old (id_source tm) = [] then []
                    else [\<lparr>kind = KindDelete, be_tm = tm, id_val = qdrant_get_column old (id_source tm),
                           embed_val = [], meta_vals = []\<rparr>])
           | Truncate \<Rightarrow> [\<lparr>kind = KindTruncate, be_tm = tm, id_val = [], embed_val = [], meta_vals = []\<rparr>]
           | Commit \<Rightarrow> []))"

fun qdrant_collect :: "TableMapping list \<Rightarrow> ChangeEvent list \<Rightarrow> Batch" where
  "qdrant_collect ms [] = []"
| "qdrant_collect ms (e # es) = qdrant_collect_event ms e @ qdrant_collect ms es"

section \<open>Writing\<close>

definition collection_url :: "QdrantSink \<Rightarrow> string" where
  "collection_url s = qdrant_url (qdrant_config s) @ ''/collections/'' @ qdrant_collection (qdrant_config s)"

definition http_ok :: "HttpResponse \<Rightarrow> bool" where
  "http_ok resp \<longleftrightarrow> curl_ok resp \<and> status_code resp div 100 = 2"

text \<open>The metadata loop; \<^verbatim>\<open>metadata_values.at(mi++)\<close> throws past the end.\<close>

fun set_metadata :: "ColumnMapping list \<Rightarrow> string list \<Rightarrow> (string \<times> json) list \<Rightarrow> (string \<times> json) list result" where
  "set_metadata [] vals ob = Inr ob"
| "set_metadata (m # ms) vals ob =
     (if role m = ''metadata'' then
        (case vals of
           [] \<Rightarrow> Inl (Throw ''vector::_M_range_check'')
         | v # vs \<Rightarrow> set_metadata ms vs (obj_set (sink_column m) (JStr v) ob))
      else set_metadata ms vals ob)"

definition qdrant_payload :: "TableMapping \<Rightarrow> string \<Rightarrow> string \<Rightarrow> string list \<Rightarrow> (string \<times> json) list result" where
  "qdrant_payload tm idv emb metas =
     (let p1 = obj_set (id_sink tm) (JStr idv) [];
          p2 = (if has_discriminator tm then obj_set (discriminator_sink tm) (JStr (discriminator_label tm)) p1
                else p1);
          p3 = obj_set (embed_sink tm) (JStr emb) p2
      in set_metadata (tm_columns tm) metas p3)"

definition qdrant_upsert ::
  "'w rest_env \<Rightarrow> QdrantSink \<Rightarrow> TableMapping \<Rightarrow> string \<Rightarrow> string \<Rightarrow> string list \<Rightarrow> vec \<Rightarrow> 'w \<Rightarrow> 'w \<times> bool result" where
  "qdrant_upsert env s tm idv emb metas v w =
     (case bindE (qdrant_payload tm idv emb metas) (\<lambda>payload.
             j_dump (re_json env) (JObj [(''points'', JArr [JObj
               [(''id'', JStr (point_id_for (re_uuid env) tm idv)),
                (''vector'', json_floats v),
                (''payload'', JObj payload)]])])) of
        Inl e \<Rightarrow> (w, Inl e)
      | Inr txt \<Rightarrow>
          (case put_json (re_curl env) (qdrant_http s) (collection_url s @ ''/points?wait=true'') txt
                  (qdrant_headers s) w of
             (w', resp) \<Rightarrow> (w', Inr (http_ok resp))))"

definition qdrant_delete ::
  "'w rest_env \<Rightarrow> QdrantSink \<Rightarrow> json \<Rightarrow> 'w \<Rightarrow> 'w \<times> bool result" where
  "qdrant_delete env s j w =
     (case j_dump (re_json env) j of
        Inl e \<Rightarrow> (w, Inl e)
      | Inr txt \<Rightarrow>
          (case post_json (re_curl env) (qdrant_http s) (collection_url s @ ''/points/delete?wait=true'') txt
                  (qdrant_headers s) w of
             (w', resp) \<Rightarrow> (w', Inr (http_ok resp))))"

definition qdrant_remove :: "'w rest_env \<Rightarrow> QdrantSink \<Rightarrow> TableMapping \<Rightarrow> string \<Rightarrow> 'w \<Rightarrow> 'w \<times> bool result" where
  "qdrant_remove env s tm idv =
     qdrant_delete env s (JObj [(''points'', JArr [JStr (point_id_for (re_uuid env) tm idv)])])"

definition qdrant_truncate :: "'w rest_env \<Rightarrow> QdrantSink \<Rightarrow> TableMapping \<Rightarrow> 'w \<Rightarrow> 'w \<times> bool result" where
  "qdrant_truncate env s tm =
     qdrant_delete env s (JObj [(''filter'',
       if has_discriminator tm then
         JObj [(''must'', JArr [JObj [(''key'', JStr (discriminator_sink tm)),
                                      (''match'', JObj [(''value'', JStr (discriminator_label tm))])]])]
       else JNull)])"

text \<open>
  Pass 2: the actions in order. The result of a write is ignored, an exception ends the loop.
  Reading \<^verbatim>\<open>vectors[vec_idx++]\<close> past the end is an unchecked read.
\<close>

fun qdrant_apply :: "'w rest_env \<Rightarrow> QdrantSink \<Rightarrow> Batch \<Rightarrow> vec list \<Rightarrow> 'w \<Rightarrow> 'w \<times> failure option" where
  "qdrant_apply env s [] vs w = (w, None)"
| "qdrant_apply env s (be # b) vs w =
     (case kind be of
        KindUpsert \<Rightarrow>
          (case vs of
             [] \<Rightarrow> (w, Some OutOfBounds)
           | v # vs' \<Rightarrow>
               if v = [] then qdrant_apply env s b vs' w
               else (case qdrant_upsert env s (be_tm be) (id_val be) (embed_val be) (meta_vals be) v w of
                       (w', Inl e) \<Rightarrow> (w', Some e)
                     | (w', Inr _) \<Rightarrow> qdrant_apply env s b vs' w'))
      | KindDelete \<Rightarrow>
          (case qdrant_remove env s (be_tm be) (id_val be) w of
             (w', Inl e) \<Rightarrow> (w', Some e) | (w', Inr _) \<Rightarrow> qdrant_apply env s b vs w')
      | KindTruncate \<Rightarrow>
          (case qdrant_truncate env s (be_tm be) w of
             (w', Inl e) \<Rightarrow> (w', Some e) | (w', Inr _) \<Rightarrow> qdrant_apply env s b vs w'))"

definition qdrant_call_batch ::
  "'w rest_env \<Rightarrow> QdrantSink \<Rightarrow> 'p embedder \<Rightarrow> ChangeEvent list \<Rightarrow> 'p \<times> 'w \<Rightarrow> ('p \<times> 'w) \<times> failure option" where
  "qdrant_call_batch env s emb events = (\<lambda>(p, w).
     (let batch = qdrant_collect (qdrant_mappings (qdrant_config s)) events in
      if batch = [] then ((p, w), None)
      else
        let texts = batch_texts batch in
        if texts = [] then (case qdrant_apply env s batch [] w of (w', r) \<Rightarrow> ((p, w'), r))
        else (case emb p texts of
                (p', Inl e) \<Rightarrow> ((p', w), Some e)
              | (p', Inr vectors) \<Rightarrow>
                  if length vectors \<noteq> length texts then ((p', w), None)
                  else (case qdrant_apply env s batch vectors w of (w', r) \<Rightarrow> ((p', w'), r)))))"

definition qdrant_call ::
  "'w rest_env \<Rightarrow> QdrantSink \<Rightarrow> 'p embedder \<Rightarrow> ChangeEvent \<Rightarrow> 'p \<times> 'w \<Rightarrow> ('p \<times> 'w) \<times> failure option" where
  "qdrant_call env s emb event = qdrant_call_batch env s emb [event]"

section \<open>Start-up\<close>

definition qdrant_init :: "'w rest_env \<Rightarrow> QdrantSink \<Rightarrow> int \<Rightarrow> 'w \<Rightarrow> 'w \<times> unit result" where
  "qdrant_init env s provider_dims w =
     (let url = qdrant_url (qdrant_config s); coll = qdrant_collection (qdrant_config s) in
      case get_json (re_curl env) (qdrant_http s) (collection_url s) (qdrant_headers s) w of
        (w', resp) \<Rightarrow>
          (w',
           if \<not> curl_ok resp then
             Inl (Throw (''QdrantSink: failed to reach '' @ url @ '': '' @ curl_error resp))
           else if status_code resp = 404 then
             Inl (Throw (''QdrantSink: collection '' @ squote coll @ '' does not exist at '' @ url @ '' '' @
                         em_dash @ '' create it first (walkrie does not auto-create collections)''))
           else if status_code resp \<noteq> 200 then
             Inl (Throw (''QdrantSink: unexpected response checking collection '' @ squote coll @
                         '' (HTTP '' @ show_int (status_code resp) @ ''): '' @ body resp))
           else
             bindE (rethrow (\<lambda>what. ''QdrantSink: couldn't read vector size from collection '' @ squote coll @
                               '' '' @ em_dash @ '' named/multi-vector collections aren't supported yet: '' @ what)
                     (bindE (j_parse (re_json env) (body resp)) (\<lambda>j.
                      bindE (json_path [''result'', ''config'', ''params'', ''vectors'', ''size''] j)
                        (j_get_int (re_json env)))))
               (\<lambda>collection_dims.
                  if collection_dims \<noteq> provider_dims then
                    Inl (Throw (''QdrantSink: collection '' @ squote coll @ '' vector size ('' @
                                show_int collection_dims @ '') does not match the embedding provider's '' @
                                show_int provider_dims @ '' dimensions''))
                  else Inr ())))"

section \<open>The sink as a batch sink\<close>

lemma qdrant_column_text_eq: "qdrant_column_text cols n = pg_column_text cols n"
  by (induction cols) simp_all

lemma qdrant_row_access_eq: "qdrant_get_column = pg_get_column" "qdrant_is_toast = pg_is_toast"
  by (simp_all add: fun_eq_iff qdrant_get_column_def pg_get_column_def qdrant_column_text_eq
      qdrant_is_toast_def pg_is_toast_def)

lemma qdrant_prepare_upsert_eq: "qdrant_prepare_upsert = pg_prepare_upsert"
  unfolding fun_eq_iff qdrant_prepare_upsert_def pg_prepare_upsert_def qdrant_row_access_eq by simp

lemma qdrant_collect_event_eq: "qdrant_collect_event = pg_collect_event"
  unfolding fun_eq_iff qdrant_collect_event_def pg_collect_event_def qdrant_row_access_eq qdrant_prepare_upsert_eq
  by simp

lemma qdrant_collect_eq: "qdrant_collect ms evs = pg_collect ms evs"
  by (induction evs) (simp_all add: qdrant_collect_event_eq)

interpretation qds: batch_sink
  "qdrant_collect (qdrant_mappings (qdrant_config s))" "qdrant_apply env s" "qdrant_call_batch env s"
  "qdrant_upsert env s" "qdrant_remove env s" "qdrant_truncate env s"
  for s :: QdrantSink and env :: "'w rest_env"
  by unfold_locales
     (auto simp: qdrant_collect_eq pg_collect_append qdrant_call_batch_def outcome_def Let_def
       split: prod.splits sum.splits)

section \<open>Properties\<close>

text \<open>
  C31. A batch acts on Qdrant as its events would one after the other in their original order,
  up to the first exception, for a provider that embeds each text by itself; the reported
  outcome is the outcome of that sequence.
\<close>

theorem qdrant_call_batch_in_order:
  assumes "okp p" "\<And>p ts. okp p \<Longrightarrow> \<exists>p'. okp p' \<and> emb p ts = (p', Inr (map f ts))"
  shows "\<exists>p'. okp p' \<and> qdrant_call_batch env s emb evs (p, w) =
    (case run_all (\<lambda>e. run_all (action_effect (qdrant_upsert env s) (qdrant_remove env s) (qdrant_truncate env s) f)
             (qdrant_collect_event (qdrant_mappings (qdrant_config s)) e)) evs w of
       (w', r) \<Rightarrow> ((p', w'), r))"
  using qds.call_batch_eventwise [of okp p emb f env s evs w] assms
  by (auto simp: events_effect_def split: prod.splits)

text \<open>Samples: a library that serialises to fixed texts and a server that records its requests.\<close>

definition sample_json :: json_lib where
  "sample_json = \<lparr>j_dump = (\<lambda>j. Inr (case j of JObj ((k, _) # _) \<Rightarrow> k | _ \<Rightarrow> [])),
     j_parse = (\<lambda>s. if s = ''ok'' then Inr (JObj [(''code'', JInt 0)]) else Inl (Throw ''parse error'')),
     j_get_int = (\<lambda>j. case j of JInt i \<Rightarrow> Inr i | _ \<Rightarrow> Inl (Throw ''type error'')),
     j_get_size = (\<lambda>j. case j of JInt i \<Rightarrow> Inr (nat i) | _ \<Rightarrow> Inl (Throw ''type error'')),
     j_get_floats = (\<lambda>j. case j of JArr xs \<Rightarrow> Inr (map (\<lambda>x. case x of JFloat f \<Rightarrow> f | _ \<Rightarrow> 0) xs)
                       | _ \<Rightarrow> Inl (Throw ''type error''))\<rparr>"

definition recording_env :: "(HttpMethod \<times> string) list rest_env" where
  "recording_env = \<lparr>re_curl = (\<lambda>w rq. (w @ [(rq_method rq, rq_url rq)], CurlOk 200 ''ok'')),
     re_json = sample_json,
     re_uuid = \<lparr>uuid_generate_sha1 = (\<lambda>ns k. take 16 (bytes_of_string k @ ns)),
                uuid_unparse_lower = string_of_bytes\<rparr>\<rparr>"

definition items_qdrant :: QdrantSink where
  "items_qdrant = new_QdrantSink \<lparr>qdrant_url = ''http://q'', qdrant_api_key = ''k'',
     qdrant_collection = ''c'', qdrant_mappings = [items_mapping]\<rparr> True"

theorem qdrant_call_batch_in_order_witness:
  "\<exists>p' :: unit. True \<and> qdrant_call_batch recording_env items_qdrant
      (\<lambda>p ts. (p, Inr (map (\<lambda>_. [0x3F800000]) ts))) items_events ((), []) =
    ((p', [(HttpPut, ''http://q/collections/c/points?wait=true''),
           (HttpPost, ''http://q/collections/c/points/delete?wait=true'')]), None)"
  using qdrant_call_batch_in_order [of "\<lambda>_ :: unit. True" "()" "\<lambda>p ts. (p, Inr (map (\<lambda>_. [0x3F800000]) ts))"
      "\<lambda>_. [0x3F800000]" recording_env items_qdrant items_events "[]"]
  by (simp add: items_events_def items_qdrant_def new_QdrantSink_def qdrant_collect_event_def qdrant_prepare_upsert_def
      new_event_def items_row_def qdrant_get_column_def action_effect_def recording_env_def qdrant_upsert_def
      qdrant_payload_def qdrant_remove_def qdrant_delete_def collection_url_def outcome_def sample_json_def
      put_json_def post_json_def http_perform_def items_mapping_def resolve_columns_def empty_mapping_def
      metadata_columns_def Let_def)

text \<open>The key of a mapping's row, and when two rows share one.\<close>

lemma colon_split_unique:
  assumes "a @ '':'' @ b = c @ '':'' @ d" "CHR '':'' \<notin> set a" "CHR '':'' \<notin> set c"
  shows "a = c \<and> b = d"
  using assms
proof (induction a arbitrary: c)
  case Nil
  then show ?case by (cases c) auto
next
  case (Cons x a)
  then show ?case by (cases c) auto
qed

text \<open>
  Rows of mappings with discriminators get different point keys as long as no label
  contains a colon: equal keys come from equal labels and equal source ids.
\<close>

theorem qdrant_key_inj:
  assumes "has_discriminator tm" "has_discriminator tm'"
    and "CHR '':'' \<notin> set (discriminator_label tm)" "CHR '':'' \<notin> set (discriminator_label tm')"
  shows "qdrant_key tm i = qdrant_key tm' i' \<longleftrightarrow>
     discriminator_label tm = discriminator_label tm' \<and> i = i'"
  using colon_split_unique [of "discriminator_label tm" i "discriminator_label tm'" i'] assms
  by (auto simp: qdrant_key_def)

theorem qdrant_key_inj_witness:
  "qdrant_key (empty_mapping\<lparr>has_discriminator := True, discriminator_label := ''a''\<rparr>) ''1'' \<noteq>
   qdrant_key (empty_mapping\<lparr>has_discriminator := True, discriminator_label := ''b''\<rparr>) ''1''"
  using qdrant_key_inj [of "empty_mapping\<lparr>has_discriminator := True, discriminator_label := ''a''\<rparr>"
      "empty_mapping\<lparr>has_discriminator := True, discriminator_label := ''b''\<rparr>" "''1''" "''1''"]
  by (simp add: empty_mapping_def)

text \<open>
  With a colon in a label two rows of different mappings share one point: the row with id
  \<open>b:1\<close> under label \<open>a\<close> and the row with id \<open>1\<close> under label
  \<open>a:b\<close> have the same point id whatever the hash is.
\<close>

theorem qdrant_point_collision:
  "point_id_for lib (empty_mapping\<lparr>has_discriminator := True, discriminator_label := ''a''\<rparr>) ''b:1'' =
   point_id_for lib (empty_mapping\<lparr>has_discriminator := True, discriminator_label := ''a:b''\<rparr>) ''1''"
  by (simp add: point_id_for_def qdrant_key_def empty_mapping_def)

end
