(* ===== verification/Milvus_Sink.thy ===== *)
theory Milvus_Sink
  imports Qdrant_Sink
begin

text \<open>
  The Milvus sink of \<^verbatim>\<open>src/src/milvus_sink.cpp\<close>. Its
  \<^verbatim>\<open>init\<close> discovers the primary key and vector fields of the collection;
  ids are hashed, as text or as a non-negative 64-bit integer.
\<close>

record MilvusSinkConfig =
  milvus_url :: string
  milvus_token :: string
  milvus_db_name :: string
  milvus_collection :: string
  milvus_mappings :: "TableMapping list"

record MilvusSink =
  milvus_config :: MilvusSinkConfig
  milvus_http :: HttpClient
  milvus_headers :: "string list"
  pk_field :: string
  pk_is_varchar :: bool
  vector_field :: string

definition milvus_namespace :: "u8 list" where
  "milvus_namespace = [0x4a, 0xe0, 0x9f, 0x2c, 0x1b, 0x77, 0x4d, 0x63,
                       0x9b, 0x2e, 0x6d, 0x0c, 0x5a, 0x8f, 0x31, 0x77]"

definition new_MilvusSink :: "MilvusSinkConfig \<Rightarrow> bool \<Rightarrow> MilvusSink" where
  "new_MilvusSink cfg handle =
     \<lparr>milvus_config = cfg, milvus_http = \<lparr>curl_handle = handle, timeout_secs = 30\<rparr>,
      milvus_headers = (if milvus_token cfg = [] then [] else [''Authorization: Bearer '' @ milvus_token cfg]),
      pk_field = [], pk_is_varchar = False, vector_field = []\<rparr>"

definition composite_key :: "TableMapping \<Rightarrow> string \<Rightarrow> string" where
  "composite_key tm source_id =
     (if has_discriminator tm then discriminator_label tm @ '':'' @ source_id else source_id)"

definition uuid5_for :: "libuuid \<Rightarrow> string \<Rightarrow> string" where
  "uuid5_for lib k = uuid_unparse_lower lib (uuid_generate_sha1 lib milvus_namespace k)"

text \<open>\<^verbatim>\<open>memcpy\<close> of eight bytes into a little-endian integer.\<close>

definition le_nat :: "u8 list \<Rightarrow> nat" where
  "le_nat bs = foldr (\<lambda>b v. v * 256 + unat b) bs 0"

definition int64_id_for :: "libuuid \<Rightarrow> string \<Rightarrow> int" where
  "int64_id_for lib k =
     uint ((word_of_nat (le_nat (take 8 (uuid_generate_sha1 lib milvus_namespace k))) :: u64)
           AND 0x7FFFFFFFFFFFFFFF)"

section \<open>Reading rows and preparing actions\<close>

fun milvus_column_text :: "ColumnValue list \<Rightarrow> string \<Rightarrow> string" where
  "milvus_column_text [] n = []"
| "milvus_column_text (col # cols) n =
     (if cv_name col = n then (if is_null col \<or> is_unchanged_toast col then [] else text_value col)
      else milvus_column_text cols n)"

definition milvus_get_column :: "DecodedRow \<Rightarrow> string \<Rightarrow> string" where
  "milvus_get_column row n = milvus_column_text (columns row) n"

definition milvus_is_toast :: "DecodedRow \<Rightarrow> string \<Rightarrow> bool" where
  "milvus_is_toast row n =
     (case find (\<lambda>col. cv_name col = n) (columns row) of None \<Rightarrow> False | Some col \<Rightarrow> is_unchanged_toast col)"

definition milvus_prepare_upsert :: "TableMapping \<Rightarrow> ChangeEvent \<Rightarrow> BatchEvent option" where
  "milvus_prepare_upsert tm event =
     (case new_row event of
        None \<Rightarrow> None
      | Some row \<Rightarrow>
          let idv = milvus_get_column row (id_source tm); emb = milvus_get_column row (embed_source tm) in
          if op event = Update \<and> milvus_is_toast row (embed_source tm) then None
          else if op event = Update \<and>
                  (case old_row event of None \<Rightarrow> False
                   | Some old \<Rightarrow> milvus_get_column old (embed_source tm) \<noteq> [] \<and>
                                 milvus_get_column old (embed_source tm) = emb) then None
          else if idv = [] \<or> emb = [] then None
          else Some \<lparr>kind = KindUpsert, be_tm = tm, id_val = idv, embed_val = emb,
                     meta_vals = map (\<lambda>m. milvus_get_column row (source_column m)) (metadata_columns tm)\<rparr>)"

text \<open>Pass 1 of \<^verbatim>\<open>call_batch\<close>: one event, then all of them.\<close>

definition milvus_collect_event :: "TableMapping list \<Rightarrow> ChangeEvent \<Rightarrow> Batch" where
  "milvus_collect_event ms event =
     (if op event = Commit then []
      else case find (\<lambda>m. source_table m = table_name event) ms of
        None \<Rightarrow> []
      | Some tm \<Rightarrow>
          (case op event of
             Insert \<Rightarrow> (case milvus_prepare_upsert tm event of None \<Rightarrow> [] | Some be \<Rightarrow> [be])
           | Update \<Rightarrow> (case milvus_prepare_upsert tm event of None \<Rightarrow> [] | Some be \<Rightarrow> [be])
           | Delete \<Rightarrow>
               (case old_row event of
                  None \<Rightarrow> []
                | Some old \<Rightarrow>
                    if milvus_get_column old (id_source tm) = [] then []
                    else [\<lparr>kind = KindDelete, be_tm = tm, id_val = milvus_get_column old (id_source tm),
                           embed_val = [], meta_vals = []\<rparr>])
           | Truncate \<Rightarrow> [\<lparr>kind = KindTruncate, be_tm = tm, id_val = [], embed_val = [], meta_vals = []\<rparr>]
           | Commit \<Rightarrow> []))"

fun milvus_collect :: "TableMapping list \<Rightarrow> ChangeEvent list \<Rightarrow> Batch" where
  "milvus_collect ms [] = []"
| "milvus_collect ms (e # es) = milvus_collect_event ms e @ milvus_collect ms es"

section \<open>Writing\<close>

definition milvus_target :: "MilvusSink \<Rightarrow> (string \<times> json) list" where
  "milvus_target s =
     (''collectionName'', JStr (milvus_collection (milvus_config s))) #
     (if milvus_db_name (milvus_config s) = [] then []
      else [(''dbName'', JStr (milvus_db_name (milvus_config s)))])"

definition milvus_post ::
  "'w rest_env \<Rightarrow> MilvusSink \<Rightarrow> string \<Rightarrow> json \<Rightarrow> 'w \<Rightarrow> 'w \<times> bool result" where
  "milvus_post env s endpoint j w =
     (case j_dump (re_json env) j of
        Inl e \<Rightarrow> (w, Inl e)
      | Inr txt \<Rightarrow>
          (case post_json (re_curl env) (milvus_http s) (milvus_url (milvus_config s) @ endpoint) txt
                  (milvus_headers s) w of
             (w', resp) \<Rightarrow>
               (w', if curl_ok resp \<and> status_code resp = 200 then
                      catch_with False
                        (bindE (j_parse (re_json env) (body resp)) (\<lambda>r.
                         bindE (json_at ''code'' r) (\<lambda>c.
                         bindE (j_get_int (re_json env) c) (\<lambda>code. Inr (code = 0)))))
                    else Inr False)))"

definition milvus_fixed_fields ::
  "libuuid \<Rightarrow> MilvusSink \<Rightarrow> TableMapping \<Rightarrow> string \<Rightarrow> string \<Rightarrow> vec \<Rightarrow> (string \<times> json) list" where
  "milvus_fixed_fields lib s tm idv emb v =
     (let k = composite_key tm idv;
          e1 = obj_set (pk_field s)
                 (if pk_is_varchar s then JStr (uuid5_for lib k) else JInt (int64_id_for lib k)) [];
          e2 = obj_set (vector_field s) (json_floats v) e1;
          e3 = obj_set (id_sink tm) (JStr idv) e2;
          e4 = obj_set (embed_sink tm) (JStr emb) e3
      in if has_discriminator tm then obj_set (discriminator_sink tm) (JStr (discriminator_label tm)) e4 else e4)"

definition milvus_entity ::
  "libuuid \<Rightarrow> MilvusSink \<Rightarrow> TableMapping \<Rightarrow> string \<Rightarrow> string \<Rightarrow> string list \<Rightarrow> vec \<Rightarrow> (string \<times> json) list result" where
  "milvus_entity lib s tm idv emb metas v =
     set_metadata (tm_columns tm) metas (milvus_fixed_fields lib s tm idv emb v)"

definition milvus_upsert ::
  "'w rest_env \<Rightarrow> MilvusSink \<Rightarrow> TableMapping \<Rightarrow> string \<Rightarrow> string \<Rightarrow> string list \<Rightarrow> vec \<Rightarrow> 'w \<Rightarrow> 'w \<times> bool result" where
  "milvus_upsert env s tm idv emb metas v w =
     (case milvus_entity (re_uuid env) s tm idv emb metas v of
        Inl e \<Rightarrow> (w, Inl e)
      | Inr entity \<Rightarrow>
          milvus_post env s ''/v2/vectordb/entities/upsert''
            (JObj (milvus_target s @ [(''data'', JArr [JObj entity])])) w)"

definition id_literal :: "libuuid \<Rightarrow> MilvusSink \<Rightarrow> TableMapping \<Rightarrow> string \<Rightarrow> string" where
  "id_literal lib s tm idv =
     (let k = composite_key tm idv in
      if pk_is_varchar s then [CHR 0x22] @ uuid5_for lib k @ [CHR 0x22] else show_int (int64_id_for lib k))"

definition milvus_remove :: "'w rest_env \<Rightarrow> MilvusSink \<Rightarrow> TableMapping \<Rightarrow> string \<Rightarrow> 'w \<Rightarrow> 'w \<times> bool result" where
  "milvus_remove env s tm idv =
     milvus_post env s ''/v2/vectordb/entities/delete''
       (JObj (milvus_target s @ [(''filter'', JStr (pk_field s @ '' == '' @ id_literal (re_uuid env) s tm idv))]))"

definition milvus_truncate :: "'w rest_env \<Rightarrow> MilvusSink \<Rightarrow> TableMapping \<Rightarrow> 'w \<Rightarrow> 'w \<times> bool result" where
  "milvus_truncate env s tm =
     milvus_post env s ''/v2/vectordb/entities/delete''
       (JObj (milvus_target s @ [(''filter'', JStr
          (if has_discriminator tm then
             discriminator_sink tm @ '' == '' @ [CHR 0x22] @ discriminator_label tm @ [CHR 0x22]
           else if pk_is_varchar s then pk_field s @ '' like '' @ [CHR 0x22] @ ''%'' @ [CHR 0x22]
           else pk_field s @ '' >= -9223372036854775808''))]))"

text \<open>
  Pass 2: the actions in order. The result of a write is ignored, an exception ends the loop.
  Reading \<^verbatim>\<open>vectors[vec_idx++]\<close> past the end is an unchecked read.
\<close>

fun milvus_apply :: "'w rest_env \<Rightarrow> MilvusSink \<Rightarrow> Batch \<Rightarrow> vec list \<Rightarrow> 'w \<Rightarrow> 'w \<times> failure option" where
  "milvus_apply env s [] vs w = (w, None)"
| "milvus_apply env s (be # b) vs w =
     (case kind be of
        KindUpsert \<Rightarrow>
          (case vs of
             [] \<Rightarrow> (w, Some OutOfBounds)
           | v # vs' \<Rightarrow>
               if v = [] then milvus_apply env s b vs' w
               else (case milvus_upsert env s (be_tm be) (id_val be) (embed_val be) (meta_vals be) v w of
                       (w', Inl e) \<Rightarrow> (w', Some e)
                     | (w', Inr _) \<Rightarrow> milvus_apply env s b vs' w'))
      | KindDelete \<Rightarrow>
          (case milvus_remove env s (be_tm be) (id_val be) w of
             (w', Inl e) \<Rightarrow> (w', Some e) | (w', Inr _) \<Rightarrow> milvus_apply env s b vs w')
      | KindTruncate \<Rightarrow>
          (case milvus_truncate env s (be_tm be) w of
             (w', Inl e) \<Rightarrow> (w', Some e) | (w', Inr _) \<Rightarrow> milvus_apply env s b vs w'))"

definition milvus_call_batch ::
  "'w rest_env \<Rightarrow> MilvusSink \<Rightarrow> 'p embedder \<Rightarrow> ChangeEvent list \<Rightarrow> 'p \<times> 'w \<Rightarrow> ('p \<times> 'w) \<times> failure option" where
  "milvus_call_batch env s emb events = (\<lambda>(p, w).
     (let batch = milvus_collect (milvus_mappings (milvus_config s)) events in
      if batch = [] then ((p, w), None)
      else
        let texts = batch_texts batch in
        if texts = [] then (case milvus_apply env s batch [] w of (w', r) \<Rightarrow> ((p, w'), r))
        else (case emb p texts of
                (p', Inl e) \<Rightarrow> ((p', w), Some e)
              | (p', Inr vectors) \<Rightarrow>
                  if length vectors \<noteq> length texts then ((p', w), None)
                  else (case milvus_apply env s batch vectors w of (w', r) \<Rightarrow> ((p', w'), r)))))"

definition milvus_call ::
  "'w rest_env \<Rightarrow> MilvusSink \<Rightarrow> 'p embedder \<Rightarrow> ChangeEvent \<Rightarrow> 'p \<times> 'w \<Rightarrow> ('p \<times> 'w) \<times> failure option" where
  "milvus_call env s emb event = milvus_call_batch env s emb [event]"

section \<open>Start-up\<close>

fun milvus_dim_param :: "json list \<Rightarrow> int \<Rightarrow> int result" where
  "milvus_dim_param [] dims = Inr dims"
| "milvus_dim_param (p # ps) dims =
     bindE (bindE (json_at ''key'' p) json_get_string) (\<lambda>k.
       if k = ''dim'' then
         bindE (bindE (bindE (json_at ''value'' p) json_get_string) stoi) (milvus_dim_param ps)
       else milvus_dim_param ps dims)"

definition milvus_note_key :: "json \<Rightarrow> MilvusSink \<Rightarrow> MilvusSink result" where
  "milvus_note_key f s =
     bindE (json_value_bool ''primaryKey'' False f) (\<lambda>is_pk.
       if is_pk then
         bindE (bindE (json_at ''name'' f) json_get_string) (\<lambda>n.
         bindE (bindE (json_at ''type'' f) json_get_string) (\<lambda>t.
           Inr (s\<lparr>pk_field := n, pk_is_varchar := (t = ''VarChar'')\<rparr>)))
       else Inr s)"

definition milvus_note_vector :: "json \<Rightarrow> MilvusSink \<Rightarrow> int \<Rightarrow> (MilvusSink \<times> int) result" where
  "milvus_note_vector f s dims =
     bindE (bindE (json_at ''type'' f) json_get_string) (\<lambda>t.
       if t = ''FloatVector'' then
         bindE (bindE (json_at ''name'' f) json_get_string) (\<lambda>n.
         bindE (json_at ''params'' f) (\<lambda>ps.
         bindE (milvus_dim_param (json_elements ps) dims) (\<lambda>dims1.
           Inr (s\<lparr>vector_field := n\<rparr>, dims1))))
       else Inr (s, dims))"

fun milvus_scan_fields :: "json list \<Rightarrow> MilvusSink \<Rightarrow> int \<Rightarrow> (MilvusSink \<times> int) result" where
  "milvus_scan_fields [] s dims = Inr (s, dims)"
| "milvus_scan_fields (f # fs) s dims =
     bindE (milvus_note_key f s) (\<lambda>s1.
     bindE (milvus_note_vector f s1 dims) (\<lambda>(s2, dims2). milvus_scan_fields fs s2 dims2))"

fun milvus_check_mappings :: "MilvusSink \<Rightarrow> TableMapping list \<Rightarrow> unit result" where
  "milvus_check_mappings s [] = Inr ()"
| "milvus_check_mappings s (tm # tms) =
     (if id_sink tm = pk_field s \<or> id_sink tm = vector_field s then
        Inl (Throw (''MilvusSink: table_mapping for '' @ squote (source_table tm) @
             '' has id role sink_column='' @ squote (id_sink tm) @ '' which collides with collection '' @
             squote (milvus_collection (milvus_config s)) @ ''s auto-populated pk/vector field '' @ em_dash @
             '' pick a distinct scalar field to hold the readable source id''))
      else if embed_sink tm = pk_field s \<or> embed_sink tm = vector_field s then
        Inl (Throw (''MilvusSink: table_mapping for '' @ squote (source_table tm) @
             '' has embed role sink_column='' @ squote (embed_sink tm) @ '' which collides with collection '' @
             squote (milvus_collection (milvus_config s)) @ ''s auto-populated pk/vector field '' @ em_dash @
             '' pick a distinct scalar field to hold the source text''))
      else milvus_check_mappings s tms)"

text \<open>What \<^verbatim>\<open>init\<close> does with the answer to the describe request.\<close>

definition milvus_read_schema :: "json_lib \<Rightarrow> MilvusSink \<Rightarrow> int \<Rightarrow> HttpResponse \<Rightarrow> MilvusSink result" where
  "milvus_read_schema lib s provider_dims resp =
     (let coll = milvus_collection (milvus_config s) in
      bindE (rethrow (\<lambda>what. ''MilvusSink: couldn't parse describe-collection response: '' @ what)
              (j_parse lib (body resp))) (\<lambda>j.
      bindE (bindE (json_at ''code'' j) (j_get_int lib)) (\<lambda>code.
        if code \<noteq> 0 then
          bindE (json_value_string ''message'' [] j) (\<lambda>msg.
            Inl (Throw (''MilvusSink: collection '' @ squote coll @ '' does not exist at '' @
              milvus_url (milvus_config s) @ '' ('' @ msg @ '') '' @ em_dash @
              '' create it first (walkrie does not auto-create collections)'')))
        else
          bindE (json_path [''data'', ''fields''] j) (\<lambda>fields.
          bindE (milvus_scan_fields (json_elements fields) s (-1)) (\<lambda>(s1, collection_dims).
            if pk_field s1 = [] then
              Inl (Throw (''MilvusSink: couldn't find a primary key field on collection '' @ squote coll))
            else if vector_field s1 = [] \<or> collection_dims < 0 then
              Inl (Throw (''MilvusSink: couldn't find a FloatVector field with a dim param on collection '' @
                   squote coll @ '' '' @ em_dash @ '' named/multi-vector collections aren't supported yet''))
            else if collection_dims \<noteq> provider_dims then
              Inl (Throw (''MilvusSink: collection '' @ squote coll @ '' vector field '' @ squote (vector_field s1) @
                   '' dim ('' @ show_int collection_dims @ '') does not match the embedding provider's '' @
                   show_int provider_dims @ '' dimensions''))
            else bindE (milvus_check_mappings s1 (milvus_mappings (milvus_config s1))) (\<lambda>_. Inr s1))))))"

definition milvus_init :: "'w rest_env \<Rightarrow> MilvusSink \<Rightarrow> int \<Rightarrow> 'w \<Rightarrow> 'w \<times> MilvusSink result" where
  "milvus_init env s provider_dims w =
     (let url = milvus_url (milvus_config s); coll = milvus_collection (milvus_config s) in
      case j_dump (re_json env) (JObj (milvus_target s)) of
        Inl e \<Rightarrow> (w, Inl e)
      | Inr txt \<Rightarrow>
          (case post_json (re_curl env) (milvus_http s) (url @ ''/v2/vectordb/collections/describe'') txt
                  (milvus_headers s) w of
             (w', resp) \<Rightarrow>
               (w',
                if \<not> curl_ok resp then
                  Inl (Throw (''MilvusSink: failed to reach '' @ url @ '': '' @ curl_error resp))
                else if status_code resp \<noteq> 200 then
                  Inl (Throw (''MilvusSink: unexpected response checking collection '' @ squote coll @
                       '' (HTTP '' @ show_int (status_code resp) @ ''): '' @ body resp))
                else milvus_read_schema (re_json env) s provider_dims resp)))"

section \<open>The sink as a batch sink\<close>

lemma milvus_column_text_eq: "milvus_column_text cols n = pg_column_text cols n"
  by (induction cols) simp_all

lemma milvus_row_access_eq: "milvus_get_column = pg_get_column" "milvus_is_toast = pg_is_toast"
  by (simp_all add: fun_eq_iff milvus_get_column_def pg_get_column_def milvus_column_text_eq
      milvus_is_toast_def pg_is_toast_def)

lemma milvus_prepare_upsert_eq: "milvus_prepare_upsert = pg_prepare_upsert"
  unfolding fun_eq_iff milvus_prepare_upsert_def pg_prepare_upsert_def milvus_row_access_eq by simp

lemma milvus_collect_event_eq: "milvus_collect_event = pg_collect_event"
  unfolding fun_eq_iff milvus_collect_event_def pg_collect_event_def milvus_row_access_eq milvus_prepare_upsert_eq
  by simp

lemma milvus_collect_eq: "milvus_collect ms evs = pg_collect ms evs"
  by (induction evs) (simp_all add: milvus_collect_event_eq)

interpretation mvs: batch_sink
  "milvus_collect (milvus_mappings (milvus_config s))" "milvus_apply env s" "milvus_call_batch env s"
  "milvus_upsert env s" "milvus_remove env s" "milvus_truncate env s"
  for s :: MilvusSink and env :: "'w rest_env"
  by unfold_locales
     (auto simp: milvus_collect_eq pg_collect_append milvus_call_batch_def outcome_def Let_def
       split: prod.splits sum.splits)

section \<open>Properties\<close>

text \<open>
  C32. A batch acts on Milvus as its events would one after the other in their original order,
  up to the first exception, for a provider that embeds each text by itself; the reported
  outcome is the outcome of that sequence.
\<close>

theorem milvus_call_batch_in_order:
  assumes "okp p" "\<And>p ts. okp p \<Longrightarrow> \<exists>p'. okp p' \<and> emb p ts = (p', Inr (map f ts))"
  shows "\<exists>p'. okp p' \<and> milvus_call_batch env s emb evs (p, w) =
    (case run_all (\<lambda>e. run_all (action_effect (milvus_upsert env s) (milvus_remove env s) (milvus_truncate env s) f)
             (milvus_collect_event (milvus_mappings (milvus_config s)) e)) evs w of
       (w', r) \<Rightarrow> ((p', w'), r))"
  using mvs.call_batch_eventwise [of okp p emb f env s evs w] assms
  by (auto simp: events_effect_def split: prod.splits)

definition items_milvus :: MilvusSink where
  "items_milvus = (new_MilvusSink \<lparr>milvus_url = ''http://m'', milvus_token = [], milvus_db_name = [],
     milvus_collection = ''c'', milvus_mappings = [items_mapping]\<rparr> True)
     \<lparr>pk_field := ''pk'', pk_is_varchar := True, vector_field := ''vec''\<rparr>"

theorem milvus_call_batch_in_order_witness:
  "\<exists>p' :: unit. True \<and> milvus_call_batch recording_env items_milvus
      (\<lambda>p ts. (p, Inr (map (\<lambda>_. [0x3F800000]) ts))) items_events ((), []) =
    ((p', [(HttpPost, ''http://m/v2/vectordb/entities/upsert''),
           (HttpPost, ''http://m/v2/vectordb/entities/delete'')]), None)"
  using milvus_call_batch_in_order [of "\<lambda>_ :: unit. True" "()" "\<lambda>p ts. (p, Inr (map (\<lambda>_. [0x3F800000]) ts))"
      "\<lambda>_. [0x3F800000]" recording_env items_milvus items_events "[]"]
  by (simp add: items_events_def items_milvus_def new_MilvusSink_def milvus_collect_event_def milvus_prepare_upsert_def
      new_event_def items_row_def milvus_get_column_def action_effect_def recording_env_def milvus_upsert_def
      milvus_entity_def milvus_fixed_fields_def milvus_remove_def milvus_post_def milvus_target_def outcome_def sample_json_def
      post_json_def http_perform_def items_mapping_def resolve_columns_def empty_mapping_def json_at_def
      catch_with_def metadata_columns_def Let_def)

lemma milvus_note_config:
  "milvus_note_key f s = Inr s' \<Longrightarrow> milvus_config s' = milvus_config s"
  "milvus_note_vector f s d = Inr (s', d') \<Longrightarrow> milvus_config s' = milvus_config s"
  by (auto simp: milvus_note_key_def milvus_note_vector_def bindE_Inr_iff split: if_splits)

lemma milvus_scan_fields_config: "milvus_scan_fields fs s d = Inr (s', d') \<Longrightarrow> milvus_config s' = milvus_config s"
proof (induction fs arbitrary: s d)
  case Nil
  then show ?case by simp
next
  case (Cons f fs)
  then obtain s1 s2 d2 where "milvus_note_key f s = Inr s1" "milvus_note_vector f s1 d = Inr (s2, d2)"
    "milvus_scan_fields fs s2 d2 = Inr (s', d')"
    by (auto simp: bindE_Inr_iff)
  then show ?case using Cons.IH [of s2 d2] milvus_note_config by metis
qed

lemma milvus_check_mappings_ok:
  "milvus_check_mappings s tms = Inr () \<longleftrightarrow>
     (\<forall>tm \<in> set tms. {id_sink tm, embed_sink tm} \<inter> {pk_field s, vector_field s} = {})"
  by (induction tms) auto

lemma milvus_init_scanned:
  assumes "milvus_init env s dims w = (w', Inr s')"
  shows "\<exists>fs. milvus_scan_fields fs s (-1) = Inr (s', dims)" "pk_field s' \<noteq> []" "vector_field s' \<noteq> []"
    "milvus_check_mappings s' (milvus_mappings (milvus_config s')) = Inr ()"
  using assms
  by (auto simp: milvus_init_def milvus_read_schema_def Let_def bindE_Inr_iff split: sum.splits prod.splits if_splits)

lemma milvus_init_no_collision:
  assumes "milvus_init env s dims w = (w', Inr s')" "tm \<in> set (milvus_mappings (milvus_config s))"
  shows "{id_sink tm, embed_sink tm} \<inter> {pk_field s', vector_field s'} = {}"
proof -
  have "milvus_config s' = milvus_config s"
    using milvus_init_scanned(1) [OF assms(1)] by (blast dest: milvus_scan_fields_config)
  then show ?thesis
    using milvus_init_scanned(4) [OF assms(1)] assms(2) unfolding milvus_check_mappings_ok by simp
qed

text \<open>
  A sink that came up has a primary key and a vector field that no mapping's id or text
  column collides with, and keeps its configuration.
\<close>

theorem milvus_init_ok:
  assumes "milvus_init env s dims w = (w', Inr s')"
  shows "pk_field s' \<noteq> [] \<and> vector_field s' \<noteq> [] \<and> milvus_config s' = milvus_config s
    \<and> (\<forall>tm \<in> set (milvus_mappings (milvus_config s)).
         {id_sink tm, embed_sink tm} \<inter> {pk_field s', vector_field s'} = {})"
  using milvus_init_scanned [OF assms] milvus_init_no_collision [OF assms]
  by (blast dest: milvus_scan_fields_config)

text \<open>A server whose collection has a text key \<open>pk\<close> and a one-dimensional vector.\<close>

definition schema_json :: json where
  "schema_json = JObj [(''code'', JInt 0), (''data'', JObj [(''fields'', JArr
     [JObj [(''name'', JStr ''pk''), (''type'', JStr ''VarChar''), (''primaryKey'', JBool True)],
      JObj [(''name'', JStr ''vec''), (''type'', JStr ''FloatVector''),
            (''params'', JArr [JObj [(''key'', JStr ''dim''), (''value'', JStr ''1'')]])]])])]"

definition schema_env :: "(HttpMethod \<times> string) list rest_env" where
  "schema_env = recording_env\<lparr>re_json := sample_json\<lparr>j_parse := (\<lambda>_. Inr schema_json)\<rparr>\<rparr>"

lemma schema_init:
  "milvus_init schema_env (items_milvus\<lparr>pk_field := [], pk_is_varchar := False, vector_field := []\<rparr>) 1 [] =
     ([(HttpPost, ''http://m/v2/vectordb/collections/describe'')], Inr items_milvus)"
  by (simp add: milvus_init_def schema_env_def recording_env_def sample_json_def schema_json_def items_milvus_def
      new_MilvusSink_def milvus_target_def post_json_def http_perform_def milvus_read_schema_def rethrow_def
      json_at_def json_value_bool_def json_get_string_def milvus_note_key_def milvus_note_vector_def
      stoi_def strtol_def c_str_def is_space_def
      is_digit_def digits_value_def Let_def)

theorem milvus_init_ok_witness:
  "pk_field items_milvus \<noteq> [] \<and> vector_field items_milvus \<noteq> []
   \<and> {id_sink items_mapping, embed_sink items_mapping} \<inter> {pk_field items_milvus, vector_field items_milvus} = {}"
  using milvus_init_ok [OF schema_init] by (simp add: items_milvus_def new_MilvusSink_def)

lemma set_metadata_keep:
  assumes "set_metadata ms vals ob = Inr ob'" "\<forall>m \<in> set ms. role m = ''metadata'' \<longrightarrow> sink_column m \<noteq> k"
  shows "map_of ob' k = map_of ob k"
  using assms
proof (induction ms vals ob rule: set_metadata.induct)
  case (2 m ms vals ob)
  then show ?case by (auto split: if_splits list.splits)
qed simp

text \<open>
  The record an initialised sink writes is stored under the hashed id of its row and
  carries its vector, provided that neither the discriminator nor a metadata column uses the
  key or vector field, which start-up does not check.
\<close>

theorem milvus_entity_id_and_vector:
  assumes init: "milvus_init env s0 dims w = (w', Inr s)" and tm: "tm \<in> set (milvus_mappings (milvus_config s0))"
    and e: "milvus_entity lib s tm idv emb metas v = Inr ob" and "pk_field s \<noteq> vector_field s"
    and meta: "\<forall>m \<in> set (tm_columns tm). role m = ''metadata'' \<longrightarrow> sink_column m \<notin> {pk_field s, vector_field s}"
    and disc: "has_discriminator tm \<Longrightarrow> discriminator_sink tm \<notin> {pk_field s, vector_field s}"
  shows "map_of ob (pk_field s) = Some (if pk_is_varchar s then JStr (uuid5_for lib (composite_key tm idv))
                                        else JInt (int64_id_for lib (composite_key tm idv)))
    \<and> map_of ob (vector_field s) = Some (json_floats v)"
proof -
  have ne: "id_sink tm \<noteq> pk_field s" "id_sink tm \<noteq> vector_field s"
      "embed_sink tm \<noteq> pk_field s" "embed_sink tm \<noteq> vector_field s"
    using milvus_init_no_collision [OF init tm] by auto
  have dne: "discriminator_sink tm \<noteq> pk_field s" "discriminator_sink tm \<noteq> vector_field s" if "has_discriminator tm"
    using disc [OF that] by simp_all
  have "map_of (milvus_fixed_fields lib s tm idv emb v) (pk_field s) =
      Some (if pk_is_varchar s then JStr (uuid5_for lib (composite_key tm idv))
            else JInt (int64_id_for lib (composite_key tm idv)))"
    "map_of (milvus_fixed_fields lib s tm idv emb v) (vector_field s) = Some (json_floats v)"
    using assms(4) ne ne [symmetric] dne dne [symmetric]
    by (cases "has_discriminator tm"; simp add: milvus_fixed_fields_def Let_def)+
  moreover have "map_of ob k = map_of (milvus_fixed_fields lib s tm idv emb v) k"
    if "k \<in> {pk_field s, vector_field s}" for k
    using meta that by (intro set_metadata_keep [OF e [unfolded milvus_entity_def]]) auto
  ultimately show ?thesis by simp
qed

theorem milvus_entity_id_and_vector_witness:
  "let ob = [(''pk'', JStr (uuid5_for (re_uuid recording_env) ''7'')), (''vec'', json_floats [1]), (''item_id'', JStr ''7''),
             (''text'', JStr ''ab''), (''lang'', JStr ''en'')]
   in milvus_entity (re_uuid recording_env) items_milvus items_mapping ''7'' ''ab'' [''en''] [1] = Inr ob
      \<and> map_of ob ''pk'' = Some (JStr (uuid5_for (re_uuid recording_env) ''7'')) \<and> map_of ob ''vec'' = Some (json_floats [1])"
proof -
  let ?ob = "[(''pk'', JStr (uuid5_for (re_uuid recording_env) ''7'')), (''vec'', json_floats [1]), (''item_id'', JStr ''7''),
             (''text'', JStr ''ab''), (''lang'', JStr ''en'')]"
  have e: "milvus_entity (re_uuid recording_env) items_milvus items_mapping ''7'' ''ab'' [''en''] [1] = Inr ?ob"
    by (simp add: milvus_entity_def milvus_fixed_fields_def items_milvus_def composite_key_def items_mapping_def resolve_columns_def
        empty_mapping_def new_MilvusSink_def Let_def)
  then have "map_of ?ob (pk_field items_milvus) = Some (if pk_is_varchar items_milvus
        then JStr (uuid5_for (re_uuid recording_env) (composite_key items_mapping ''7''))
        else JInt (int64_id_for (re_uuid recording_env) (composite_key items_mapping ''7'')))
    \<and> map_of ?ob (vector_field items_milvus) = Some (json_floats [1])"
    by (rule milvus_entity_id_and_vector [OF schema_init, rotated])
       (auto simp: items_milvus_def new_MilvusSink_def items_mapping_def resolve_columns_def empty_mapping_def)
  with e show ?thesis by (simp add: items_milvus_def composite_key_def)
qed

text \<open>
  A metadata column that is mapped onto the primary key field passes start-up and then
  replaces the hashed id: the record is stored under the metadata value.
\<close>

theorem milvus_metadata_overwrites_key:
  "let tm = items_mapping\<lparr>tm_columns := [\<lparr>source_column = ''lang'', sink_column = ''pk'', role = ''metadata''\<rparr>]\<rparr>;
       s = items_milvus\<lparr>milvus_config := (milvus_config items_milvus)\<lparr>milvus_mappings := [tm]\<rparr>\<rparr>
   in snd (milvus_init schema_env s 1 []) = Inr s
      \<and> milvus_entity lib s tm ''7'' ''ab'' [''en''] [1] =
        Inr [(''pk'', JStr ''en''), (''vec'', json_floats [1]), (''item_id'', JStr ''7''), (''text'', JStr ''ab'')]"
  by (simp add: milvus_init_def schema_env_def recording_env_def sample_json_def schema_json_def items_milvus_def
      new_MilvusSink_def milvus_target_def post_json_def http_perform_def milvus_read_schema_def rethrow_def
      json_at_def json_value_bool_def json_get_string_def milvus_note_key_def milvus_note_vector_def
      stoi_def strtol_def c_str_def is_space_def
      is_digit_def digits_value_def milvus_entity_def milvus_fixed_fields_def Let_def)

text \<open>
  An integer id is a non-negative 64-bit signed integer whatever the hash is: the low
  eight bytes of the hash without the sign bit.
\<close>

theorem int64_id_for_range:
  "0 \<le> int64_id_for lib k \<and> int64_id_for lib k < 2 ^ 63
   \<and> int64_id_for lib k = int (le_nat (take 8 (uuid_generate_sha1 lib milvus_namespace k)) mod 2 ^ 63)"
proof -
  let ?n = "le_nat (take 8 (uuid_generate_sha1 lib milvus_namespace k))"
  have m: "(0x7FFFFFFFFFFFFFFF :: u64) = mask 63" by (simp add: mask_eq_exp_minus_1)
  have "uint ((word_of_nat ?n :: u64) AND mask 63) = int ?n mod 2 ^ 64 mod 2 ^ 63"
    by (simp only: take_bit_eq_mask [symmetric] unsigned_take_bit_eq)
       (simp add: take_bit_eq_mod unsigned_of_nat zmod_int)
  also have "\<dots> = int ?n mod 2 ^ 63"
    by (rule mod_mod_cancel) simp
  finally show ?thesis
    by (simp add: int64_id_for_def m zmod_int)
qed

end
