(* ===== verification/Sink_Configuration.thy ===== *)
theory Sink_Configuration
  imports Milvus_Sink
begin

text \<open>
  Sink blocks of the configuration file: TLS settings
  (\<^verbatim>\<open>TlsConfig\<close> in \<^verbatim>\<open>src/src/config.hpp\<close>) and the
  four \<^verbatim>\<open>*sink_configuration.cpp\<close>, from the parsed TOML table to a running
  sink, and the JSON output sink. A parsed TOML document is a tree; the parser itself is a
  parameter of \<^verbatim>\<open>load_config\<close>. The file system answers through
  \<open>fs_env\<close>.
\<close>

datatype toml =
    TStr string
  | TInt int
  | TFloat u64
  | TBool bool
  | TArr "toml list"
  | TTab "(string \<times> toml) list"

type_synonym toml_table = "(string \<times> toml) list"

definition str_or :: "toml_table \<Rightarrow> string \<Rightarrow> string \<Rightarrow> string" where
  "str_or t k d = (case map_of t k of Some (TStr s) \<Rightarrow> s | _ \<Rightarrow> d)"

definition bool_of :: "toml_table \<Rightarrow> string \<Rightarrow> bool option" where
  "bool_of t k = (case map_of t k of Some (TBool b) \<Rightarrow> Some b | _ \<Rightarrow> None)"

definition array_of :: "toml_table \<Rightarrow> string \<Rightarrow> toml list option" where
  "array_of t k = (case map_of t k of Some (TArr xs) \<Rightarrow> Some xs | _ \<Rightarrow> None)"

record fs_env =
  fs_exists :: "string \<Rightarrow> bool"
  fs_is_regular :: "string \<Rightarrow> bool"
  fs_readable :: "string \<Rightarrow> bool"
  fs_file_size :: "string \<Rightarrow> nat"

section \<open>TLS\<close>

record TlsConfig =
  sslmode :: string
  sslrootcert :: string
  sslcert :: string
  sslkey :: string
  sslpassword :: string

definition no_tls :: TlsConfig where
  "no_tls = \<lparr>sslmode = [], sslrootcert = [], sslcert = [], sslkey = [], sslpassword = []\<rparr>"

definition tls_load_from_toml :: "toml_table \<Rightarrow> TlsConfig \<Rightarrow> TlsConfig" where
  "tls_load_from_toml t c =
     \<lparr>sslmode = str_or t ''sslmode'' (sslmode c), sslrootcert = str_or t ''sslrootcert'' (sslrootcert c),
      sslcert = str_or t ''sslcert'' (sslcert c), sslkey = str_or t ''sslkey'' (sslkey c),
      sslpassword = str_or t ''sslpassword'' (sslpassword c)\<rparr>"

definition to_conninfo_fragment :: "TlsConfig \<Rightarrow> string" where
  "to_conninfo_fragment c =
     (if sslmode c = [] then [] else '' sslmode='' @ sslmode c) @
     (if sslrootcert c = [] then [] else '' sslrootcert='' @ sslrootcert c) @
     (if sslcert c = [] then [] else '' sslcert='' @ sslcert c) @
     (if sslkey c = [] then [] else '' sslkey='' @ sslkey c) @
     (if sslpassword c = [] then [] else '' sslpassword='' @ sslpassword c)"

definition check_file :: "fs_env \<Rightarrow> string \<Rightarrow> string \<Rightarrow> string \<Rightarrow> string list" where
  "check_file fs context path field =
     (if path = [] then []
      else if \<not> fs_exists fs path then [context @ '' '' @ field @ '' does not exist: '' @ squote path]
      else if \<not> fs_is_regular fs path then
        [context @ '' '' @ field @ '' exists but is not a regular file: '' @ squote path]
      else if \<not> fs_readable fs path then
        [context @ '' '' @ field @ '' exists but is not readable by the current user: '' @ squote path]
      else [])"

definition tls_valid_modes :: "string list" where
  "tls_valid_modes = [''disable'', ''allow'', ''prefer'', ''require'', ''verify-ca'', ''verify-full'']"

definition tls_validate :: "fs_env \<Rightarrow> string \<Rightarrow> TlsConfig \<Rightarrow> string list" where
  "tls_validate fs context c =
     (if sslmode c \<noteq> [] \<and> sslmode c \<notin> set tls_valid_modes then
        [context @ '' sslmode must be one of: disable, allow, prefer, require, verify-ca, verify-full'']
      else []) @
     (if (sslcert c = []) \<noteq> (sslkey c = []) then
        [context @ '' sslcert and sslkey must both be set together for client certificate authentication (or both left empty)'']
      else []) @
     check_file fs context (sslrootcert c) ''sslrootcert'' @
     check_file fs context (sslcert c) ''sslcert'' @
     check_file fs context (sslkey c) ''sslkey''"

section \<open>Table mappings\<close>

definition load_column :: "toml \<Rightarrow> ColumnMapping" where
  "load_column elem =
     (case elem of
        TTab c \<Rightarrow> \<lparr>source_column = str_or c ''source_column'' [], sink_column = str_or c ''sink_column'' [],
                   role = str_or c ''role'' []\<rparr>
      | _ \<Rightarrow> \<lparr>source_column = [], sink_column = [], role = []\<rparr>)"

definition load_columns :: "toml_table \<Rightarrow> ColumnMapping list" where
  "load_columns tbl =
     (case array_of tbl ''columns'' of
        None \<Rightarrow> []
      | Some xs \<Rightarrow> filter (\<lambda>m. source_column m \<noteq> [] \<and> role m \<noteq> []) (map load_column xs))"

definition load_table_mapping :: "toml \<Rightarrow> TableMapping" where
  "load_table_mapping elem =
     (case elem of
        TTab t \<Rightarrow>
          let disc_col = str_or t ''discriminator_column'' [];
              disc_lbl = str_or t ''discriminator_label'' [];
              tm1 = empty_mapping\<lparr>source_table := str_or t ''source_table'' []\<rparr>;
              tm2 = (if disc_col = [] then tm1
                     else tm1\<lparr>has_discriminator := True, discriminator_sink := disc_col,
                              discriminator_label := disc_lbl\<rparr>)
          in resolve_columns (tm2\<lparr>tm_columns := load_columns t\<rparr>)
      | _ \<Rightarrow> empty_mapping)"

definition load_table_mappings :: "toml_table \<Rightarrow> TableMapping list" where
  "load_table_mappings t =
     (case array_of t ''table_mapping'' of
        None \<Rightarrow> []
      | Some xs \<Rightarrow> filter (\<lambda>tm. source_table tm \<noteq> []) (map load_table_mapping xs))"

definition mapping_label :: "TableMapping \<Rightarrow> string" where
  "mapping_label tm = ''[sink.table_mapping:'' @ source_table tm @ '']''"

definition validate_mapping :: "TableMapping \<Rightarrow> string list" where
  "validate_mapping tm =
     (if source_table tm = [] then [''[sink.table_mapping] source_table is required''] else []) @
     (if id_source tm = [] then [mapping_label tm @ '' needs a mapping with role='' @ squote ''id''] else []) @
     (if embed_source tm = [] then [mapping_label tm @ '' needs a mapping with role='' @ squote ''embed''] else []) @
     (if has_discriminator tm \<and> discriminator_label tm = [] then
        [mapping_label tm @ '' discriminator_column is set but discriminator_label is empty''] else [])"

section \<open>The four kinds of sink\<close>

record PgSinkConfiguration =
  pgc_host :: string
  pgc_port :: string
  pgc_dbname :: string
  pgc_user :: string
  pgc_password :: string
  pgc_table :: string
  pgc_embedding_column :: string
  pgc_table_mappings :: "TableMapping list"
  pgc_tls :: TlsConfig
  pgc_required_override :: "bool option"

record QdrantSinkConfiguration =
  qdc_url :: string
  qdc_api_key :: string
  qdc_collection :: string
  qdc_table_mappings :: "TableMapping list"
  qdc_required_override :: "bool option"

record MilvusSinkConfiguration =
  mvc_url :: string
  mvc_token :: string
  mvc_db_name :: string
  mvc_collection :: string
  mvc_table_mappings :: "TableMapping list"
  mvc_required_override :: "bool option"

record JsonSinkConfiguration =
  jsc_output_target :: string
  jsc_required_override :: "bool option"

datatype SinkConfiguration =
    PgConf PgSinkConfiguration
  | JsonConf JsonSinkConfiguration
  | QdrantConf QdrantSinkConfiguration
  | MilvusConf MilvusSinkConfiguration

definition override_with :: "toml_table \<Rightarrow> bool option \<Rightarrow> bool option" where
  "override_with t r = (case bool_of t ''required'' of Some b \<Rightarrow> Some b | None \<Rightarrow> r)"

definition pgc_load_from_config :: "toml_table \<Rightarrow> PgSinkConfiguration \<Rightarrow> PgSinkConfiguration" where
  "pgc_load_from_config t c =
     c\<lparr>pgc_host := str_or t ''host'' (pgc_host c), pgc_port := str_or t ''port'' (pgc_port c),
       pgc_dbname := str_or t ''dbname'' (pgc_dbname c), pgc_user := str_or t ''user'' (pgc_user c),
       pgc_password := str_or t ''password'' (pgc_password c), pgc_table := str_or t ''table'' (pgc_table c),
       pgc_embedding_column := str_or t ''embed_column'' (pgc_embedding_column c),
       pgc_tls := tls_load_from_toml t (pgc_tls c),
       pgc_required_override := override_with t (pgc_required_override c),
       pgc_table_mappings := pgc_table_mappings c @ load_table_mappings t\<rparr>"

definition pgc_validate :: "fs_env \<Rightarrow> PgSinkConfiguration \<Rightarrow> string list" where
  "pgc_validate fs c =
     (if pgc_dbname c = [] then [''[sink] dbname is required''] else []) @
     (if pgc_user c = [] then [''[sink] user is required''] else []) @
     (if pgc_table c = [] then [''[sink] table is required''] else []) @
     (if pgc_embedding_column c = [] then [''[sink] embedding column is required''] else []) @
     (if pgc_table_mappings c = [] then [''[sink] at least one [[sink.table_mapping]] block is required''] else []) @
     tls_validate fs ''[sink]'' (pgc_tls c) @
     concat (map validate_mapping (pgc_table_mappings c))"

definition pgc_sink_config :: "PgSinkConfiguration \<Rightarrow> PgEmbeddingSinkConfig" where
  "pgc_sink_config c =
     \<lparr>pg_conninfo = ''host='' @ pgc_host c @ '' port='' @ pgc_port c @ '' dbname='' @ pgc_dbname c @
        '' user='' @ pgc_user c @ '' password='' @ pgc_password c @ to_conninfo_fragment (pgc_tls c),
      pg_sink_table = pgc_table c, pg_sink_column = pgc_embedding_column c,
      pg_mappings = pgc_table_mappings c\<rparr>"

definition pgc_create_sink ::
  "'w libpq \<Rightarrow> PgSinkConfiguration \<Rightarrow> int \<Rightarrow> 'w \<Rightarrow> 'w \<times> PgEmbeddingSink result" where
  "pgc_create_sink pq c dims w = pg_init pq (pgc_sink_config c) dims w"

definition qdc_load_from_config :: "toml_table \<Rightarrow> QdrantSinkConfiguration \<Rightarrow> QdrantSinkConfiguration" where
  "qdc_load_from_config t c =
     c\<lparr>qdc_url := str_or t ''url'' (qdc_url c), qdc_api_key := str_or t ''api_key'' (qdc_api_key c),
       qdc_collection := str_or t ''collection'' (qdc_collection c),
       qdc_required_override := override_with t (qdc_required_override c),
       qdc_table_mappings := qdc_table_mappings c @ load_table_mappings t\<rparr>"

definition qdc_validate :: "QdrantSinkConfiguration \<Rightarrow> string list" where
  "qdc_validate c =
     (if qdc_url c = [] then [''[sink] url is required''] else []) @
     (if qdc_collection c = [] then [''[sink] collection is required''] else []) @
     (if qdc_table_mappings c = [] then [''[sink] at least one [[sink.table_mapping]] block is required''] else []) @
     concat (map validate_mapping (qdc_table_mappings c))"

definition qdc_create_sink ::
  "'w rest_env \<Rightarrow> bool \<Rightarrow> QdrantSinkConfiguration \<Rightarrow> int \<Rightarrow> 'w \<Rightarrow> 'w \<times> QdrantSink result" where
  "qdc_create_sink env handle c dims w =
     (let s = new_QdrantSink \<lparr>qdrant_url = qdc_url c, qdrant_api_key = qdc_api_key c,
                qdrant_collection = qdc_collection c, qdrant_mappings = qdc_table_mappings c\<rparr> handle
      in case qdrant_init env s dims w of (w', Inl e) \<Rightarrow> (w', Inl e) | (w', Inr _) \<Rightarrow> (w', Inr s))"

definition mvc_load_from_config :: "toml_table \<Rightarrow> MilvusSinkConfiguration \<Rightarrow> MilvusSinkConfiguration" where
  "mvc_load_from_config t c =
     c\<lparr>mvc_url := str_or t ''url'' (mvc_url c), mvc_token := str_or t ''token'' (mvc_token c),
       mvc_db_name := str_or t ''db_name'' (mvc_db_name c),
       mvc_collection := str_or t ''collection'' (mvc_collection c),
       mvc_required_override := override_with t (mvc_required_override c),
       mvc_table_mappings := mvc_table_mappings c @ load_table_mappings t\<rparr>"

definition mvc_validate :: "MilvusSinkConfiguration \<Rightarrow> string list" where
  "mvc_validate c =
     (if mvc_url c = [] then [''[sink] url is required''] else []) @
     (if mvc_collection c = [] then [''[sink] collection is required''] else []) @
     (if mvc_table_mappings c = [] then [''[sink] at least one [[sink.table_mapping]] block is required''] else []) @
     concat (map validate_mapping (mvc_table_mappings c))"

definition mvc_create_sink ::
  "'w rest_env \<Rightarrow> bool \<Rightarrow> MilvusSinkConfiguration \<Rightarrow> int \<Rightarrow> 'w \<Rightarrow> 'w \<times> MilvusSink result" where
  "mvc_create_sink env handle c dims w =
     milvus_init env (new_MilvusSink \<lparr>milvus_url = mvc_url c, milvus_token = mvc_token c,
        milvus_db_name = mvc_db_name c, milvus_collection = mvc_collection c,
        milvus_mappings = mvc_table_mappings c\<rparr> handle) dims w"

definition jsc_load_from_config :: "toml_table \<Rightarrow> JsonSinkConfiguration \<Rightarrow> JsonSinkConfiguration" where
  "jsc_load_from_config t c =
     c\<lparr>jsc_output_target := str_or t ''output_target'' (jsc_output_target c),
       jsc_required_override := override_with t (jsc_required_override c)\<rparr>"

definition instantiate_sink :: "string \<Rightarrow> SinkConfiguration result" where
  "instantiate_sink type =
     (if type = ''pgvector'' then
        Inr (PgConf \<lparr>pgc_host = ''localhost'', pgc_port = ''5432'', pgc_dbname = [], pgc_user = [],
               pgc_password = [], pgc_table = [], pgc_embedding_column = [], pgc_table_mappings = [],
               pgc_tls = no_tls, pgc_required_override = None\<rparr>)
      else if type = ''json-output'' then
        Inr (JsonConf \<lparr>jsc_output_target = ''stdout'', jsc_required_override = None\<rparr>)
      else if type = ''qdrant'' then
        Inr (QdrantConf \<lparr>qdc_url = ''http://localhost:6333'', qdc_api_key = [], qdc_collection = [],
               qdc_table_mappings = [], qdc_required_override = None\<rparr>)
      else if type = ''milvus'' then
        Inr (MilvusConf \<lparr>mvc_url = ''http://localhost:19530'', mvc_token = [], mvc_db_name = [],
               mvc_collection = [], mvc_table_mappings = [], mvc_required_override = None\<rparr>)
      else Inl (Throw (''make_sink: unknown sink type '' @ squote type @ '' '' @ em_dash @
                 '' valid values: '' @ squote ''pgvector'' @ '', '' @ squote ''json-output'' @ '', '' @
                 squote ''qdrant'' @ '', '' @ squote ''milvus'')))"

fun load_sink :: "toml_table \<Rightarrow> SinkConfiguration \<Rightarrow> SinkConfiguration" where
  "load_sink t (PgConf c) = PgConf (pgc_load_from_config t c)"
| "load_sink t (JsonConf c) = JsonConf (jsc_load_from_config t c)"
| "load_sink t (QdrantConf c) = QdrantConf (qdc_load_from_config t c)"
| "load_sink t (MilvusConf c) = MilvusConf (mvc_load_from_config t c)"

fun validate_sink :: "fs_env \<Rightarrow> SinkConfiguration \<Rightarrow> string list" where
  "validate_sink fs (PgConf c) = pgc_validate fs c"
| "validate_sink fs (JsonConf c) = []"
| "validate_sink fs (QdrantConf c) = qdc_validate c"
| "validate_sink fs (MilvusConf c) = mvc_validate c"

fun sink_mappings :: "SinkConfiguration \<Rightarrow> TableMapping list" where
  "sink_mappings (PgConf c) = pgc_table_mappings c"
| "sink_mappings (JsonConf c) = []"
| "sink_mappings (QdrantConf c) = qdc_table_mappings c"
| "sink_mappings (MilvusConf c) = mvc_table_mappings c"

fun needs_embedding_provider :: "SinkConfiguration \<Rightarrow> bool" where
  "needs_embedding_provider (JsonConf c) = False"
| "needs_embedding_provider _ = True"

fun required_override :: "SinkConfiguration \<Rightarrow> bool option" where
  "required_override (PgConf c) = pgc_required_override c"
| "required_override (JsonConf c) = jsc_required_override c"
| "required_override (QdrantConf c) = qdc_required_override c"
| "required_override (MilvusConf c) = mvc_required_override c"

fun default_required :: "SinkConfiguration \<Rightarrow> bool" where
  "default_required (JsonConf c) = False"
| "default_required _ = True"

section \<open>The JSON output sink\<close>

text \<open>
  \<open>emit target line\<close> appends a line to standard output or to the file; opening the file
  is a parameter too.
\<close>

record JsonSink =
  js_target :: string

definition new_JsonSink :: "(string \<Rightarrow> bool) \<Rightarrow> string \<Rightarrow> JsonSink result" where
  "new_JsonSink can_open target =
     (if target \<noteq> ''stdout'' \<and> target \<noteq> ''discard'' \<and> \<not> can_open target then
        Inl (Throw (''JsonSink: failed to open output file: '' @ target))
      else Inr \<lparr>js_target = target\<rparr>)"

definition json_call ::
  "(json \<Rightarrow> string result) \<Rightarrow> (string \<Rightarrow> string \<Rightarrow> 'w \<Rightarrow> 'w) \<Rightarrow> JsonSink \<Rightarrow> ChangeEvent \<Rightarrow> 'w \<Rightarrow> 'w \<times> failure option" where
  "json_call dump emit s event w =
     (case dump (event_to_json event) of
        Inl e \<Rightarrow> (w, Some e)
      | Inr line \<Rightarrow>
          if js_target s = ''discard'' then (w, None) else (emit (js_target s) (line @ [CHR 0x0A]) w, None))"

definition json_call_batch ::
  "(json \<Rightarrow> string result) \<Rightarrow> (string \<Rightarrow> string \<Rightarrow> 'w \<Rightarrow> 'w) \<Rightarrow> JsonSink \<Rightarrow> ChangeEvent list \<Rightarrow> 'w \<Rightarrow> 'w \<times> failure option" where
  "json_call_batch dump emit s = run_all (json_call dump emit s)"

section \<open>What validation guarantees\<close>

lemma check_file_ok:
  "check_file fs ctx path field = [] \<longleftrightarrow> path = [] \<or> (fs_exists fs path \<and> fs_is_regular fs path \<and> fs_readable fs path)"
  by (auto simp: check_file_def)

text \<open>
  TLS settings pass exactly when the mode is one of libpq's or left out, certificate and
  key come together, and every file that is named is a readable regular file.
\<close>

theorem tls_validate_ok:
  "tls_validate fs ctx c = [] \<longleftrightarrow>
     (sslmode c = [] \<or> sslmode c \<in> set tls_valid_modes)
   \<and> (sslcert c = [] \<longleftrightarrow> sslkey c = [])
   \<and> (\<forall>path \<in> {sslrootcert c, sslcert c, sslkey c} - {[]}.
        fs_exists fs path \<and> fs_is_regular fs path \<and> fs_readable fs path)"
  by (auto simp: tls_validate_def check_file_ok)

theorem tls_validate_ok_witness:
  "tls_validate \<lparr>fs_exists = (\<lambda>p. p = ''/ca''), fs_is_regular = (\<lambda>_. True), fs_readable = (\<lambda>_. True),
      fs_file_size = (\<lambda>_. 1)\<rparr> ''[sink]'' (no_tls\<lparr>sslmode := ''verify-full'', sslrootcert := ''/ca''\<rparr>) = []"
  by (subst tls_validate_ok) (auto simp: no_tls_def tls_valid_modes_def)

lemma validate_mapping_ok:
  "validate_mapping tm = [] \<longleftrightarrow> source_table tm \<noteq> [] \<and> id_source tm \<noteq> [] \<and> embed_source tm \<noteq> []
     \<and> (has_discriminator tm \<longrightarrow> discriminator_label tm \<noteq> [])"
  by (auto simp: validate_mapping_def)

lemma validate_sink_mappings:
  "validate_sink fs c = [] \<Longrightarrow> tm \<in> set (sink_mappings c) \<Longrightarrow> validate_mapping tm = []"
  by (cases c) (auto simp: pgc_validate_def qdc_validate_def mvc_validate_def)

lemma last_with_role_mem: "last_with_role r ms = Some m \<Longrightarrow> m \<in> set ms \<and> role m = r"
  by (induction ms) (auto simp: last_with_role_Cons last_with_role_def [of _ "[]"] split: option.splits if_splits)

lemma resolve_columns_mem:
  "id_source tm = [] \<Longrightarrow> id_source (resolve_columns tm) \<noteq> [] \<Longrightarrow> \<exists>m \<in> set (tm_columns tm). role m = ''id''
     \<and> source_column m = id_source (resolve_columns tm) \<and> sink_column m = id_sink (resolve_columns tm)"
  "embed_source tm = [] \<Longrightarrow> embed_source (resolve_columns tm) \<noteq> [] \<Longrightarrow> \<exists>m \<in> set (tm_columns tm). role m = ''embed''
     \<and> source_column m = embed_source (resolve_columns tm) \<and> sink_column m = embed_sink (resolve_columns tm)"
  by (auto simp: resolve_columns_def resolve_step_id resolve_step_embed split: option.splits
      dest: last_with_role_mem)

lemma load_table_mapping_form:
  "load_table_mapping e = empty_mapping \<or>
   (\<exists>tm. load_table_mapping e = resolve_columns tm \<and> id_source tm = [] \<and> embed_source tm = [])"
proof (cases e)
  case (TTab t)
  show ?thesis
  proof (rule disjI2, rule exI)
    let ?tm1 = "empty_mapping\<lparr>source_table := str_or t ''source_table'' []\<rparr>"
    let ?tm = "(if str_or t ''discriminator_column'' [] = [] then ?tm1
       else ?tm1\<lparr>has_discriminator := True, discriminator_sink := str_or t ''discriminator_column'' [],
              discriminator_label := str_or t ''discriminator_label'' []\<rparr>)\<lparr>tm_columns := load_columns t\<rparr>"
    show "load_table_mapping e = resolve_columns ?tm \<and> id_source ?tm = [] \<and> embed_source ?tm = []"
      by (simp add: TTab load_table_mapping_def Let_def empty_mapping_def)
  qed
qed (simp_all add: load_table_mapping_def)

lemma load_table_mapping_resolved:
  assumes "tm = load_table_mapping e"
  shows "id_source tm \<noteq> [] \<Longrightarrow> \<exists>m \<in> set (tm_columns tm). role m = ''id''
      \<and> source_column m = id_source tm \<and> sink_column m = id_sink tm"
    and "embed_source tm \<noteq> [] \<Longrightarrow> \<exists>m \<in> set (tm_columns tm). role m = ''embed''
      \<and> source_column m = embed_source tm \<and> sink_column m = embed_sink tm"
  using load_table_mapping_form [of e] resolve_columns_mem assms
  by (auto simp: empty_mapping_def resolve_columns_def resolve_step_fields)

lemma loaded_mapping:
  assumes "instantiate_sink type = Inr c" "tm \<in> set (sink_mappings (load_sink t c))"
  shows "\<exists>e. tm = load_table_mapping e"
proof -
  have "tm \<in> set (load_table_mappings t)"
    using assms by (auto simp: instantiate_sink_def pgc_load_from_config_def qdc_load_from_config_def
        mvc_load_from_config_def split: if_splits)
  then show ?thesis by (auto simp: load_table_mappings_def split: option.splits)
qed

text \<open>
  Every table mapping of a sink that was loaded from the configuration file and passed
  validation names its source table, has an id and a text column among its columns, and a
  label when it has a discriminator.
\<close>

theorem validated_sink_mapping:
  assumes "instantiate_sink type = Inr c" "validate_sink fs (load_sink t c) = []"
    and "tm \<in> set (sink_mappings (load_sink t c))"
  shows "source_table tm \<noteq> []
    \<and> (\<exists>m \<in> set (tm_columns tm). role m = ''id'' \<and> source_column m = id_source tm \<and> sink_column m = id_sink tm)
    \<and> (\<exists>m \<in> set (tm_columns tm). role m = ''embed'' \<and> source_column m = embed_source tm \<and> sink_column m = embed_sink tm)
    \<and> (has_discriminator tm \<longrightarrow> discriminator_label tm \<noteq> [])"
proof -
  have "validate_mapping tm = []" using validate_sink_mappings assms(2,3) .
  moreover obtain e where "tm = load_table_mapping e" using loaded_mapping assms(1,3) by blast
  ultimately show ?thesis
    using load_table_mapping_resolved [of tm e] by (simp add: validate_mapping_ok)
qed

definition sample_sink_toml :: toml_table where
  "sample_sink_toml = [(''type'', TStr ''qdrant''), (''collection'', TStr ''c''),
     (''table_mapping'', TArr [TTab [(''source_table'', TStr ''items''),
        (''columns'', TArr
          [TTab [(''source_column'', TStr ''id''), (''sink_column'', TStr ''item_id''), (''role'', TStr ''id'')],
           TTab [(''source_column'', TStr ''body''), (''sink_column'', TStr ''text''), (''role'', TStr ''embed'')]])]])]"

definition default_qdrant :: QdrantSinkConfiguration where
  "default_qdrant = \<lparr>qdc_url = ''http://localhost:6333'', qdc_api_key = [], qdc_collection = [],
     qdc_table_mappings = [], qdc_required_override = None\<rparr>"

lemmas sink_toml_eval =
  sample_sink_toml_def default_qdrant_def qdc_load_from_config_def load_table_mappings_def load_table_mapping_def
  load_columns_def load_column_def str_or_def array_of_def bool_of_def override_with_def resolve_columns_def
  empty_mapping_def Let_def

theorem validated_sink_mapping_witness:
  "\<exists>tm. sink_mappings (load_sink sample_sink_toml (QdrantConf default_qdrant)) = [tm] \<and> source_table tm \<noteq> []
     \<and> (\<exists>m \<in> set (tm_columns tm). role m = ''id'' \<and> source_column m = id_source tm \<and> sink_column m = id_sink tm)"
proof -
  obtain tm where tm: "sink_mappings (load_sink sample_sink_toml (QdrantConf default_qdrant)) = [tm]"
    by (simp add: sink_toml_eval)
  have "validate_sink fs (load_sink sample_sink_toml (QdrantConf default_qdrant)) = []" for fs
    by (simp add: sink_toml_eval qdc_validate_def validate_mapping_def)
  with tm show ?thesis
    using validated_sink_mapping [of "''qdrant''" "QdrantConf default_qdrant" _ sample_sink_toml tm]
    by (simp add: instantiate_sink_def default_qdrant_def)
qed

text \<open>
  Validation does not look at the sink side of a column. A mapping whose id column has no
  sink column passes, and its upsert statement names an empty column.
\<close>

theorem missing_sink_column_accepted:
  "let c = \<lparr>pgc_host = [], pgc_port = [], pgc_dbname = ''d'', pgc_user = ''u'', pgc_password = [], pgc_table = ''t'',
            pgc_embedding_column = ''v'', pgc_table_mappings = load_table_mappings
              [(''table_mapping'', TArr [TTab [(''source_table'', TStr ''items''), (''columns'', TArr
                 [TTab [(''source_column'', TStr ''id''), (''role'', TStr ''id'')],
                  TTab [(''source_column'', TStr ''body''), (''sink_column'', TStr ''text''), (''role'', TStr ''embed'')]])]])],
            pgc_tls = no_tls, pgc_required_override = None\<rparr>;
       tm = hd (pg_mappings (pgc_sink_config c))
   in pgc_validate fs c = []
      \<and> build_upsert_sql (pg_builder (pgc_sink_config c)) tm =
        ''INSERT INTO t (, text, v) VALUES ($1, $2, $3::vector) ON CONFLICT () DO UPDATE SET text = EXCLUDED.text, v = EXCLUDED.v''"
  by (simp add: sink_toml_eval pgc_validate_def validate_mapping_def no_tls_def tls_validate_def check_file_def
      pgc_sink_config_def build_upsert_sql_def pg_builder_def upsert_sink_cols_def upsert_update_cols_def
      placeholder_def metadata_columns_def show_nat.simps digit_def char_of_def bit_Suc_0_iff)

end
