(* ===== verification/App_Config.thy ===== *)
theory App_Config
  imports Sink_Configuration
begin

text \<open>
  The whole configuration file: \<^verbatim>\<open>AppConfig\<close> with
  \<^verbatim>\<open>load_config\<close> and \<^verbatim>\<open>validate\<close> of
  \<^verbatim>\<open>src/src/config.hpp\<close>, and the GGUF header reader of
  \<^verbatim>\<open>src/src/model/\<close> that validation consults. The TOML parser and the gguf
  library are parameters: an opened gguf file is the map from its keys to typed values.
\<close>

section \<open>Model metadata\<close>

datatype gguf_value = GStr string | GU32 nat | GI32 int | GU64 nat | GI64 int | GOther

type_synonym gguf_lib = "string \<Rightarrow> (string \<rightharpoonup> gguf_value) option"

record ModelMetadata =
  parsed :: bool
  embedding_dimensions :: "int option"

definition to_i64 :: "int \<Rightarrow> int" where
  "to_i64 i = (i + 2 ^ 63) mod 2 ^ 64 - 2 ^ 63"

definition read_int_kv :: "(string \<rightharpoonup> gguf_value) \<Rightarrow> string \<Rightarrow> int option" where
  "read_int_kv ctx key =
     (case ctx (c_str key) of
        Some (GU32 n) \<Rightarrow> Some (int n)
      | Some (GI32 i) \<Rightarrow> Some i
      | Some (GU64 n) \<Rightarrow> Some (to_i64 (int n))
      | Some (GI64 i) \<Rightarrow> Some i
      | _ \<Rightarrow> None)"

definition gguf_read :: "gguf_lib \<Rightarrow> string \<Rightarrow> ModelMetadata" where
  "gguf_read open_file model_path =
     (case open_file (c_str model_path) of
        None \<Rightarrow> \<lparr>parsed = False, embedding_dimensions = None\<rparr>
      | Some ctx \<Rightarrow>
          \<lparr>parsed = True,
           embedding_dimensions =
             (case ctx ''general.architecture'' of
                Some (GStr arch) \<Rightarrow>
                  (case read_int_kv ctx (arch @ ''.embedding_length_out'') of
                     Some d \<Rightarrow> Some d
                   | None \<Rightarrow> read_int_kv ctx (arch @ ''.embedding_length''))
              | _ \<Rightarrow> None)\<rparr>)"

section \<open>Settings\<close>

record AppSettings =
  log_level :: string
  log_file :: string
  log_max_size_mb :: int
  log_max_files :: int
  batch_size :: nat
  batch_timeout_ms :: int
  backfill_dir :: string

definition default_settings :: AppSettings where
  "default_settings = \<lparr>log_level = ''info'', log_file = ''/var/log/walkrie/walkrie.log'', log_max_size_mb = 10,
     log_max_files = 5, batch_size = 1, batch_timeout_ms = 50, backfill_dir = ''/var/lib/walkrie/backfill''\<rparr>"

record SourceConfig =
  src_host :: string
  src_port :: string
  src_dbname :: string
  src_user :: string
  src_password :: string
  slot_name :: string
  publication :: string
  src_backfill :: bool
  src_tls :: TlsConfig

definition default_source :: SourceConfig where
  "default_source = \<lparr>src_host = ''localhost'', src_port = ''5432'', src_dbname = [], src_user = [],
     src_password = [], slot_name = ''pgcdc_slot'', publication = ''pgcdc_pub'', src_backfill = False,
     src_tls = no_tls\<rparr>"

record EmbeddingConfig =
  provider :: string
  emb_model :: string
  model_path :: string
  api_key :: string
  lora_path :: string
  lora_scale :: u32
  dimensions :: int
  n_threads :: int
  n_ctx :: int
  max_batch_size :: int
  n_gpu_layers :: int
  emb_validate :: string

definition default_embedding :: EmbeddingConfig where
  "default_embedding = \<lparr>provider = ''llama'', emb_model = [], model_path = [], api_key = [], lora_path = [],
     lora_scale = 0x3F800000, dimensions = 1024, n_threads = 4, n_ctx = 512, max_batch_size = 1,
     n_gpu_layers = 0, emb_validate = ''none''\<rparr>"

record AppConfig =
  settings :: AppSettings
  sources :: "SourceConfig list"
  sinks :: "SinkConfiguration list"
  embedding :: EmbeddingConfig

section \<open>Loading\<close>

definition i32 :: "toml_table \<Rightarrow> string \<Rightarrow> int \<Rightarrow> int" where
  "i32 t k d = (case map_of t k of Some (TInt i) \<Rightarrow> to_i32 i | _ \<Rightarrow> d)"

definition bl :: "toml_table \<Rightarrow> string \<Rightarrow> bool \<Rightarrow> bool" where
  "bl t k d = (case bool_of t k of Some b \<Rightarrow> b | None \<Rightarrow> d)"

text \<open>\<^verbatim>\<open>static_cast<float>\<close> of a double: round to nearest, ties to even.\<close>

fun bit_length :: "nat \<Rightarrow> nat" where
  "bit_length n = (if n = 0 then 0 else Suc (bit_length (n div 2)))"

declare bit_length.simps [simp del]

definition float_of_double :: "u64 \<Rightarrow> u32" where
  "float_of_double d =
     (let sgn = unat d div 2 ^ 63 * 2 ^ 31; ex = unat d div 2 ^ 52 mod 2 ^ 11; man = unat d mod 2 ^ 52 in
      if ex = 2047 then
        word_of_nat (sgn + 0x7F800000 + (if man = 0 then 0 else 0x400000 + man div 2 ^ 29 mod 0x400000))
      else
        let m = (if ex = 0 then man else man + 2 ^ 52); e = int (max ex 1) - 1075;
            k = max (e + int (bit_length m) - 24) (-149);
            n0 = (if k \<le> e then m * 2 ^ nat (e - k) else round_half_even m (2 ^ nat (k - e)));
            (n, k') = (if n0 = 2 ^ 24 then (2 ^ 23, k + 1) else (n0, k))
        in if n < 2 ^ 23 then word_of_nat (sgn + n)
           else if 255 \<le> k' + 150 then word_of_nat (sgn + 0x7F800000)
           else word_of_nat (sgn + nat (k' + 150) * 2 ^ 23 + (n - 2 ^ 23)))"

definition f32 :: "toml_table \<Rightarrow> string \<Rightarrow> u32 \<Rightarrow> u32" where
  "f32 t k d = (case map_of t k of Some (TFloat x) \<Rightarrow> float_of_double x | _ \<Rightarrow> d)"

definition load_settings :: "toml_table \<Rightarrow> AppSettings \<Rightarrow> AppSettings" where
  "load_settings a s =
     \<lparr>log_level = str_or a ''log_level'' (log_level s), log_file = str_or a ''log_file'' (log_file s),
      log_max_size_mb = i32 a ''log_max_size_mb'' (log_max_size_mb s),
      log_max_files = i32 a ''log_max_files'' (log_max_files s),
      batch_size = to_u64 (i32 a ''batch_size'' (to_i32 (int (batch_size s)))),
      batch_timeout_ms = i32 a ''batch_timeout_ms'' (batch_timeout_ms s),
      backfill_dir = str_or a ''backfill_dir'' (backfill_dir s)\<rparr>"

definition load_source :: "toml \<Rightarrow> SourceConfig" where
  "load_source elem =
     (case elem of
        TTab s \<Rightarrow>
          \<lparr>src_host = str_or s ''host'' (src_host default_source), src_port = str_or s ''port'' (src_port default_source),
           src_dbname = str_or s ''dbname'' [], src_user = str_or s ''user'' [],
           src_password = str_or s ''password'' [], slot_name = str_or s ''slot_name'' (slot_name default_source),
           publication = str_or s ''publication'' (publication default_source),
           src_backfill = bl s ''backfill'' False, src_tls = tls_load_from_toml s no_tls\<rparr>
      | _ \<Rightarrow> default_source)"

definition load_embedding :: "toml_table \<Rightarrow> EmbeddingConfig \<Rightarrow> EmbeddingConfig" where
  "load_embedding e c =
     c\<lparr>provider := str_or e ''provider'' (provider c), emb_model := str_or e ''model'' (emb_model c),
       model_path := str_or e ''model_path'' (model_path c), api_key := str_or e ''api_key'' (api_key c),
       lora_path := str_or e ''lora_path'' (lora_path c), lora_scale := f32 e ''lora_scale'' (lora_scale c),
       dimensions := i32 e ''dimensions'' (dimensions c), n_threads := i32 e ''n_threads'' (n_threads c),
       n_ctx := i32 e ''n_ctx'' (n_ctx c), n_gpu_layers := i32 e ''n_gpu_layers'' (n_gpu_layers c),
       emb_validate := str_or e ''validate'' (emb_validate c)\<rparr>"

fun load_sinks :: "toml list \<Rightarrow> SinkConfiguration list result" where
  "load_sinks [] = Inr []"
| "load_sinks (elem # elems) =
     (case elem of
        TTab s \<Rightarrow>
          bindE (instantiate_sink (str_or s ''type'' ''pgvector'')) (\<lambda>c.
          bindE (load_sinks elems) (\<lambda>cs. Inr (load_sink s c # cs)))
      | _ \<Rightarrow> load_sinks elems)"

text \<open>\<open>parse_file\<close> is the TOML parser; a parse error carries its text.\<close>

definition load_config :: "(string \<Rightarrow> string + toml_table) \<Rightarrow> string \<Rightarrow> AppConfig result" where
  "load_config parse_file path =
     (case parse_file path of
        Inl what \<Rightarrow> Inl (Throw (''config parse error in '' @ squote path @ '': '' @ what))
      | Inr tbl \<Rightarrow>
          let st = (case map_of tbl ''app'' of Some (TTab a) \<Rightarrow> load_settings a default_settings | _ \<Rightarrow> default_settings);
              srcs = (case array_of tbl ''source'' of Some xs \<Rightarrow> map load_source xs | None \<Rightarrow> [])
          in bindE (case array_of tbl ''sink'' of Some xs \<Rightarrow> load_sinks xs | None \<Rightarrow> Inr []) (\<lambda>cs.
             let emb = (case map_of tbl ''embedding'' of Some (TTab e) \<Rightarrow> load_embedding e default_embedding
                        | _ \<Rightarrow> default_embedding)
             in Inr \<lparr>settings = st, sources = srcs, sinks = cs,
                     embedding = emb\<lparr>max_batch_size := to_i32 (int (batch_size st))\<rparr>\<rparr>))"

definition any_sink_needs_provider :: "AppConfig \<Rightarrow> bool" where
  "any_sink_needs_provider cfg = list_ex needs_embedding_provider (sinks cfg)"

section \<open>Validating\<close>

definition valid_levels :: "string list" where
  "valid_levels = [''trace'', ''debug'', ''info'', ''warn'', ''error'', ''critical'']"

definition source_label :: "nat \<Rightarrow> string" where
  "source_label i = ''[source]['' @ show_nat i @ '']''"

definition validate_source :: "fs_env \<Rightarrow> nat \<times> SourceConfig \<Rightarrow> string list" where
  "validate_source fs = (\<lambda>(i, s).
     (if src_dbname s = [] then [source_label i @ '' dbname is required''] else []) @
     (if src_user s = [] then [source_label i @ '' user is required''] else []) @
     tls_validate fs (source_label i) (src_tls s))"

definition model_check_message :: "gguf_lib \<Rightarrow> EmbeddingConfig \<Rightarrow> string" where
  "model_check_message gg e =
     (let meta = gguf_read gg (model_path e) in
      if \<not> parsed meta then
        ''[embedding] model_path is not a valid GGUF file: '' @ squote (model_path e) @ '' '' @ em_dash @
        '' check it's the right file and wasn't corrupted or truncated during download''
      else case embedding_dimensions meta of
        Some d \<Rightarrow>
          if d \<noteq> dimensions e then
            ''[embedding] dimensions ('' @ show_int (dimensions e) @
            '') does not match the embedding size declared by the model at '' @ squote (model_path e) @
            '' ('' @ show_int d @ '') '' @ em_dash @ '' set [embedding] dimensions to match the model''
          else []
      | None \<Rightarrow> [])"

definition validate_model_file :: "fs_env \<Rightarrow> gguf_lib \<Rightarrow> EmbeddingConfig \<Rightarrow> string list" where
  "validate_model_file fs gg e =
     (let path = model_path e in
      if path = [] then [''[embedding] model_path is required when provider = '' @ squote ''llama'']
      else if \<not> fs_exists fs path then
        [''[embedding] model_path does not exist: '' @ squote path @ '' '' @ em_dash @
         '' place a GGUF model file at this path before starting walkrie (see README.md for download instructions)'']
      else if \<not> fs_is_regular fs path then
        [''[embedding] model_path exists but is not a regular file: '' @ squote path]
      else if \<not> fs_readable fs path then
        [''[embedding] model_path exists but is not readable by the current user: '' @ squote path @ '' '' @
         em_dash @ '' check file ownership/permissions (the walkrie service runs as the '' @ squote ''walkrie'' @
         '' system user)'']
      else if fs_file_size fs path = 0 then
        [''[embedding] model_path points to an empty (0-byte) file: '' @ squote path @ '' '' @ em_dash @
         '' the download may have failed or been interrupted'']
      else if emb_validate e \<noteq> ''none'' \<and> model_check_message gg e \<noteq> [] \<and> emb_validate e = ''force'' then
        [model_check_message gg e]
      else [])"

definition validate_lora_file :: "fs_env \<Rightarrow> string \<Rightarrow> string list" where
  "validate_lora_file fs path =
     (if path = [] then []
      else if \<not> fs_exists fs path then
        [''[embedding] lora_path does not exist: '' @ squote path @ '' '' @ em_dash @
         '' place the LoRA adapter GGUF at this path or remove lora_path to run without an adapter'']
      else if \<not> fs_is_regular fs path then
        [''[embedding] lora_path exists but is not a regular file: '' @ squote path]
      else if \<not> fs_readable fs path then
        [''[embedding] lora_path exists but is not readable by the current user: '' @ squote path @ '' '' @
         em_dash @ '' check file ownership/permissions (the walkrie service runs as the '' @ squote ''walkrie'' @
         '' system user)'']
      else if fs_file_size fs path = 0 then
        [''[embedding] lora_path points to an empty (0-byte) file: '' @ squote path @ '' '' @ em_dash @
         '' the download may have failed or been interrupted'']
      else [])"

definition validate_openai :: "EmbeddingConfig \<Rightarrow> string list" where
  "validate_openai e =
     (if api_key e = [] then [''[embedding] api_key is required when provider = '' @ squote ''openai''] else []) @
     (if emb_model e = [] then [''[embedding] model is required when provider = '' @ squote ''openai''] else []) @
     (if emb_model e = ''text-embedding-3-small'' \<and> 1536 < dimensions e then
        [''[embedding] dimensions must be <= 1536 for text-embedding-3-small''] else []) @
     (if emb_model e = ''text-embedding-3-large'' \<and> 3072 < dimensions e then
        [''[embedding] dimensions must be <= 3072 for text-embedding-3-large''] else []) @
     (if emb_model e = ''text-embedding-ada-002'' \<and> dimensions e \<noteq> 1536 then
        [''[embedding] text-embedding-ada-002 does not support dimension truncation '' @ em_dash @
         '' dimensions must be exactly 1536''] else [])"

definition validate_embedding :: "fs_env \<Rightarrow> gguf_lib \<Rightarrow> EmbeddingConfig \<Rightarrow> string list" where
  "validate_embedding fs gg e =
     (if provider e \<noteq> ''llama'' \<and> provider e \<noteq> ''openai'' then
        [''[embedding] provider must be '' @ squote ''llama'' @ '' or '' @ squote ''openai''] else []) @
     (if emb_validate e \<notin> {''none'', ''warn'', ''force''} then
        [''[embedding] validate must be one of: none, warn, force''] else []) @
     (if provider e = ''llama'' then
        validate_model_file fs gg e @ validate_lora_file fs (lora_path e) @
        (if dimensions e \<le> 0 then [''[embedding] dimensions must be > 0''] else []) else []) @
     (if provider e = ''openai'' then validate_openai e else [])"

text \<open>
  Sinks are held by pointers that \<^verbatim>\<open>load_config\<close> always fills, so the branch for
  an empty pointer has no counterpart.
\<close>

definition app_validate :: "fs_env \<Rightarrow> gguf_lib \<Rightarrow> AppConfig \<Rightarrow> string list" where
  "app_validate fs gg cfg =
     (if log_level (settings cfg) \<notin> set valid_levels then
        [''[app] log_level must be one of: trace, debug, info, warn, error, critical''] else []) @
     (if batch_size (settings cfg) < 1 then [''[app] batch_size must be >= 1''] else []) @
     (if batch_timeout_ms (settings cfg) \<le> 0 then [''[app] batch_timeout_ms must be > 0''] else []) @
     (if sources cfg = [] then [''[source] at least one [[source]] block is required''] else []) @
     concat (map (validate_source fs) (enumerate 0 (sources cfg))) @
     validate_embedding fs gg (embedding cfg) @
     concat (map (validate_sink fs) (sinks cfg))"

section \<open>What a validated configuration guarantees\<close>

definition regular_file :: "fs_env \<Rightarrow> string \<Rightarrow> bool" where
  "regular_file fs path \<longleftrightarrow>
     fs_exists fs path \<and> fs_is_regular fs path \<and> fs_readable fs path \<and> fs_file_size fs path \<noteq> 0"

lemma validate_model_file_ok:
  "validate_model_file fs gg e = [] \<longleftrightarrow> model_path e \<noteq> [] \<and> regular_file fs (model_path e)
     \<and> (emb_validate e = ''force'' \<longrightarrow> model_check_message gg e = [])"
  by (auto simp: validate_model_file_def regular_file_def Let_def)

lemma validate_lora_file_ok: "validate_lora_file fs path = [] \<longleftrightarrow> path = [] \<or> regular_file fs path"
  by (auto simp: validate_lora_file_def regular_file_def)

lemma model_check_message_ok:
  "model_check_message gg e = [] \<longleftrightarrow> parsed (gguf_read gg (model_path e))
     \<and> (\<forall>d. embedding_dimensions (gguf_read gg (model_path e)) = Some d \<longrightarrow> d = dimensions e)"
  by (auto simp: model_check_message_def Let_def split: option.splits)


text \<open>A small complete document with a given batch size.\<close>

definition sample_toml :: "int \<Rightarrow> toml_table" where
  "sample_toml bs =
     [(''app'', TTab [(''batch_size'', TInt bs)]),
      (''source'', TArr [TTab [(''dbname'', TStr ''d''), (''user'', TStr ''u'')]]),
      (''sink'', TArr [TTab [(''type'', TStr ''json-output'')]]),
      (''embedding'', TTab [(''provider'', TStr ''openai''), (''api_key'', TStr ''k''), (''model'', TStr ''m'')])]"

definition sample_config :: "int \<Rightarrow> AppConfig" where
  "sample_config bs =
     \<lparr>settings = default_settings\<lparr>batch_size := to_u64 (to_i32 bs)\<rparr>,
      sources = [default_source\<lparr>src_dbname := ''d'', src_user := ''u''\<rparr>],
      sinks = [JsonConf \<lparr>jsc_output_target = ''stdout'', jsc_required_override = None\<rparr>],
      embedding = default_embedding\<lparr>provider := ''openai'', api_key := ''k'', emb_model := ''m'',
        max_batch_size := to_i32 (int (to_u64 (to_i32 bs)))\<rparr>\<rparr>"

lemma load_sample: "load_config (\<lambda>_. Inr (sample_toml bs)) path = Inr (sample_config bs)"
  by (simp add: load_config_def sample_toml_def sample_config_def load_settings_def load_source_def
      load_embedding_def array_of_def instantiate_sink_def jsc_load_from_config_def str_or_def i32_def bl_def
      f32_def bool_of_def override_with_def tls_load_from_toml_def default_settings_def default_source_def
      default_embedding_def no_tls_def Let_def)

lemma validate_sample:
  "app_validate fs gg (sample_config bs) = [] \<longleftrightarrow> 1 \<le> to_u64 (to_i32 bs)"
  by (simp add: app_validate_def sample_config_def default_settings_def default_source_def default_embedding_def
      validate_source_def tls_validate_def check_file_def no_tls_def validate_embedding_def validate_openai_def
      valid_levels_def)

definition no_files :: fs_env where
  "no_files = \<lparr>fs_exists = (\<lambda>_. False), fs_is_regular = (\<lambda>_. False), fs_readable = (\<lambda>_. False),
     fs_file_size = (\<lambda>_. 0)\<rparr>"


text \<open>
  A batch size of \<open>-1\<close> in the file is accepted: it becomes the largest
  \<^verbatim>\<open>size_t\<close>, which passes the check \<^verbatim>\<open>batch_size >= 1\<close>, and
  reaches the local provider as the limit \<open>-1\<close>. The same holds of every negative size.
\<close>

theorem negative_batch_size_accepted:
  assumes "- (2 ^ 31) \<le> b" "b < 0"
  shows "\<exists>cfg. load_config (\<lambda>_. Inr (sample_toml b)) path = Inr cfg \<and> app_validate fs gg cfg = []
    \<and> batch_size (settings cfg) = 2 ^ 64 - nat (- b) \<and> max_batch_size (embedding cfg) = b"
proof -
  have b: "to_i32 b = b" using assms by (simp add: to_i32_id)
  have u: "to_u64 b = 2 ^ 64 - nat (- b)"
  proof -
    have "b mod 2 ^ 64 = (b + 2 ^ 64) mod 2 ^ 64" by simp
    also have "\<dots> = b + 2 ^ 64" using assms by (intro mod_pos_pos_trivial) simp_all
    finally show ?thesis using assms by (simp add: to_u64_def nat_diff_distrib)
  qed
  have "to_i32 (int (to_u64 b)) = b"
  proof -
    have "int (to_u64 b) = b + 2 ^ 64" using u assms by (simp add: of_nat_diff)
    then have "int (to_u64 b) + 2 ^ 31 = (b + 2 ^ 31) + 2 ^ 32 * 2 ^ 32" by simp
    then have "(int (to_u64 b) + 2 ^ 31) mod 2 ^ 32 = (b + 2 ^ 31) mod 2 ^ 32"
      by (simp only: mod_mult_self2)
    then show ?thesis using b by (simp add: to_i32_def)
  qed
  moreover have "1 \<le> to_u64 (to_i32 b)" using u b assms by simp
  ultimately show ?thesis
    using u b by (intro exI [of _ "sample_config b"]) (simp add: load_sample validate_sample, simp add: sample_config_def)
qed

theorem negative_batch_size_accepted_witness:
  "\<exists>cfg. load_config (\<lambda>_. Inr (sample_toml (-1))) ''walkrie.toml'' = Inr cfg \<and> app_validate no_files (\<lambda>_. None) cfg = []
    \<and> batch_size (settings cfg) = 2 ^ 64 - nat (- (-1)) \<and> max_batch_size (embedding cfg) = -1"
  by (rule negative_batch_size_accepted) simp_all

end
