(* ===== verification/Caching_Provider.thy ===== *)
theory Caching_Provider
  imports Batch_Sink "HOL-Library.Multiset"
begin

text \<open>
  The cache in front of a provider, \<^verbatim>\<open>src/src/caching_embedding_provider.cpp\<close>,
  and the default \<^verbatim>\<open>embed_batch\<close> of
  \<^verbatim>\<open>src/src/embedding_provider.cpp\<close>. The
  \<^verbatim>\<open>std::list\<close> of entries is a list of nodes with an identity each, and the
  index (an association list without order in the source)
  maps a text to the identity of its node, as the iterators of the source do. The inner
  provider is a pair of operations on its own state.
\<close>

record 'p provider_ops =
  p_embed :: "'p \<Rightarrow> string \<Rightarrow> 'p \<times> vec result"
  p_embed_batch :: "'p embedder"

text \<open>The default \<^verbatim>\<open>embed_batch\<close>: one text after the other.\<close>

fun default_embed_batch :: "('p \<Rightarrow> string \<Rightarrow> 'p \<times> vec result) \<Rightarrow> 'p embedder" where
  "default_embed_batch f p [] = (p, Inr [])"
| "default_embed_batch f p (t # ts) =
     (case f p t of
        (p1, Inl e) \<Rightarrow> (p1, Inl e)
      | (p1, Inr v) \<Rightarrow>
          (case default_embed_batch f p1 ts of
             (p2, Inl e) \<Rightarrow> (p2, Inl e)
           | (p2, Inr vs) \<Rightarrow> (p2, Inr (v # vs))))"

section \<open>The size of the cache\<close>

partial_function (option) grow_power :: "u64 \<Rightarrow> u64 \<Rightarrow> u64 option" where
  "grow_power p n = (if p < n then grow_power (push_bit 1 p) n else Some p)"

definition cache_size_for_batch :: "u64 \<Rightarrow> u64 option" where
  "cache_size_for_batch batch_size = grow_power 1 (max batch_size 16)"

section \<open>State and operations\<close>

type_synonym lru_node = "nat \<times> string \<times> vec"

record 'p CachingEmbeddingProvider =
  inner :: 'p
  max_entries :: nat
  lru :: "lru_node list"
  index :: "(string \<times> nat) list"
  fresh_node :: nat

definition new_caching_provider :: "'p \<Rightarrow> nat \<Rightarrow> 'p CachingEmbeddingProvider" where
  "new_caching_provider p n = \<lparr>inner = p, max_entries = n, lru = [], index = [], fresh_node = 0\<rparr>"

text \<open>\<^verbatim>\<open>lru_.splice (lru_.begin(), lru_, it)\<close>: the node moves to the front.\<close>

definition to_front :: "nat \<Rightarrow> lru_node list \<Rightarrow> lru_node list" where
  "to_front i xs = filter (\<lambda>x. fst x = i) xs @ filter (\<lambda>x. fst x \<noteq> i) xs"

definition node_value :: "nat \<Rightarrow> lru_node list \<Rightarrow> vec option" where
  "node_value i xs = map_option (snd \<circ> snd) (find (\<lambda>x. fst x = i) xs)"

definition set_node :: "nat \<Rightarrow> vec \<Rightarrow> lru_node list \<Rightarrow> lru_node list" where
  "set_node i v xs = map (\<lambda>(j, t, u). (j, t, if j = i then v else u)) xs"

definition try_get ::
  "'p CachingEmbeddingProvider \<Rightarrow> string \<Rightarrow> 'p CachingEmbeddingProvider \<times> vec option" where
  "try_get c t =
     (case map_of (index c) t of
        None \<Rightarrow> (c, None)
      | Some i \<Rightarrow> (c\<lparr>lru := to_front i (lru c)\<rparr>, node_value i (lru c)))"

text \<open>
  \<^verbatim>\<open>lru_.back ()\<close> of an empty list is undefined: it would need a cache of size zero.
\<close>

definition put ::
  "'p CachingEmbeddingProvider \<Rightarrow> string \<Rightarrow> vec \<Rightarrow> 'p CachingEmbeddingProvider result" where
  "put c t v =
     (case map_of (index c) t of
        Some i \<Rightarrow> Inr (c\<lparr>lru := to_front i (set_node i v (lru c))\<rparr>)
      | None \<Rightarrow>
          let add = (\<lambda>c. c\<lparr>lru := (fresh_node c, t, v) # lru c, index := (t, fresh_node c) # index c,
                           fresh_node := fresh_node c + 1\<rparr>) in
          if max_entries c \<le> length (index c) then
            (if lru c = [] then Inl OutOfBounds
             else case last (lru c) of (_, t', _) \<Rightarrow>
                    Inr (add (c\<lparr>index := filter (\<lambda>x. fst x \<noteq> t') (index c), lru := butlast (lru c)\<rparr>)))
          else Inr (add c))"

definition caching_embed ::
  "'p provider_ops \<Rightarrow> 'p CachingEmbeddingProvider \<Rightarrow> string \<Rightarrow> 'p CachingEmbeddingProvider \<times> vec result" where
  "caching_embed ops c t =
     (case try_get c t of
        (c1, Some v) \<Rightarrow> (c1, Inr v)
      | (c1, None) \<Rightarrow>
          (case p_embed ops (inner c1) t of
             (p', Inl e) \<Rightarrow> (c1\<lparr>inner := p'\<rparr>, Inl e)
           | (p', Inr v) \<Rightarrow>
               (case put (c1\<lparr>inner := p'\<rparr>) t v of
                  Inl e \<Rightarrow> (c1\<lparr>inner := p'\<rparr>, Inl e)
                | Inr c2 \<Rightarrow> (c2, Inr v))))"

text \<open>The first loop: hits go to their place, misses are remembered with their index.\<close>

fun look_up_all ::
  "nat \<Rightarrow> string list \<Rightarrow> 'p CachingEmbeddingProvider \<Rightarrow> vec list \<Rightarrow>
   'p CachingEmbeddingProvider \<times> vec list \<times> (string \<times> nat) list" where
  "look_up_all i [] c results = (c, results, [])"
| "look_up_all i (t # ts) c results =
     (case try_get c t of
        (c1, Some v) \<Rightarrow> look_up_all (i + 1) ts c1 (results[i := v])
      | (c1, None) \<Rightarrow>
          (case look_up_all (i + 1) ts c1 results of (c2, r, missing) \<Rightarrow> (c2, r, (t, i) # missing)))"

text \<open>The second loop: computed vectors go to their place and into the cache.\<close>

fun store_all ::
  "(string \<times> nat) list \<Rightarrow> vec list \<Rightarrow> 'p CachingEmbeddingProvider \<Rightarrow> vec list \<Rightarrow>
   'p CachingEmbeddingProvider \<times> vec list result" where
  "store_all ((t, i) # ms) (v # vs) c results =
     (case put c t v of
        Inl e \<Rightarrow> (c, Inl e)
      | Inr c1 \<Rightarrow> store_all ms vs c1 (results[i := v]))"
| "store_all _ _ c results = (c, Inr results)"

definition caching_embed_batch :: "'p provider_ops \<Rightarrow> 'p CachingEmbeddingProvider embedder" where
  "caching_embed_batch ops c texts =
     (case look_up_all 0 texts c (replicate (length texts) []) of
        (c1, results, missing) \<Rightarrow>
          if missing = [] then (c1, Inr results)
          else
            (case p_embed_batch ops (inner c1) (map fst missing) of
               (p', Inl e) \<Rightarrow> (c1\<lparr>inner := p'\<rparr>, Inl e)
             | (p', Inr computed) \<Rightarrow>
                 if length computed \<noteq> length missing then (c1\<lparr>inner := p'\<rparr>, Inr [])
                 else store_all missing computed (c1\<lparr>inner := p'\<rparr>) results))"

definition caching_ops :: "'p provider_ops \<Rightarrow> 'p CachingEmbeddingProvider provider_ops" where
  "caching_ops ops = \<lparr>p_embed = caching_embed ops, p_embed_batch = caching_embed_batch ops\<rparr>"

section \<open>The cache invariant\<close>

text \<open>
  Nodes and texts are unique, the index knows exactly the nodes of the list, and the list is
  not longer than the limit. \<open>coherent f\<close>: every cached vector is the one the inner
  provider would compute.
\<close>

definition cache_ok :: "'p CachingEmbeddingProvider \<Rightarrow> bool" where
  "cache_ok c \<longleftrightarrow>
     distinct (map fst (lru c)) \<and> distinct (map (fst \<circ> snd) (lru c)) \<and> distinct (map fst (index c))
   \<and> (\<forall>t i. (t, i) \<in> set (index c) \<longleftrightarrow> (\<exists>v. (i, t, v) \<in> set (lru c)))
   \<and> (\<forall>i t v. (i, t, v) \<in> set (lru c) \<longrightarrow> i < fresh_node c)
   \<and> 1 \<le> max_entries c \<and> length (lru c) \<le> max_entries c"

definition coherent :: "(string \<Rightarrow> vec) \<Rightarrow> 'p CachingEmbeddingProvider \<Rightarrow> bool" where
  "coherent f c \<longleftrightarrow> (\<forall>i t v. (i, t, v) \<in> set (lru c) \<longrightarrow> v = f t)"

definition cached :: "'p CachingEmbeddingProvider \<Rightarrow> string \<Rightarrow> vec option" where
  "cached c t = map_of (map snd (lru c)) t"

lemma mset_to_front [simp]: "mset (to_front i xs) = mset xs"
  unfolding to_front_def by (simp add: multiset_partition [symmetric])

lemma set_to_front [simp]: "set (to_front i xs) = set xs"
  by (auto simp: to_front_def)

lemma distinct_map_to_front [simp]: "distinct (map g (to_front i xs)) = distinct (map g xs)"
proof -
  have "mset (map g (to_front i xs)) = mset (map g xs)" by simp
  then show ?thesis by (metis mset_eq_imp_distinct_iff)
qed

lemma length_to_front [simp]: "length (to_front i xs) = length xs"
  by (metis mset_to_front size_mset)

lemma set_node_fields [simp]:
  "map fst (set_node i v xs) = map fst xs" "map (fst \<circ> snd) (set_node i v xs) = map (fst \<circ> snd) xs"
  "length (set_node i v xs) = length xs"
  by (auto simp: set_node_def)

lemma set_set_node: "set (set_node i v xs) = (\<lambda>(j, t, u). (j, t, if j = i then v else u)) ` set xs"
  by (auto simp: set_node_def)

lemma cache_ok_index:
  "cache_ok c \<Longrightarrow> map_of (index c) t = Some i \<longleftrightarrow> (\<exists>v. (i, t, v) \<in> set (lru c))"
  by (simp add: cache_ok_def)

lemma cache_ok_index_None:
  assumes "cache_ok c" "map_of (index c) t = None"
  shows "(i, t, v) \<notin> set (lru c)"
  using cache_ok_index [OF assms(1), of t i] assms(2) by simp

lemma node_value_mem:
  "distinct (map fst xs) \<Longrightarrow> (i, t, v) \<in> set xs \<Longrightarrow> node_value i xs = Some v"
  by (induction xs) (force simp: node_value_def)+

lemma cached_mem:
  assumes "cache_ok c" "(i, t, v) \<in> set (lru c)"
  shows "cached c t = Some v"
proof -
  have "(t, v) \<in> set (map snd (lru c))" using assms(2) by force
  moreover have "distinct (map fst (map snd (lru c)))" using assms(1) by (simp add: cache_ok_def)
  ultimately show ?thesis unfolding cached_def by (intro map_of_is_SomeI)
qed

lemma cached_None: "cache_ok c \<Longrightarrow> map_of (index c) t = None \<Longrightarrow> cached c t = None"
  unfolding cached_def by (rule ccontr) (auto dest!: map_of_SomeD simp: cache_ok_index_None)

lemma node_key_image: "(t, i) \<in> (\<lambda>x. (fst (snd x), fst x)) ` S \<longleftrightarrow> (\<exists>v. (i, t, v) \<in> S)"
  by force

lemma node_text_mem: "(i, t, v) \<in> set xs \<Longrightarrow> t \<in> set (map (fst \<circ> snd) xs)"
  by force

lemma cache_ok_length:
  assumes "cache_ok c"
  shows "length (index c) = length (lru c)"
proof -
  have "set (index c) = (\<lambda>x. (fst (snd x), fst x)) ` set (lru c)"
    using assms by (intro set_eqI) (simp add: split_paired_all node_key_image cache_ok_def)
  moreover have "inj_on (\<lambda>x. (fst (snd x), fst x)) (set (lru c))"
    using assms by (simp add: cache_ok_def inj_on_def distinct_map)
  ultimately have "card (set (index c)) = card (set (lru c))" by (simp add: card_image)
  moreover have "distinct (index c)" "distinct (lru c)"
    using assms by (simp_all add: cache_ok_def distinct_map)
  ultimately show ?thesis by (simp add: distinct_card)
qed

lemma cache_ok_to_front: "cache_ok c \<Longrightarrow> cache_ok (c\<lparr>lru := to_front i (lru c)\<rparr>)"
  by (simp add: cache_ok_def)

text \<open>A lookup answers what is cached and touches nothing but the order.\<close>

lemma try_get_spec:
  assumes "cache_ok c" "try_get c t = (c', r)"
  shows "cache_ok c'" "r = cached c t" "inner c' = inner c" "set (lru c') = set (lru c)"
    "max_entries c' = max_entries c"
proof -
  have "cache_ok c' \<and> r = cached c t \<and> inner c' = inner c \<and> set (lru c') = set (lru c) \<and> max_entries c' = max_entries c"
  proof (cases "map_of (index c) t")
    case None
    then show ?thesis using assms by (auto simp: try_get_def cached_None)
  next
    case (Some i)
    then obtain v where v: "(i, t, v) \<in> set (lru c)" using cache_ok_index assms(1) by blast
    have "node_value i (lru c) = Some v"
      using assms(1) v by (intro node_value_mem) (auto simp: cache_ok_def)
    then show ?thesis
      using assms Some cached_mem [OF assms(1) v] cache_ok_to_front [OF assms(1)]
      by (auto simp: try_get_def)
  qed
  then show "cache_ok c'" "r = cached c t" "inner c' = inner c" "set (lru c') = set (lru c)"
    "max_entries c' = max_entries c" by simp_all
qed

text \<open>Storing keeps the invariant, never fails, and adds at most the stored entry.\<close>

lemma put_known:
  assumes "cache_ok c" "map_of (index c) t = Some i"
  shows "\<exists>c'. put c t v = Inr c' \<and> cache_ok c' \<and> inner c' = inner c \<and> max_entries c' = max_entries c
    \<and> (\<forall>j u x. (j, u, x) \<in> set (lru c') \<longrightarrow> (u, x) = (t, v) \<or> (j, u, x) \<in> set (lru c))"
proof -
  let ?c = "c\<lparr>lru := to_front i (set_node i v (lru c))\<rparr>"
  obtain v0 where v0: "(i, t, v0) \<in> set (lru c)" using assms cache_ok_index by blast
  have mem: "(j, u, x) \<in> set (lru ?c) \<longleftrightarrow> (\<exists>y. (j, u, y) \<in> set (lru c) \<and> x = (if j = i then v else y))" for j u x
    by (force simp: set_set_node)
  have key: "u = t" if "(i, u, y) \<in> set (lru c)" for u y
  proof -
    have "inj_on fst (set (lru c))" using assms(1) by (simp add: cache_ok_def distinct_map)
    then show ?thesis using inj_onD [of fst "set (lru c)" "(i, u, y)" "(i, t, v0)"] that v0 by simp
  qed
  have "cache_ok ?c"
    using assms(1) mem by (simp add: cache_ok_def)
  moreover have "(u, x) = (t, v) \<or> (j, u, x) \<in> set (lru c)" if "(j, u, x) \<in> set (lru ?c)" for j u x
    using that key unfolding mem by (auto split: if_splits)
  ultimately show ?thesis using assms(2) by (simp add: put_def)
qed

lemma cache_ok_add:
  assumes "cache_ok c" "map_of (index c) t = None" "length (lru c) < max_entries c"
  shows "cache_ok (c\<lparr>lru := (fresh_node c, t, v) # lru c, index := (t, fresh_node c) # index c,
                     fresh_node := fresh_node c + 1\<rparr>)"
proof -
  have "(i, t, x) \<notin> set (lru c)" for i x using cache_ok_index_None [OF assms(1,2)] .
  moreover have "t \<notin> fst ` set (index c)" using assms(2) by (simp add: map_of_eq_None_iff)
  moreover have "(fresh_node c, u, x) \<notin> set (lru c)" for u x
    using assms(1) unfolding cache_ok_def by blast
  ultimately show ?thesis
    using assms(1,3) unfolding cache_ok_def by (auto simp: image_iff less_Suc_eq)
qed

lemma cache_ok_drop_last:
  assumes "cache_ok c" "lru c = xs @ [(i, u, x)]"
  shows "cache_ok (c\<lparr>index := filter (\<lambda>y. fst y \<noteq> u) (index c), lru := xs\<rparr>)"
proof -
  have "distinct (map fst (filter (\<lambda>y. fst y \<noteq> u) (index c)))"
    using assms(1) by (simp add: cache_ok_def distinct_map_filter)
  moreover have "(t, j) \<in> set (filter (\<lambda>y. fst y \<noteq> u) (index c)) \<longleftrightarrow> (\<exists>v. (j, t, v) \<in> set xs)" for t j
  proof -
    have "distinct (map (fst \<circ> snd) (xs @ [(i, u, x)]))" using assms by (simp add: cache_ok_def)
    then have "t \<noteq> u" if "(j, t, v) \<in> set xs" for v using node_text_mem [OF that] by auto
    moreover have "(t, j) \<in> set (index c) \<longleftrightarrow> (\<exists>v. (j, t, v) \<in> set (xs @ [(i, u, x)]))"
      using assms unfolding cache_ok_def by metis
    ultimately show ?thesis by auto
  qed
  ultimately show ?thesis
    using assms unfolding cache_ok_def by simp
qed

lemma put_spec:
  assumes "cache_ok c"
  shows "\<exists>c'. put c t v = Inr c' \<and> cache_ok c' \<and> inner c' = inner c \<and> max_entries c' = max_entries c
    \<and> (\<forall>j u x. (j, u, x) \<in> set (lru c') \<longrightarrow> (u, x) = (t, v) \<or> (j, u, x) \<in> set (lru c))"
proof (cases "map_of (index c) t")
  case (Some i)
  then show ?thesis using put_known assms by blast
next
  case None
  show ?thesis
  proof (cases "max_entries c \<le> length (index c)")
    case False
    with None assms show ?thesis
      using cache_ok_add [OF assms None, of v] by (auto simp: put_def cache_ok_length)
  next
    case True
    then have "lru c \<noteq> []" using assms by (auto simp: cache_ok_length) (auto simp: cache_ok_def)
    then obtain xs i u x where l: "lru c = xs @ [(i, u, x)]" by (metis rev_exhaust prod_cases3)
    let ?c = "c\<lparr>index := filter (\<lambda>y. fst y \<noteq> u) (index c), lru := xs\<rparr>"
    have "cache_ok ?c" using cache_ok_drop_last assms l by blast
    moreover have "map_of (index ?c) t = None" using None by (simp add: map_of_eq_None_iff) auto
    moreover have "length (lru ?c) < max_entries ?c" using assms l by (simp add: cache_ok_def)
    ultimately have "cache_ok (?c\<lparr>lru := (fresh_node ?c, t, v) # lru ?c, index := (t, fresh_node ?c) # index ?c,
                     fresh_node := fresh_node ?c + 1\<rparr>)"
      by (rule cache_ok_add)
    then show ?thesis using True None l by (simp add: put_def)
  qed
qed

section \<open>A coherent cache is invisible\<close>

definition cache_inv :: "(string \<Rightarrow> vec) \<Rightarrow> ('p \<Rightarrow> bool) \<Rightarrow> 'p CachingEmbeddingProvider \<Rightarrow> bool" where
  "cache_inv f okp c \<longleftrightarrow> cache_ok c \<and> coherent f c \<and> okp (inner c)"

lemma try_get_inv:
  assumes "cache_inv f okp c" "try_get c t = (c', r)"
  shows "cache_inv f okp c' \<and> inner c' = inner c \<and> (r = None \<or> r = Some (f t))"
proof -
  have "cache_ok c" using assms(1) by (simp add: cache_inv_def)
  note tg = try_get_spec [OF this assms(2)]
  have "cached c t = None \<or> cached c t = Some (f t)"
  proof (cases "cached c t")
    case (Some v)
    then have "(t, v) \<in> set (map snd (lru c))" unfolding cached_def by (rule map_of_SomeD)
    then obtain i where "(i, t, v) \<in> set (lru c)" by auto
    then show ?thesis using assms(1) Some by (simp add: cache_inv_def coherent_def)
  qed simp
  then have "r = None \<or> r = Some (f t)" using tg(2) by simp
  then show ?thesis using assms(1) tg by (simp add: cache_inv_def coherent_def)
qed

lemma put_inv:
  assumes "cache_inv f okp c"
  shows "\<exists>c'. put c t (f t) = Inr c' \<and> cache_inv f okp c' \<and> inner c' = inner c"
proof -
  obtain c' where "put c t (f t) = Inr c'" "cache_ok c'" "inner c' = inner c"
    "\<forall>j u x. (j, u, x) \<in> set (lru c') \<longrightarrow> (u, x) = (t, f t) \<or> (j, u, x) \<in> set (lru c)"
    using put_spec [of c t "f t"] assms by (auto simp: cache_inv_def)
  then show ?thesis using assms unfolding cache_inv_def coherent_def by (metis Pair_inject)
qed

text \<open>
  After the first loop every place from \<open>i\<close> on has its vector or is remembered as
  missing; places before \<open>i\<close> are untouched.
\<close>

definition filled :: "(string \<Rightarrow> vec) \<Rightarrow> nat \<Rightarrow> string list \<Rightarrow> vec list \<Rightarrow> (string \<times> nat) list \<Rightarrow> bool" where
  "filled f i ts rs ms \<longleftrightarrow>
     (\<forall>k < length ts. rs ! (i + k) = f (ts ! k) \<or> (ts ! k, i + k) \<in> set ms)
   \<and> (\<forall>t j. (t, j) \<in> set ms \<longrightarrow> (\<exists>k < length ts. j = i + k \<and> t = ts ! k))"

lemma filled_Cons:
  assumes "filled f (Suc i) ts rs ms" "rs ! i = f t \<or> (t, i) \<in> set ms'"
    and "set ms \<subseteq> set ms'" "set ms' \<subseteq> insert (t, i) (set ms)"
  shows "filled f i (t # ts) rs ms'"
  unfolding filled_def
proof (intro conjI allI impI)
  fix k assume "k < length (t # ts)"
  then show "rs ! (i + k) = f ((t # ts) ! k) \<or> ((t # ts) ! k, i + k) \<in> set ms'"
    using assms by (cases k) (auto simp: filled_def)
next
  fix u j assume "(u, j) \<in> set ms'"
  then consider "(u, j) = (t, i)" | "(u, j) \<in> set ms" using assms(4) by blast
  then show "\<exists>k < length (t # ts). j = i + k \<and> u = (t # ts) ! k"
  proof cases
    case 2
    then obtain k where "k < length ts" "j = Suc i + k" "u = ts ! k"
      using assms(1) unfolding filled_def by blast
    then show ?thesis by (intro exI [of _ "Suc k"]) simp
  qed auto
qed

lemma look_up_all_inv:
  assumes "cache_inv f okp c" "look_up_all i ts c rs = (c', rs', ms)" "i + length ts \<le> length rs"
  shows "cache_inv f okp c' \<and> inner c' = inner c \<and> length rs' = length rs
    \<and> (\<forall>j < i. rs' ! j = rs ! j) \<and> filled f i ts rs' ms"
  using assms
proof (induction ts arbitrary: i c rs c' rs' ms)
  case Nil
  then show ?case by (simp add: filled_def)
next
  case (Cons t ts)
  obtain c1 r where tg: "try_get c t = (c1, r)" by fastforce
  have inv: "cache_inv f okp c1" "inner c1 = inner c" "r = None \<or> r = Some (f t)"
    using try_get_inv [OF Cons.prems(1) tg] by auto
  show ?case
  proof (cases r)
    case None
    obtain ms' where l: "look_up_all (Suc i) ts c1 rs = (c', rs', ms')" "ms = (t, i) # ms'"
      using Cons.prems(2) tg None by (auto split: prod.splits)
    have "Suc i + length ts \<le> length rs" using Cons.prems(3) by simp
    note IH = Cons.IH [OF inv(1) l(1) this]
    have "filled f i (t # ts) rs' ms" using IH l(2) by (intro filled_Cons) auto
    then show ?thesis using IH inv(2) by simp
  next
    case (Some v)
    then have v: "v = f t" using inv(3) by simp
    have l: "look_up_all (Suc i) ts c1 (rs[i := v]) = (c', rs', ms)"
      using Cons.prems(2) tg Some by simp
    have "Suc i + length ts \<le> length (rs[i := v])" using Cons.prems(3) by simp
    note IH = Cons.IH [OF inv(1) l this]
    have "rs' ! i = f t" using IH v Cons.prems(3) by simp
    then have "filled f i (t # ts) rs' ms" using IH by (intro filled_Cons) auto
    moreover have "rs' ! j = rs ! j" if "j < i" for j using IH that by simp
    ultimately show ?thesis using IH inv(2) by simp
  qed
qed

text \<open>The second loop fills the missing places.\<close>

lemma store_all_inv:
  assumes "cache_inv f okp c" "\<forall>t j. (t, j) \<in> set ms \<longrightarrow> j < length rs \<and> t = ts ! j"
  shows "\<exists>c' rs'. store_all ms (map f (map fst ms)) c rs = (c', Inr rs') \<and> cache_inv f okp c'
    \<and> length rs' = length rs
    \<and> (\<forall>j < length rs. rs' ! j = (if j \<in> snd ` set ms then f (ts ! j) else rs ! j))"
  using assms
proof (induction ms arbitrary: c rs)
  case Nil
  then show ?case by simp
next
  case (Cons m ms)
  obtain t i where m: "m = (t, i)" by fastforce
  obtain c1 where c1: "put c t (f t) = Inr c1" "cache_inv f okp c1" using put_inv Cons.prems(1) by blast
  have it: "i < length rs" "t = ts ! i" using Cons.prems(2) m by auto
  have "\<forall>t' j. (t', j) \<in> set ms \<longrightarrow> j < length (rs[i := f t]) \<and> t' = ts ! j" using Cons.prems(2) by simp
  from Cons.IH [OF c1(2) this] obtain c' rs' where r: "store_all ms (map f (map fst ms)) c1 (rs[i := f t]) = (c', Inr rs')"
    "cache_inv f okp c'" "length rs' = length rs"
    "\<forall>j < length rs. rs' ! j = (if j \<in> snd ` set ms then f (ts ! j) else rs[i := f t] ! j)"
    by auto
  have "rs' ! j = (if j \<in> snd ` set (m # ms) then f (ts ! j) else rs ! j)" if "j < length rs" for j
    using r(4) that m it by (cases "j = i") auto
  then show ?case using r c1 m by simp
qed

text \<open>
  C10. A cache in front of a provider is invisible: as long as the inner provider embeds each
  text by itself, the cached one returns the same vectors in the same order for every batch,
  whatever is cached, evicted or repeated, and keeps its invariant.
\<close>

theorem caching_embed_batch_correct:
  assumes "cache_inv f okp c"
    and "\<And>p ts. okp p \<Longrightarrow> \<exists>p'. okp p' \<and> p_embed_batch ops p ts = (p', Inr (map f ts))"
  shows "\<exists>c'. cache_inv f okp c' \<and> caching_embed_batch ops c texts = (c', Inr (map f texts))"
proof -
  obtain c1 rs ms where l: "look_up_all 0 texts c (replicate (length texts) []) = (c1, rs, ms)"
    by (metis prod_cases3)
  have L: "cache_inv f okp c1" "length rs = length texts" "filled f 0 texts rs ms"
    using look_up_all_inv [OF assms(1) l] by simp_all
  show ?thesis
  proof (cases "ms = []")
    case True
    then have "rs = map f texts" using L by (auto simp: filled_def intro: nth_equalityI)
    then show ?thesis using True L(1) l by (simp add: caching_embed_batch_def)
  next
    case False
    obtain p' where p': "okp p'" "p_embed_batch ops (inner c1) (map fst ms) = (p', Inr (map f (map fst ms)))"
      using assms(2) L(1) by (meson cache_inv_def)
    have "cache_inv f okp (c1\<lparr>inner := p'\<rparr>)" using L(1) p'(1) by (simp add: cache_inv_def cache_ok_def coherent_def)
    moreover have "\<forall>t j. (t, j) \<in> set ms \<longrightarrow> j < length rs \<and> t = texts ! j"
      using L(2,3) by (auto simp: filled_def)
    ultimately obtain c' rs' where s: "store_all ms (map f (map fst ms)) (c1\<lparr>inner := p'\<rparr>) rs = (c', Inr rs')"
      "cache_inv f okp c'" "length rs' = length rs"
      "\<forall>j < length rs. rs' ! j = (if j \<in> snd ` set ms then f (texts ! j) else rs ! j)"
      using store_all_inv [of f okp "c1\<lparr>inner := p'\<rparr>" ms rs texts] by blast
    have "rs' ! j = f (texts ! j)" if "j < length texts" for j
      using s(4) L(2,3) that by (force simp: filled_def)
    then have "rs' = map f texts" using s(3) L(2) by (intro nth_equalityI) auto
    then show ?thesis using False l p'(2) s by (simp add: caching_embed_batch_def)
  qed
qed

lemma new_cache_inv: "1 \<le> n \<Longrightarrow> okp p \<Longrightarrow> cache_inv f okp (new_caching_provider p n)"
  by (simp add: cache_inv_def cache_ok_def coherent_def new_caching_provider_def)

text \<open>A provider that counts its calls and embeds a text by its length.\<close>

definition counting_ops :: "nat provider_ops" where
  "counting_ops = \<lparr>p_embed = (\<lambda>n t. (n + 1, Inr [word_of_nat (length t)])),
     p_embed_batch = (\<lambda>n ts. (n + 1, Inr (map (\<lambda>t. [word_of_nat (length t)]) ts)))\<rparr>"

theorem caching_embed_batch_correct_witness:
  "\<exists>c'. cache_inv (\<lambda>t. [word_of_nat (length t)]) (\<lambda>_. True) c' \<and>
     caching_embed_batch counting_ops (new_caching_provider 0 16) [''a'', ''bc'', ''a''] = (c', Inr [[1], [2], [1]])"
  using caching_embed_batch_correct [of "\<lambda>t. [word_of_nat (length t)]" "\<lambda>_. True" "new_caching_provider 0 16"
      counting_ops "[''a'', ''bc'', ''a'']"]
  by (simp add: new_cache_inv counting_ops_def numeral_2_eq_2)

text \<open>A single text goes the same way.\<close>

lemma caching_embed_correct:
  assumes "cache_inv f okp c" "\<And>p t. okp p \<Longrightarrow> \<exists>p'. okp p' \<and> p_embed ops p t = (p', Inr (f t))"
  shows "\<exists>c'. cache_inv f okp c' \<and> caching_embed ops c t = (c', Inr (f t))"
proof -
  obtain c1 r where tg: "try_get c t = (c1, r)" by fastforce
  have inv: "cache_inv f okp c1" "r = None \<or> r = Some (f t)" using try_get_inv [OF assms(1) tg] by auto
  show ?thesis
  proof (cases r)
    case None
    obtain p' where p': "okp p'" "p_embed ops (inner c1) t = (p', Inr (f t))"
      using assms(2) inv(1) by (meson cache_inv_def)
    have "cache_inv f okp (c1\<lparr>inner := p'\<rparr>)" using inv(1) p'(1) by (simp add: cache_inv_def cache_ok_def coherent_def)
    from put_inv [OF this, of t] show ?thesis using tg None p'(2) by (auto simp: caching_embed_def)
  next
    case (Some v)
    then show ?thesis using tg inv by (auto simp: caching_embed_def)
  qed
qed

text \<open>
  An empty vector, the answer of a provider whose request failed, is cached like any other:
  the next request for the text gets the empty vector again without asking the provider, even
  if it would now succeed.
\<close>

theorem failed_embedding_is_cached:
  assumes "cache_ok c" "cached c t = None" "p_embed ops (inner c) t = (p', Inr [])"
  shows "\<exists>c' c''. caching_embed ops c t = (c', Inr []) \<and> inner c' = p'
    \<and> caching_embed ops' c' t = (c'', Inr []) \<and> inner c'' = p'"
proof -
  have none: "map_of (index c) t = None"
  proof (rule ccontr)
    assume "map_of (index c) t \<noteq> None"
    then obtain i v where "(i, t, v) \<in> set (lru c)" using cache_ok_index [OF assms(1)] by blast
    then show False using cached_mem [OF assms(1)] assms(2) by simp
  qed
  then have tg: "try_get c t = (c, None)" by (simp add: try_get_def)
  have ok: "cache_ok (c\<lparr>inner := p'\<rparr>)" using assms(1) by (simp add: cache_ok_def)
  obtain c' where c': "put (c\<lparr>inner := p'\<rparr>) t [] = Inr c'" "cache_ok c'" "inner c' = p'"
    using put_spec [OF ok, of t "[]"] by auto
  have "\<exists>i. (i, t, []) \<in> set (lru c')"
    using c'(1) none by (auto simp: put_def Let_def split: if_splits prod.splits)
  then have "cached c' t = Some []" using cached_mem [OF c'(2)] by blast
  moreover obtain c'' r where "try_get c' t = (c'', r)" by fastforce
  ultimately show ?thesis
    using tg assms(3) c' try_get_spec [OF c'(2)] by (auto simp: caching_embed_def)
qed

theorem failed_embedding_is_cached_witness:
  "\<exists>c' c''. caching_embed \<lparr>p_embed = (\<lambda>n t. (n + 1, Inr [])), p_embed_batch = (\<lambda>n ts. (n, Inr []))\<rparr>
        (new_caching_provider (0 :: nat) 16) ''x'' = (c', Inr []) \<and> inner c' = 1
    \<and> caching_embed counting_ops c' ''x'' = (c'', Inr []) \<and> inner c'' = 1"
  by (rule failed_embedding_is_cached)
     (simp_all add: cache_ok_def new_caching_provider_def cached_def)

section \<open>The size of the cache, proved\<close>

lemma grow_power_result:
  assumes "grow_power p n = Some r"
  shows "n \<le> r \<and> (\<exists>k. r = push_bit k p)"
proof (rule grow_power.raw_induct [where P = "\<lambda>p n r. n \<le> r \<and> (\<exists>k. r = push_bit k p)", OF _ assms])
  fix grow and p n r :: u64
  assume IH: "\<And>p n r. grow p n = Some r \<Longrightarrow> n \<le> r \<and> (\<exists>k. r = push_bit k p)"
    and r: "(if p < n then grow (push_bit 1 p) n else Some p) = Some r"
  show "n \<le> r \<and> (\<exists>k. r = push_bit k p)"
  proof (cases "p < n")
    case True
    with r IH obtain k where "n \<le> r" "r = push_bit k (push_bit 1 p)" by fastforce
    then show ?thesis by (simp only: push_bit_push_bit) blast
  next
    case False
    then have "r = push_bit 0 p" "n \<le> r" using r by simp_all
    then show ?thesis by blast
  qed
qed

lemma push_bit_one_u64: "push_bit k (1 :: u64) = (if k < 64 then 2 ^ k else 0)"
  by (simp add: push_bit_eq_mult exp_eq_zero_iff)

lemma unat_two_power: "k < 64 \<Longrightarrow> unat ((2 :: u64) ^ k) = 2 ^ k"
proof -
  assume "k < 64"
  then have "unat (word_of_nat (2 ^ k) :: u64) = 2 ^ k"
    by (simp only: unsigned_of_nat) (simp add: take_bit_nat_eq_self)
  then show ?thesis by simp
qed

lemma grow_power_reaches:
  "unat n \<le> 2 ^ m \<Longrightarrow> m < 64 \<Longrightarrow> k \<le> m \<Longrightarrow> k = 0 \<or> 2 ^ (k - 1) < unat n \<Longrightarrow>
   \<exists>j \<le> m. grow_power (2 ^ k) n = Some (2 ^ j) \<and> unat n \<le> 2 ^ j \<and> (j = 0 \<or> 2 ^ (j - 1) < unat n)"
proof (induction "m - k" arbitrary: k rule: less_induct)
  case less
  have k64: "unat ((2 :: u64) ^ k) = 2 ^ k" using less.prems by (intro unat_two_power) simp
  show ?case
  proof (cases "(2 :: u64) ^ k < n")
    case False
    then have "grow_power (2 ^ k) n = Some (2 ^ k)" by (subst grow_power.simps) simp
    moreover have "unat n \<le> 2 ^ k" using False k64 by (simp add: word_less_nat_alt)
    ultimately show ?thesis using less.prems by blast
  next
    case True
    then have lt: "2 ^ k < unat n" using k64 by (simp add: word_less_nat_alt)
    have "k < m" using lt less.prems by (cases "k = m") auto
    have "grow_power (2 ^ k) n = grow_power (2 ^ Suc k) n"
      using True by (subst grow_power.simps) (simp add: push_bit_eq_mult mult.commute)
    then show ?thesis using less.hyps [of "Suc k"] \<open>k < m\<close> less.prems lt by auto
  qed
qed

lemma cache_size_power:
  assumes "unat batch_size \<le> 2 ^ 63"
  shows "\<exists>j. cache_size_for_batch batch_size = Some (2 ^ j) \<and> max (unat batch_size) 16 \<le> 2 ^ j
    \<and> 2 ^ (j - 1) < max (unat batch_size) 16 \<and> j < 64"
proof -
  let ?n = "max batch_size 16"
  have n: "unat ?n = max (unat batch_size) 16"
    by (simp add: max_def word_le_nat_alt)
  obtain j where "j \<le> 63" "grow_power (2 ^ 0) ?n = Some (2 ^ j)" "unat ?n \<le> 2 ^ j" "j = 0 \<or> 2 ^ (j - 1) < unat ?n"
    using grow_power_reaches [of ?n 63 0] assms n by auto
  then show ?thesis using n by (auto simp: cache_size_for_batch_def)
qed

text \<open>
  For batches of at most \<open>2 ^ 63\<close> texts the cache size is the smallest power of two
  that is at least sixteen and at least the batch size.
\<close>

theorem cache_size_for_batch_power:
  assumes "unat batch_size \<le> 2 ^ 63"
  shows "\<exists>j. cache_size_for_batch batch_size = Some (2 ^ j) \<and> max (unat batch_size) 16 \<le> 2 ^ j
    \<and> 2 ^ (j - 1) < max (unat batch_size) 16 \<and> j < 64"
  using assms by (rule cache_size_power)

theorem cache_size_for_batch_power_witness:
  "\<exists>j. cache_size_for_batch 100 = Some (2 ^ j) \<and> max (unat (100 :: u64)) 16 \<le> 2 ^ j
    \<and> 2 ^ (j - 1) < max (unat (100 :: u64)) 16 \<and> j < 64"
  by (rule cache_size_for_batch_power) simp

text \<open>
  For larger batch sizes the loop never ends: the doubled value overflows to zero. A
  batch size of \<open>-1\<close>, read as \<^verbatim>\<open>size_t\<close>, is one of them.
\<close>

theorem cache_size_for_batch_diverges:
  assumes "2 ^ 63 < unat batch_size"
  shows "cache_size_for_batch batch_size = None"
proof (rule ccontr)
  assume "cache_size_for_batch batch_size \<noteq> None"
  then obtain r where "grow_power 1 (max batch_size 16) = Some r" by (auto simp: cache_size_for_batch_def)
  then obtain k where "max batch_size 16 \<le> r" "r = push_bit k 1" using grow_power_result by blast
  then have "unat batch_size \<le> unat (push_bit k 1 :: u64)" by (simp add: word_le_nat_alt [symmetric])
  moreover have "unat (push_bit k 1 :: u64) \<le> 2 ^ 63"
  proof (cases "k < 64")
    case True
    then have "unat (push_bit k 1 :: u64) = 2 ^ k" by (simp only: push_bit_one_u64 if_True unat_two_power)
    also have "(2 :: nat) ^ k \<le> 2 ^ 63" using True by (intro power_increasing) simp_all
    finally show ?thesis .
  next
    case False
    then show ?thesis by (simp only: push_bit_one_u64 if_False) simp
  qed
  ultimately show False using assms by simp
qed

theorem cache_size_for_batch_diverges_witness: "cache_size_for_batch (-1) = None"
  by (rule cache_size_for_batch_diverges) (simp add: unsigned_minus_1_eq_mask mask_eq_exp_minus_1)

end
