(* ===== verification/Openai_Provider.thy ===== *)
theory Openai_Provider
  imports App_Config Caching_Provider
begin

text \<open>
  The remote provider of \<^verbatim>\<open>src/src/openai_provider.cpp\<close>. The request goes
  through the HTTP client; \<open>sleep\<close> stands for
  \<^verbatim>\<open>std::this_thread::sleep_for\<close>. The request body is an
  \<^verbatim>\<open>nlohmann::json\<close>, whose keys are sorted. An exception of the parser ends
  the reading of an answer and is caught; what was read before it stays.
\<close>

record OpenAIProvider =
  oa_api_key :: string
  oa_model :: string
  oa_base_url :: string
  oa_dimensions :: int
  oa_http :: "HttpClient option"

record 'w openai_env =
  oe_curl :: "'w curl"
  oe_json :: json_lib
  oe_sleep :: "int \<Rightarrow> 'w \<Rightarrow> 'w"

definition kMaxRetries :: nat where "kMaxRetries = 2"

definition kBaseBackoffMs :: int where "kBaseBackoffMs = 500"

definition is_retryable :: "HttpResponse \<Rightarrow> bool" where
  "is_retryable resp \<longleftrightarrow> \<not> curl_ok resp \<or> status_code resp = 429 \<or> 500 \<le> status_code resp"

definition resolve_api_key :: "string \<Rightarrow> string" where
  "resolve_api_key configured = configured"

definition new_OpenAIProvider :: "EmbeddingConfig \<Rightarrow> OpenAIProvider" where
  "new_OpenAIProvider cfg =
     \<lparr>oa_api_key = resolve_api_key (api_key cfg),
      oa_model = (if emb_model cfg = [] then ''text-embedding-3-small'' else emb_model cfg),
      oa_base_url = ''https://api.openai.com/v1/embeddings'', oa_dimensions = dimensions cfg, oa_http = None\<rparr>"

definition openai_init :: "bool \<Rightarrow> OpenAIProvider \<Rightarrow> OpenAIProvider result" where
  "openai_init handle p =
     (if oa_api_key p = [] then
        Inl (Throw (''OpenAIProvider: no API key configured. Set '' @ squote ''api_key'' @ '' in [embedding] config.''))
      else Inr (p\<lparr>oa_http := Some \<lparr>curl_handle = handle, timeout_secs = 30\<rparr>\<rparr>))"

definition openai_request :: "OpenAIProvider \<Rightarrow> json \<Rightarrow> json" where
  "openai_request p input =
     JObj ((if 0 < oa_dimensions p then [(''dimensions'', JInt (oa_dimensions p))] else []) @
           [(''input'', input), (''model'', JStr (oa_model p))])"

definition openai_headers :: "OpenAIProvider \<Rightarrow> string list" where
  "openai_headers p = [''Authorization: Bearer '' @ oa_api_key p]"

definition openai_embed :: "'w openai_env \<Rightarrow> OpenAIProvider \<Rightarrow> 'w \<Rightarrow> string \<Rightarrow> 'w \<times> vec result" where
  "openai_embed env p w txt =
     (case oa_http p of
        None \<Rightarrow> (w, Inr [])
      | Some http \<Rightarrow>
          (case j_dump (oe_json env) (openai_request p (JStr txt)) of
             Inl e \<Rightarrow> (w, Inl e)
           | Inr body_str \<Rightarrow>
               (case post_json (oe_curl env) http (oa_base_url p) body_str (openai_headers p) w of
                  (w', resp) \<Rightarrow>
                    (w', if \<not> curl_ok resp then Inr []
                         else if status_code resp \<noteq> 200 then Inr []
                         else catch_with []
                           (bindE (j_parse (oe_json env) (body resp)) (\<lambda>j.
                            bindE (json_at ''data'' j) (\<lambda>d.
                            bindE (json_at_index 0 d) (\<lambda>x.
                            bindE (json_at ''embedding'' x) (j_get_floats (oe_json env)))))))))) "

text \<open>The retry loop: \<open>left\<close> retries are still allowed at attempt number \<open>attempt\<close>.\<close>

fun openai_attempts ::
  "'w openai_env \<Rightarrow> ('w \<Rightarrow> 'w \<times> HttpResponse) \<Rightarrow> nat \<Rightarrow> nat \<Rightarrow> 'w \<Rightarrow> 'w \<times> HttpResponse option" where
  "openai_attempts env send attempt left w =
     (case send w of
        (w1, resp) \<Rightarrow>
          if curl_ok resp \<and> status_code resp = 200 then (w1, Some resp)
          else if \<not> is_retryable resp then (w1, None)
          else (case left of
                  0 \<Rightarrow> (w1, None)
                | Suc l \<Rightarrow> openai_attempts env send (attempt + 1) l
                             (oe_sleep env (kBaseBackoffMs * 2 ^ attempt) w1)))"

declare openai_attempts.simps [simp del]

text \<open>The loop over the items of the answer.\<close>

fun openai_fill :: "json_lib \<Rightarrow> json list \<Rightarrow> vec list \<Rightarrow> vec list \<times> failure option" where
  "openai_fill lib [] results = (results, None)"
| "openai_fill lib (item # items) results =
     (case bindE (json_at ''index'' item) (j_get_size lib) of
        Inl e \<Rightarrow> (results, Some e)
      | Inr idx \<Rightarrow>
          if idx < length results then
            (case bindE (json_at ''embedding'' item) (j_get_floats lib) of
               Inl e \<Rightarrow> (results, Some e)
             | Inr v \<Rightarrow> openai_fill lib items (results[idx := v]))
          else openai_fill lib items results)"

definition openai_read :: "json_lib \<Rightarrow> string \<Rightarrow> vec list \<Rightarrow> vec list result" where
  "openai_read lib txt results =
     (case bindE (j_parse lib txt) (json_at ''data'') of
        Inl (Throw _) \<Rightarrow> Inr results
      | Inl OutOfBounds \<Rightarrow> Inl OutOfBounds
      | Inr d \<Rightarrow>
          (case openai_fill lib (json_elements d) results of
             (r, Some OutOfBounds) \<Rightarrow> Inl OutOfBounds
           | (r, _) \<Rightarrow> Inr r))"

definition openai_embed_batch :: "'w openai_env \<Rightarrow> OpenAIProvider \<Rightarrow> 'w embedder" where
  "openai_embed_batch env p w texts =
     (case oa_http p of
        None \<Rightarrow> (w, Inr (replicate (length texts) []))
      | Some http \<Rightarrow>
          if texts = [] then (w, Inr [])
          else
            (case j_dump (oe_json env) (openai_request p (JArr (map JStr texts))) of
               Inl e \<Rightarrow> (w, Inl e)
             | Inr body_str \<Rightarrow>
                 (case openai_attempts env
                         (post_json (oe_curl env) http (oa_base_url p) body_str (openai_headers p))
                         0 kMaxRetries w of
                    (w', None) \<Rightarrow> (w', Inr (replicate (length texts) []))
                  | (w', Some resp) \<Rightarrow>
                      (w', openai_read (oe_json env) (body resp) (replicate (length texts) [])))))"

section \<open>Properties\<close>

lemma openai_fill_length: "length (fst (openai_fill lib items rs)) = length rs"
  by (induction items arbitrary: rs) (auto split: sum.splits)

lemma openai_read_length: "openai_read lib txt rs = Inr r \<Longrightarrow> length r = length rs"
  using openai_fill_length [of lib _ rs]
  by (auto simp: openai_read_def split: sum.splits failure.splits prod.splits option.splits) (metis fst_conv)+

text \<open>
  A batch always comes back with one vector for each text, empty where the service gave
  none, whether the requests succeed, fail or give a partial or malformed answer.
\<close>

theorem openai_embed_batch_length:
  assumes "openai_embed_batch env p w texts = (w', Inr vs)"
  shows "length vs = length texts"
  using assms
  by (auto simp: openai_embed_batch_def dest: openai_read_length
      split: option.splits if_splits sum.splits prod.splits)

lemma openai_attempts_count:
  fixes requests :: "'w \<Rightarrow> nat"
  assumes "\<And>w. requests (fst (send w)) = requests w + 1" "\<And>ms w. requests (oe_sleep env ms w) = requests w"
  shows "requests (fst (openai_attempts env send attempt left w)) \<le> requests w + left + 1
    \<and> requests w + 1 \<le> requests (fst (openai_attempts env send attempt left w))"
proof (induction left arbitrary: attempt w)
  case 0
  then show ?case
    using assms(1) [of w] by (subst (1 2) openai_attempts.simps) (auto split: prod.splits)
next
  case (Suc left)
  obtain w1 resp where s: "send w = (w1, resp)" by fastforce
  have "requests (oe_sleep env ms w1) = requests w + 1" for ms using assms(1) [of w] assms(2) s by simp
  then show ?case
    using Suc [of "attempt + 1" "oe_sleep env (kBaseBackoffMs * 2 ^ attempt) w1"] s assms(1) [of w]
    by (subst (1 2) openai_attempts.simps) auto
qed

text \<open>
  A batch costs at most three requests: the first and two retries. \<open>requests\<close>
  counts the transfers of the HTTP library; sleeping makes none.
\<close>

theorem openai_at_most_three_requests:
  fixes requests :: "'w \<Rightarrow> nat"
  assumes "\<And>w rq. requests (fst (oe_curl env w rq)) = requests w + 1" "\<And>ms w. requests (oe_sleep env ms w) = requests w"
    and "oa_http p = Some http" "curl_handle http"
  shows "requests (fst (openai_embed_batch env p w texts)) \<le> requests w + 3"
proof -
  have "requests (fst (post_json (oe_curl env) http (oa_base_url p) b (openai_headers p) w)) = requests w + 1" for b w
    using assms(1) [of w] assms(4)
    by (auto simp: post_json_def http_perform_def Let_def split: prod.splits curl_outcome.splits)
       (metis fst_conv)+
  from openai_attempts_count [where requests = requests and attempt = 0 and left = kMaxRetries, OF this assms(2)]
  have "requests (fst (openai_attempts env (post_json (oe_curl env) http (oa_base_url p) b (openai_headers p)) 0 kMaxRetries w))
      \<le> requests w + 3" for b
    by (simp add: kMaxRetries_def numeral_eq_Suc)
  then show ?thesis
    using assms(3) by (auto simp: openai_embed_batch_def split: sum.splits prod.splits option.splits) (metis fst_conv)+
qed

text \<open>A service that answers every request with status 500, and one call of the batch.\<close>

definition openai_sample :: OpenAIProvider where
  "openai_sample = \<lparr>oa_api_key = ''k'', oa_model = ''m'', oa_base_url = ''u'', oa_dimensions = 2,
     oa_http = Some \<lparr>curl_handle = True, timeout_secs = 30\<rparr>\<rparr>"

definition failing_openai :: "nat openai_env" where
  "failing_openai = \<lparr>oe_curl = (\<lambda>n _. (n + 1, CurlOk 500 [])), oe_json = sample_json, oe_sleep = (\<lambda>_ n. n)\<rparr>"

lemma failing_openai_run: "openai_embed_batch failing_openai openai_sample 0 [''a'', ''b''] = (3, Inr [[], []])"
  by (simp add: openai_embed_batch_def openai_sample_def failing_openai_def openai_request_def openai_attempts.simps
      kMaxRetries_def numeral_2_eq_2 sample_json_def post_json_def http_perform_def is_retryable_def Let_def)

theorem openai_embed_batch_length_witness: "length [[], [] :: vec] = length [''a'', ''b'']"
  by (rule openai_embed_batch_length [OF failing_openai_run])

theorem openai_at_most_three_requests_witness:
  "fst (openai_embed_batch failing_openai openai_sample 0 [''a'', ''b'']) \<le> 0 + 3"
  by (rule openai_at_most_three_requests [where requests = "\<lambda>n. n"
        and http = "\<lparr>curl_handle = True, timeout_secs = 30\<rparr>"])
     (simp_all add: failing_openai_def openai_sample_def)

text \<open>What an item of the answer says: the place of a text and its vector.\<close>

definition item_says :: "json_lib \<Rightarrow> json \<Rightarrow> nat \<Rightarrow> vec \<Rightarrow> bool" where
  "item_says lib item i v \<longleftrightarrow>
     bindE (json_at ''index'' item) (j_get_size lib) = Inr i \<and>
     bindE (json_at ''embedding'' item) (j_get_floats lib) = Inr v"

lemma openai_fill_items:
  assumes "list_all2 (\<lambda>item (i, v). item_says lib item i v) items ps"
  shows "openai_fill lib items rs = (fold (\<lambda>(i, v) rs. if i < length rs then rs[i := v] else rs) ps rs, None)"
  using assms
proof (induction items ps arbitrary: rs rule: list_all2_induct)
  case (Cons item items p ps)
  then show ?case by (cases p) (simp add: item_says_def)
qed simp

lemma fold_update_nth:
  assumes "distinct (map fst ps)" "(i, v) \<in> set ps" "i < length rs"
  shows "fold (\<lambda>(i, v) rs. if i < length rs then rs[i := v] else rs) ps rs ! i = (v :: 'a)"
proof -
  have keep: "fold (\<lambda>(i, v) rs. if i < length rs then rs[i := v] else rs) ps rs ! i = rs ! i"
    if "i \<notin> fst ` set ps" for ps and rs :: "'a list"
    using that by (induction ps arbitrary: rs) auto
  have len: "length (fold (\<lambda>(i, v) rs. if i < length rs then rs[i := v] else rs) ps rs) = length rs"
    for ps and rs :: "'a list"
    by (induction ps arbitrary: rs) auto
  show ?thesis
    using assms
  proof (induction ps arbitrary: rs)
    case (Cons p ps)
    show ?case
    proof (cases "p = (i, v)")
      case True
      then show ?thesis using Cons.prems keep [of ps "rs[i := v]"] by auto
    next
      case False
      then show ?thesis using Cons by (auto simp: split_beta)
    qed
  qed simp
qed

text \<open>
  C35. Vectors go to their texts by the index the service gives, not by the order of the answer:
  when a request succeeds and the items of its answer carry distinct indices, each vector is
  returned at its index.
\<close>

theorem openai_vectors_by_index:
  assumes "oa_http p = Some http" "texts \<noteq> []"
    and "j_dump (oe_json env) (openai_request p (JArr (map JStr texts))) = Inr b"
    and "post_json (oe_curl env) http (oa_base_url p) b (openai_headers p) w = (w', resp)"
    and "curl_ok resp" "status_code resp = 200"
    and "bindE (j_parse (oe_json env) (body resp)) (json_at ''data'') = Inr (JArr items)"
    and "list_all2 (\<lambda>item (i, v). item_says (oe_json env) item i v) items ps"
    and "distinct (map fst ps)" "(i, v) \<in> set ps" "i < length texts"
  shows "\<exists>vs. openai_embed_batch env p w texts = (w', Inr vs) \<and> vs ! i = v"
proof -
  let ?vs = "fold (\<lambda>(i, v) rs. if i < length rs then rs[i := v] else rs) ps (replicate (length texts) [])"
  have "openai_attempts env (post_json (oe_curl env) http (oa_base_url p) b (openai_headers p)) 0 kMaxRetries w
      = (w', Some resp)"
    using assms(4,5,6) by (subst openai_attempts.simps) simp
  moreover have "openai_read (oe_json env) (body resp) (replicate (length texts) []) = Inr ?vs"
    using assms(7) openai_fill_items [OF assms(8)] by (simp add: openai_read_def)
  ultimately have "openai_embed_batch env p w texts = (w', Inr ?vs)"
    using assms(1,2,3) by (simp add: openai_embed_batch_def)
  then show ?thesis using fold_update_nth [OF assms(9,10)] assms(11) by simp
qed

definition answer_json :: json where
  "answer_json = JObj [(''data'', JArr [JObj [(''index'', JInt 1), (''embedding'', JArr [JFloat 7])],
                                        JObj [(''index'', JInt 0), (''embedding'', JArr [JFloat 8])]])]"

definition answering_openai :: "nat openai_env" where
  "answering_openai = \<lparr>oe_curl = (\<lambda>n _. (n + 1, CurlOk 200 ''x'')),
     oe_json = sample_json\<lparr>j_parse := (\<lambda>_. Inr answer_json)\<rparr>, oe_sleep = (\<lambda>_ n. n)\<rparr>"

theorem openai_vectors_by_index_witness:
  "\<exists>vs. openai_embed_batch answering_openai openai_sample 0 [''a'', ''b''] = (1, Inr vs) \<and> vs ! 1 = [7]"
  by (rule openai_vectors_by_index [where ps = "[(1, [7]), (0, [8])]" and b = "''dimensions''"
        and http = "\<lparr>curl_handle = True, timeout_secs = 30\<rparr>"
        and resp = "\<lparr>status_code = 200, body = ''x'', curl_ok = True, curl_error = []\<rparr>"
        and items = "[JObj [(''index'', JInt 1), (''embedding'', JArr [JFloat 7])],
                      JObj [(''index'', JInt 0), (''embedding'', JArr [JFloat 8])]]"])
     (simp_all add: answering_openai_def openai_sample_def sample_json_def answer_json_def openai_request_def
       post_json_def http_perform_def json_at_def item_says_def Let_def)

end
