(* ===== verification/Llama_Provider.thy ===== *)
theory Llama_Provider
  imports App_Config Caching_Provider
begin

text \<open>
  The local provider of \<^verbatim>\<open>src/src/llama_provider.cpp\<close>. llama.cpp is a
  parameter (\<open>llama_lib\<close>): loading models and adapters, the tokenizer, encoding and
  reading back embeddings; a context is a value of type \<open>'c\<close>. Tokens are integers. The
  mutex has no counterpart: a call is one step.
\<close>

record llama_context_params =
  cp_n_ctx :: u32
  cp_n_batch :: u32
  cp_n_ubatch :: u32
  cp_n_seq_max :: u32
  cp_n_threads :: u32
  cp_n_threads_batch :: u32
  cp_embeddings :: bool

record batch_entry =
  bt_token :: int
  bt_pos :: nat
  bt_seq_id :: nat

record ('m, 'c, 'l) llama_lib =
  ll_supports_gpu_offload :: bool
  ll_model_load :: "string \<Rightarrow> int \<Rightarrow> 'm option"
  ll_init_from_model :: "'m \<Rightarrow> llama_context_params \<Rightarrow> 'c option"
  ll_lora_init :: "'m \<Rightarrow> string \<Rightarrow> 'l option"
  ll_set_adapters_lora :: "'c \<Rightarrow> 'l \<Rightarrow> u32 \<Rightarrow> 'c \<times> int"
  ll_adapter_meta_val_str :: "'l \<Rightarrow> string \<Rightarrow> nat \<Rightarrow> int \<times> string"
  ll_tokenize :: "'m \<Rightarrow> string \<Rightarrow> nat \<Rightarrow> int \<times> int list"
  ll_memory_clear :: "'c \<Rightarrow> 'c"
  ll_encode :: "'c \<Rightarrow> batch_entry list \<Rightarrow> 'c \<times> int"
  ll_get_embeddings_seq :: "'c \<Rightarrow> nat \<Rightarrow> vec option"
  ll_get_embeddings_ith :: "'c \<Rightarrow> nat \<Rightarrow> vec option"
  ll_n_seq_max :: "'c \<Rightarrow> int"
  ll_n_batch :: "'c \<Rightarrow> int"

record ('m, 'c, 'l) LlamaProvider =
  lp_model_path :: string
  lp_lora_path :: string
  lp_lora_scale :: u32
  text_prefix :: string
  lp_n_threads :: int
  lp_n_ctx :: int
  lp_n_batch :: int
  lp_n_gpu_layers :: int
  lp_model :: "'m option"
  lp_ctx :: "'c option"
  lp_lora :: "'l option"

record LlamaTokenizedText =
  tokens :: "int list"
  original_index :: nat
  ok :: bool

definition new_LlamaProvider :: "EmbeddingConfig \<Rightarrow> ('m, 'c, 'l) LlamaProvider" where
  "new_LlamaProvider cfg =
     \<lparr>lp_model_path = model_path cfg, lp_lora_path = lora_path cfg, lp_lora_scale = lora_scale cfg,
      text_prefix = [], lp_n_threads = n_threads cfg, lp_n_ctx = n_ctx cfg, lp_n_batch = max_batch_size cfg,
      lp_n_gpu_layers = n_gpu_layers cfg, lp_model = None, lp_ctx = None, lp_lora = None\<rparr>"

section \<open>Start-up\<close>

definition llama_context_params_of :: "('m, 'c, 'l) LlamaProvider \<Rightarrow> llama_context_params" where
  "llama_context_params_of p =
     (let n_seq_max = word_of_int (max 1 (lp_n_batch p)); n_batch = word_of_int (lp_n_ctx p) * n_seq_max
      in \<lparr>cp_n_ctx = word_of_int (lp_n_ctx p), cp_n_batch = n_batch, cp_n_ubatch = n_batch, cp_n_seq_max = n_seq_max,
          cp_n_threads = word_of_int (lp_n_threads p), cp_n_threads_batch = word_of_int (lp_n_threads p),
          cp_embeddings = True\<rparr>)"

definition llama_activate_lora ::
  "('m, 'c, 'l) llama_lib \<Rightarrow> 'm \<Rightarrow> 'c \<Rightarrow> ('m, 'c, 'l) LlamaProvider \<Rightarrow> ('m, 'c, 'l) LlamaProvider result" where
  "llama_activate_lora lib model ctx p =
     (case ll_lora_init lib model (c_str (lp_lora_path p)) of
        None \<Rightarrow> Inl (Throw (''LlamaProvider: failed to load LoRA adapter from '' @ squote (lp_lora_path p) @ '' '' @
                  em_dash @ '' check that the path exists, is a valid LoRA GGUF, and matches this model's architecture''))
      | Some lora \<Rightarrow>
          (case ll_set_adapters_lora lib ctx lora (lp_lora_scale p) of
             (ctx', rc) \<Rightarrow>
               if rc \<noteq> 0 then
                 Inl (Throw (''LlamaProvider: failed to activate LoRA adapter '' @ squote (lp_lora_path p) @
                             '' on the llama context''))
               else
                 (case ll_adapter_meta_val_str lib lora ''adapter.lora.prompt_prefix'' 512 of
                    (n, buf) \<Rightarrow>
                      Inr (p\<lparr>lp_lora := Some lora, lp_ctx := Some ctx',
                             text_prefix := (if 0 < n then c_str (take 512 buf) else text_prefix p)\<rparr>))))"

definition llama_init ::
  "('m, 'c, 'l) llama_lib \<Rightarrow> ('m, 'c, 'l) LlamaProvider \<Rightarrow> ('m, 'c, 'l) LlamaProvider result" where
  "llama_init lib p =
     (let gpu_layers = (if 0 < lp_n_gpu_layers p \<and> \<not> ll_supports_gpu_offload lib then 0 else lp_n_gpu_layers p) in
      case ll_model_load lib (c_str (lp_model_path p)) gpu_layers of
        None \<Rightarrow> Inl (Throw (''LlamaProvider: failed to load model from '' @ squote (lp_model_path p) @ '' '' @
                  em_dash @ '' check that the path exists and is a valid GGUF file''))
      | Some model \<Rightarrow>
          (case ll_init_from_model lib model (llama_context_params_of p) of
             None \<Rightarrow> Inl (Throw ''LlamaProvider: failed to create llama context'')
           | Some ctx \<Rightarrow>
               let p1 = p\<lparr>lp_model := Some model, lp_ctx := Some ctx\<rparr> in
               if lp_lora_path p = [] then Inr p1 else llama_activate_lora lib model ctx p1))"

section \<open>Tokenizing and batching\<close>

definition tokenize_one ::
  "('m, 'c, 'l) llama_lib \<Rightarrow> 'm \<Rightarrow> string \<Rightarrow> nat \<Rightarrow> nat \<times> string \<Rightarrow> LlamaTokenizedText" where
  "tokenize_one lib model pre cap = (\<lambda>(i, txt).
     (case ll_tokenize lib model (pre @ txt) cap of
        (n_tokens, buf) \<Rightarrow>
          if n_tokens < 0 then \<lparr>tokens = [], original_index = i, ok = False\<rparr>
          else if int cap < n_tokens then \<lparr>tokens = [], original_index = i, ok = False\<rparr>
          else \<lparr>tokens = take (nat n_tokens) buf, original_index = i, ok = True\<rparr>))"

text \<open>A negative \<^verbatim>\<open>n_ctx\<close> asks for a vector of nearly \<open>2 ^ 64\<close> tokens.\<close>

definition tokenize_batch ::
  "('m, 'c, 'l) llama_lib \<Rightarrow> ('m, 'c, 'l) LlamaProvider \<Rightarrow> 'm \<Rightarrow> string list \<Rightarrow> LlamaTokenizedText list result" where
  "tokenize_batch lib p model texts =
     (if texts \<noteq> [] \<and> lp_n_ctx p < 0 then Inl (Throw ''cannot create std::vector larger than max_size()'')
      else Inr (map (tokenize_one lib model (text_prefix p) (nat (lp_n_ctx p))) (enumerate 0 texts)))"

definition sequence_entries :: "nat \<times> LlamaTokenizedText \<Rightarrow> batch_entry list" where
  "sequence_entries = (\<lambda>(seq, item).
     if ok item then map (\<lambda>(pos, tok). \<lparr>bt_token = tok, bt_pos = pos, bt_seq_id = seq\<rparr>) (enumerate 0 (tokens item))
     else [])"

definition build_batch :: "LlamaTokenizedText list \<Rightarrow> batch_entry list" where
  "build_batch tokenized = concat (map sequence_entries (enumerate 0 tokenized))"

definition last_token_index :: "batch_entry list \<Rightarrow> nat \<Rightarrow> LlamaTokenizedText \<Rightarrow> nat option" where
  "last_token_index batch seq item =
     (case filter (\<lambda>(i, e). bt_seq_id e = seq \<and> int (bt_pos e) = int (length (tokens item)) - 1) (enumerate 0 batch) of
        [] \<Rightarrow> None | (i, _) # _ \<Rightarrow> Some i)"

definition extract_one ::
  "('m, 'c, 'l) llama_lib \<Rightarrow> 'c \<Rightarrow> batch_entry list \<Rightarrow> nat \<times> LlamaTokenizedText \<Rightarrow> vec" where
  "extract_one lib ctx batch = (\<lambda>(seq, item).
     if \<not> ok item then []
     else (case ll_get_embeddings_seq lib ctx seq of
             Some v \<Rightarrow> v
           | None \<Rightarrow>
               (case last_token_index batch seq item of
                  None \<Rightarrow> []
                | Some i \<Rightarrow> (case ll_get_embeddings_ith lib ctx i of Some v \<Rightarrow> v | None \<Rightarrow> []))))"

definition extract_embeddings ::
  "('m, 'c, 'l) llama_lib \<Rightarrow> 'c \<Rightarrow> batch_entry list \<Rightarrow> LlamaTokenizedText list \<Rightarrow> vec list" where
  "extract_embeddings lib ctx batch tokenized = map (extract_one lib ctx batch) (enumerate 0 tokenized)"

definition llama_embed ::
  "('m, 'c, 'l) llama_lib \<Rightarrow> ('m, 'c, 'l) LlamaProvider \<Rightarrow> 'm \<Rightarrow> 'c \<Rightarrow> string \<Rightarrow> 'c \<times> vec result" where
  "llama_embed lib p model ctx txt =
     (case tokenize_batch lib p model [txt] of
        Inl e \<Rightarrow> (ctx, Inl e)
      | Inr tokenized \<Rightarrow>
          if tokenized = [] \<or> \<not> ok (hd tokenized) then (ctx, Inr [])
          else
            let batch = build_batch tokenized in
            (case ll_encode lib (ll_memory_clear lib ctx) batch of
               (ctx', rc) \<Rightarrow>
                 if rc \<noteq> 0 then (ctx', Inr [])
                 else (ctx', Inr (hd (extract_embeddings lib ctx' batch tokenized)))))"

text \<open>\<^verbatim>\<open>flush_chunk\<close>: encode the chunk and put its vectors in their places.\<close>

definition flush_chunk ::
  "('m, 'c, 'l) llama_lib \<Rightarrow> LlamaTokenizedText list \<Rightarrow> 'c \<times> vec list \<Rightarrow> 'c \<times> vec list" where
  "flush_chunk lib chunk = (\<lambda>(ctx, results).
     if chunk = [] then (ctx, results)
     else
       let batch = build_batch chunk in
       (case ll_encode lib (ll_memory_clear lib ctx) batch of
          (ctx', rc) \<Rightarrow>
            if rc \<noteq> 0 then (ctx', results)
            else (ctx', fold (\<lambda>(item, v) rs. rs[original_index item := v])
                          (zip chunk (extract_embeddings lib ctx' batch chunk)) results)))"

text \<open>
  The loop over the tokenized texts; \<open>chunk_tokens\<close> counts the tokens of the chunk. The
  sum is an \<^verbatim>\<open>int\<close> in the source; both terms are at most
  \<^verbatim>\<open>max_tokens_per_chunk\<close>.
\<close>

fun llama_chunk_loop ::
  "('m, 'c, 'l) llama_lib \<Rightarrow> int \<Rightarrow> int \<Rightarrow> LlamaTokenizedText list \<Rightarrow> LlamaTokenizedText list \<Rightarrow> int \<Rightarrow>
   'c \<times> vec list \<Rightarrow> 'c \<times> vec list" where
  "llama_chunk_loop lib max_seq max_tokens [] chunk chunk_tokens st = flush_chunk lib chunk st"
| "llama_chunk_loop lib max_seq max_tokens (item # items) chunk chunk_tokens st =
     (if \<not> ok item \<or> tokens item = [] then llama_chunk_loop lib max_seq max_tokens items chunk chunk_tokens st
      else
        let n_toks = int (length (tokens item)) in
        if max_tokens < n_toks then llama_chunk_loop lib max_seq max_tokens items chunk chunk_tokens st
        else if chunk \<noteq> [] \<and> (max_tokens < chunk_tokens + n_toks \<or> max_seq \<le> int (length chunk)) then
          llama_chunk_loop lib max_seq max_tokens items [item] n_toks (flush_chunk lib chunk st)
        else llama_chunk_loop lib max_seq max_tokens items (chunk @ [item]) (chunk_tokens + n_toks) st)"

definition llama_embed_batch ::
  "('m, 'c, 'l) llama_lib \<Rightarrow> ('m, 'c, 'l) LlamaProvider \<Rightarrow> 'm \<Rightarrow> 'c embedder" where
  "llama_embed_batch lib p model ctx texts =
     (if texts = [] then (ctx, Inr [])
      else
        (case tokenize_batch lib p model texts of
           Inl e \<Rightarrow> (ctx, Inl e)
         | Inr tokenized \<Rightarrow>
             (case llama_chunk_loop lib (max 1 (ll_n_seq_max lib ctx)) (ll_n_batch lib ctx) tokenized [] 0
                     (ctx, replicate (length texts) []) of
                (ctx', results) \<Rightarrow> (ctx', Inr results))))"

section \<open>Chunks\<close>

text \<open>The chunks the loop flushes, as a list.\<close>

fun llama_chunks ::
  "int \<Rightarrow> int \<Rightarrow> LlamaTokenizedText list \<Rightarrow> LlamaTokenizedText list \<Rightarrow> LlamaTokenizedText list list" where
  "llama_chunks max_seq max_tokens [] chunk = (if chunk = [] then [] else [chunk])"
| "llama_chunks max_seq max_tokens (item # items) chunk =
     (if \<not> ok item \<or> tokens item = [] \<or> max_tokens < int (length (tokens item)) then
        llama_chunks max_seq max_tokens items chunk
      else if chunk \<noteq> [] \<and> (max_tokens < int (length (concat (map tokens chunk))) + int (length (tokens item))
                 \<or> max_seq \<le> int (length chunk)) then
        chunk # llama_chunks max_seq max_tokens items [item]
      else llama_chunks max_seq max_tokens items (chunk @ [item]))"

definition eligible :: "int \<Rightarrow> LlamaTokenizedText \<Rightarrow> bool" where
  "eligible max_tokens item \<longleftrightarrow> ok item \<and> tokens item \<noteq> [] \<and> int (length (tokens item)) \<le> max_tokens"

lemma flush_Nil [simp]: "flush_chunk lib [] st = st"
  by (cases st) (simp add: flush_chunk_def)

lemma llama_chunk_loop_chunks:
  "llama_chunk_loop lib max_seq max_tokens items chunk (int (length (concat (map tokens chunk)))) st =
   fold (flush_chunk lib) (llama_chunks max_seq max_tokens items chunk) st"
proof (induction items arbitrary: chunk st)
  case Nil
  then show ?case by simp
next
  case (Cons item items)
  then show ?case
    using Cons [of "[item]"] Cons [of "chunk @ [item]"] by (auto simp: Let_def)
qed

lemma llama_chunks_concat:
  "concat (llama_chunks max_seq max_tokens items chunk) = chunk @ filter (eligible max_tokens) items"
  by (induction items arbitrary: chunk) (auto simp: eligible_def)

lemma llama_chunks_fit:
  assumes "1 \<le> max_seq" "int (length chunk) \<le> max_seq" "int (length (concat (map tokens chunk))) \<le> max_tokens"
    and "c \<in> set (llama_chunks max_seq max_tokens items chunk)"
  shows "c \<noteq> [] \<and> int (length c) \<le> max_seq \<and> int (length (concat (map tokens c))) \<le> max_tokens"
  using assms
proof (induction items arbitrary: chunk)
  case Nil
  then show ?case by (simp split: if_splits)
next
  case (Cons item items)
  consider "\<not> ok item \<or> tokens item = [] \<or> max_tokens < int (length (tokens item))"
    | "int (length (tokens item)) \<le> max_tokens" "c = chunk" "chunk \<noteq> []"
    | "int (length (tokens item)) \<le> max_tokens" "c \<in> set (llama_chunks max_seq max_tokens items [item])"
    | "c \<in> set (llama_chunks max_seq max_tokens items (chunk @ [item]))" "int (length (chunk @ [item])) \<le> max_seq"
      "int (length (concat (map tokens (chunk @ [item])))) \<le> max_tokens"
    using Cons.prems by (cases "chunk = []") (auto split: if_splits)
  then show ?case
  proof cases
    case 1
    then show ?thesis using Cons by auto
  next
    case 2
    then show ?thesis using Cons.prems by simp
  next
    case 3
    then show ?thesis using Cons.IH [of "[item]"] Cons.prems(1) by simp
  next
    case 4
    then show ?thesis using Cons.IH [of "chunk @ [item]"] Cons.prems(1) by simp
  qed
qed

lemma build_batch_aux:
  "length (concat (map sequence_entries (enumerate n chunk))) = length (concat (map tokens (filter ok chunk)))"
  by (induction chunk arbitrary: n) (simp_all add: sequence_entries_def)

text \<open>
  C33. Every batch that is sent to llama.cpp fits: the chunks of a list of texts are not empty,
  hold at most as many sequences and tokens as the context allows, and the batch built from a
  chunk has exactly as many entries as were allocated for it. Together the chunks hold every
  text that fits at all, once and in order.
\<close>

theorem llama_chunks_bounds:
  assumes "1 \<le> max_seq" "0 \<le> max_tokens"
  shows "(\<forall>c \<in> set (llama_chunks max_seq max_tokens items []).
            c \<noteq> [] \<and> int (length c) \<le> max_seq \<and> int (length (concat (map tokens c))) \<le> max_tokens
          \<and> length (build_batch c) = length (concat (map tokens c)))
    \<and> concat (llama_chunks max_seq max_tokens items []) = filter (eligible max_tokens) items
    \<and> llama_chunk_loop lib max_seq max_tokens items [] 0 st =
        fold (flush_chunk lib) (llama_chunks max_seq max_tokens items []) st"
proof (intro conjI ballI)
  fix c assume c: "c \<in> set (llama_chunks max_seq max_tokens items [])"
  note fit = llama_chunks_fit [OF assms(1) _ _ c]
  show "c \<noteq> []" "int (length c) \<le> max_seq" "int (length (concat (map tokens c))) \<le> max_tokens"
    using fit assms by simp_all
  have "set c \<subseteq> set (filter (eligible max_tokens) items)"
    using c by (auto simp: llama_chunks_concat [of max_seq max_tokens items "[]", simplified, symmetric])
  then have "filter ok c = c" by (auto simp: filter_id_conv eligible_def)
  then show "length (build_batch c) = length (concat (map tokens c))"
    using build_batch_aux [of 0 c] by (simp add: build_batch_def)
next
  show "concat (llama_chunks max_seq max_tokens items []) = filter (eligible max_tokens) items"
    using llama_chunks_concat [of max_seq max_tokens items "[]"] by simp
  show "llama_chunk_loop lib max_seq max_tokens items [] 0 st =
        fold (flush_chunk lib) (llama_chunks max_seq max_tokens items []) st"
    using llama_chunk_loop_chunks [of lib max_seq max_tokens items "[]" st] by simp
qed

definition sample_item :: "nat \<Rightarrow> int list \<Rightarrow> LlamaTokenizedText" where
  "sample_item i ts = \<lparr>tokens = ts, original_index = i, ok = True\<rparr>"

text \<open>A library whose context remembers the last batch and embeds a sequence as its tokens.\<close>

definition echo_llama :: "(unit, batch_entry list, unit) llama_lib" where
  "echo_llama = \<lparr>ll_supports_gpu_offload = False, ll_model_load = (\<lambda>_ _. Some ()),
     ll_init_from_model = (\<lambda>_ _. Some []), ll_lora_init = (\<lambda>_ _. None),
     ll_set_adapters_lora = (\<lambda>c _ _. (c, 0)), ll_adapter_meta_val_str = (\<lambda>_ _ _. (-1, [])),
     ll_tokenize = (\<lambda>_ s n. if length s \<le> n then (int (length s), map of_char s) else (- int (length s), [])),
     ll_memory_clear = (\<lambda>_. []), ll_encode = (\<lambda>_ b. (b, 0)),
     ll_get_embeddings_seq = (\<lambda>b i. Some (map (\<lambda>e. word_of_int (bt_token e)) (filter (\<lambda>e. bt_seq_id e = i) b))),
     ll_get_embeddings_ith = (\<lambda>_ _. None), ll_n_seq_max = (\<lambda>_. 2), ll_n_batch = (\<lambda>_. 4)\<rparr>"

theorem llama_chunks_bounds_witness:
  "llama_chunk_loop echo_llama 2 4 [sample_item 0 [1, 2, 3], sample_item 1 [4, 5], sample_item 2 [6]] [] 0
     ([], [[], [], []]) =
   fold (flush_chunk echo_llama) [[sample_item 0 [1, 2, 3]], [sample_item 1 [4, 5], sample_item 2 [6]]]
     ([], [[], [], []])"
  using llama_chunks_bounds [of 2 4 "[sample_item 0 [1, 2, 3], sample_item 1 [4, 5], sample_item 2 [6]]" echo_llama
      "([], [[], [], []])"]
  by (simp add: sample_item_def eligible_def)

section \<open>Chunking does not change the vectors\<close>

text \<open>
  What is asked of llama.cpp: a batch within the limits of the context is encoded, and the
  embedding of each sequence is a function \<open>f\<close> of its tokens alone, whatever else is in
  the batch.
\<close>

definition encodes_by ::
  "('m, 'c, 'l) llama_lib \<Rightarrow> (int list \<Rightarrow> vec) \<Rightarrow> ('c \<Rightarrow> bool) \<Rightarrow> int \<Rightarrow> int \<Rightarrow> bool" where
  "encodes_by lib f okc max_seq max_tokens \<longleftrightarrow>
     (\<forall>ctx chunk. okc ctx \<and> chunk \<noteq> [] \<and> list_all (\<lambda>item. ok item \<and> tokens item \<noteq> []) chunk
        \<and> int (length chunk) \<le> max_seq \<and> int (length (concat (map tokens chunk))) \<le> max_tokens \<longrightarrow>
        (\<exists>ctx'. ll_encode lib (ll_memory_clear lib ctx) (build_batch chunk) = (ctx', 0) \<and> okc ctx'
          \<and> (\<forall>i < length chunk. ll_get_embeddings_seq lib ctx' i = Some (f (tokens (chunk ! i))))))"

lemma flush_chunk_encodes:
  assumes "encodes_by lib f okc max_seq max_tokens" "okc ctx" "list_all (\<lambda>item. ok item \<and> tokens item \<noteq> []) chunk"
    and "chunk \<noteq> []" "int (length chunk) \<le> max_seq" "int (length (concat (map tokens chunk))) \<le> max_tokens"
  shows "\<exists>ctx'. okc ctx' \<and> flush_chunk lib chunk (ctx, rs) =
    (ctx', fold (\<lambda>(i, v) rs. rs[i := v]) (map (\<lambda>item. (original_index item, f (tokens item))) chunk) rs)"
proof -
  obtain ctx' where c: "ll_encode lib (ll_memory_clear lib ctx) (build_batch chunk) = (ctx', 0)" "okc ctx'"
    "\<forall>i < length chunk. ll_get_embeddings_seq lib ctx' i = Some (f (tokens (chunk ! i)))"
    using assms unfolding encodes_by_def by blast
  have "extract_embeddings lib ctx' (build_batch chunk) chunk = map (\<lambda>item. f (tokens item)) chunk"
    using assms(3) c(3)
    by (intro nth_equalityI) (auto simp: extract_embeddings_def extract_one_def nth_enumerate_eq list_all_length)
  then have "flush_chunk lib chunk (ctx, rs) =
      (ctx', fold (\<lambda>(item, v) rs. rs[original_index item := v]) (map (\<lambda>item. (item, f (tokens item))) chunk) rs)"
    using assms(4) c(1) by (simp add: flush_chunk_def Let_def zip_map2 zip_same_conv_map comp_def)
  also have "fold (\<lambda>(item, v) rs. rs[original_index item := v]) (map (\<lambda>item. (item, f (tokens item))) chunk) rs
      = fold (\<lambda>(i, v) rs. rs[i := v]) (map (\<lambda>item. (original_index item, f (tokens item))) chunk) rs"
    by (simp add: fold_map comp_def)
  finally show ?thesis using c(2) by blast
qed

lemma flush_chunks_encode:
  assumes "encodes_by lib f okc max_seq max_tokens" "okc ctx"
    and "\<forall>c \<in> set cs. c \<noteq> [] \<and> list_all (\<lambda>item. ok item \<and> tokens item \<noteq> []) c \<and> int (length c) \<le> max_seq
           \<and> int (length (concat (map tokens c))) \<le> max_tokens"
  shows "\<exists>ctx'. okc ctx' \<and> fold (flush_chunk lib) cs (ctx, rs) =
    (ctx', fold (\<lambda>(i, v) rs. rs[i := v]) (map (\<lambda>item. (original_index item, f (tokens item))) (concat cs)) rs)"
  using assms(2,3)
proof (induction cs arbitrary: ctx rs)
  case Nil
  then show ?case by simp
next
  case (Cons c cs)
  then obtain ctx1 where c1: "okc ctx1" "flush_chunk lib c (ctx, rs) =
      (ctx1, fold (\<lambda>(i, v) rs. rs[i := v]) (map (\<lambda>item. (original_index item, f (tokens item))) c) rs)"
    using flush_chunk_encodes [OF assms(1), of ctx c rs] by auto
  then show ?case
    using Cons.IH [of ctx1 "fold (\<lambda>(i, v) rs. rs[i := v]) (map (\<lambda>item. (original_index item, f (tokens item))) c) rs"]
      Cons.prems by simp
qed

text \<open>The vector of one text by itself: empty when it does not tokenize or does not fit.\<close>

definition llama_text_vector ::
  "('m, 'c, 'l) llama_lib \<Rightarrow> ('m, 'c, 'l) LlamaProvider \<Rightarrow> 'm \<Rightarrow> (int list \<Rightarrow> vec) \<Rightarrow> int \<Rightarrow> string \<Rightarrow> vec" where
  "llama_text_vector lib p model f max_tokens txt =
     (let item = tokenize_one lib model (text_prefix p) (nat (lp_n_ctx p)) (0, txt)
      in if eligible max_tokens item then f (tokens item) else [])"

lemma tokenize_one_index:
  "original_index (tokenize_one lib model pre cap (i, txt)) = i"
  "tokens (tokenize_one lib model pre cap (i, txt)) = tokens (tokenize_one lib model pre cap (0, txt))"
  "ok (tokenize_one lib model pre cap (i, txt)) = ok (tokenize_one lib model pre cap (0, txt))"
  by (simp_all add: tokenize_one_def split: prod.splits)

lemma eligible_index:
  "eligible m (tokenize_one lib model pre cap (i, txt)) = eligible m (tokenize_one lib model pre cap (0, txt))"
  using tokenize_one_index [of lib model pre cap i "txt"] by (simp add: eligible_def)

lemma enumerate_map_of:
  assumes i: "i < length xs"
  shows "map_of (map (\<lambda>(j, x). (j, g x)) (filter (\<lambda>(j, x). P x) (enumerate 0 xs))) i =
     (if P (xs ! i) then Some (g (xs ! i)) else None)" (is "map_of ?ps i = _")
proof -
  have d: "distinct (map fst ?ps)"
    by (simp add: comp_def split_beta distinct_map_filter)
  have mem: "(i, y) \<in> set ?ps \<longleftrightarrow> P (xs ! i) \<and> y = g (xs ! i)" for y
    using i by (auto simp: in_set_enumerate_eq image_iff)
  show ?thesis
  proof (cases "P (xs ! i)")
    case True
    then have "(i, g (xs ! i)) \<in> set ?ps" using mem by simp
    with d True show ?thesis by (simp only: map_of_is_SomeI if_True)
  next
    case False
    then have "map_of ?ps i = None" using mem by (metis map_of_SomeD not_None_eq)
    with False show ?thesis by simp
  qed
qed

lemma tokenized_updates:
  "map (\<lambda>item. (original_index item, f (tokens item)))
     (filter (eligible m) (map (tokenize_one lib model pre cap) (enumerate n texts))) =
   map (\<lambda>(i, t). (i, f (tokens (tokenize_one lib model pre cap (0, t)))))
     (filter (\<lambda>(i, t). eligible m (tokenize_one lib model pre cap (0, t))) (enumerate n texts))"
proof (induction texts arbitrary: n)
  case (Cons t texts)
  then show ?case
    using tokenize_one_index [of lib model pre cap n t] eligible_index [of m lib model pre cap n t] by simp
qed simp


text \<open>The entries of a sequence are its tokens, in order.\<close>

lemma sequence_entries_tokens:
  "ok item \<Longrightarrow> map bt_token (filter (\<lambda>e. bt_seq_id e = i) (sequence_entries (n, item))) = (if i = n then tokens item else [])"
proof -
  assume "ok item"
  moreover have "map bt_token (filter (\<lambda>e. bt_seq_id e = i)
      (map (\<lambda>(pos, tok). \<lparr>bt_token = tok, bt_pos = pos, bt_seq_id = n\<rparr>) (enumerate k ts))) = (if i = n then ts else [])" for k ts
    by (induction ts arbitrary: k) auto
  ultimately show ?thesis by (simp add: sequence_entries_def)
qed

lemma build_batch_sequence_from:
  "list_all ok chunk \<Longrightarrow> n \<le> i \<Longrightarrow> i < n + length chunk \<Longrightarrow>
   map bt_token (filter (\<lambda>e. bt_seq_id e = i) (concat (map sequence_entries (enumerate n chunk)))) = tokens (chunk ! (i - n))"
proof (induction chunk arbitrary: n)
  case (Cons item chunk)
  have rest: "map bt_token (filter (\<lambda>e. bt_seq_id e = i) (concat (map sequence_entries (enumerate m c)))) = []"
    if "i < m" "list_all ok c" for m c
    using that by (induction c arbitrary: m) (simp_all add: sequence_entries_tokens del: map_is_Nil_conv)
  show ?case
  proof (cases "i = n")
    case True
    then show ?thesis using Cons.prems rest [of "Suc n" chunk] by (simp add: sequence_entries_tokens)
  next
    case False
    then have "(item # chunk) ! (i - n) = chunk ! (i - Suc n)" using Cons.prems by (simp add: nth_Cons')
    then show ?thesis using False Cons by (simp add: sequence_entries_tokens)
  qed
qed simp

lemma build_batch_sequence:
  "list_all ok chunk \<Longrightarrow> i < length chunk \<Longrightarrow>
   map bt_token (filter (\<lambda>e. bt_seq_id e = i) (build_batch chunk)) = tokens (chunk ! i)"
  using build_batch_sequence_from [of chunk 0 i] by (simp add: build_batch_def)

lemma echo_encodes: "encodes_by echo_llama (map word_of_int) (\<lambda>_. True) s t"
  unfolding encodes_by_def
proof (intro allI impI)
  fix ctx and chunk :: "LlamaTokenizedText list"
  assume H: "True \<and> chunk \<noteq> [] \<and> list_all (\<lambda>item. ok item \<and> tokens item \<noteq> []) chunk
    \<and> int (length chunk) \<le> s \<and> int (length (concat (map tokens chunk))) \<le> t"
  then have "list_all ok chunk" by (simp add: list_all_iff)
  note seq = build_batch_sequence [OF this]
  have "ll_get_embeddings_seq echo_llama (build_batch chunk) i = Some (map word_of_int (tokens (chunk ! i)))"
    if "i < length chunk" for i
    unfolding seq [OF that, symmetric] by (simp add: echo_llama_def comp_def)
  moreover have "ll_encode echo_llama (ll_memory_clear echo_llama ctx) (build_batch chunk) = (build_batch chunk, 0)"
    by (simp add: echo_llama_def)
  ultimately show "\<exists>ctx'. ll_encode echo_llama (ll_memory_clear echo_llama ctx) (build_batch chunk) = (ctx', 0) \<and> True
      \<and> (\<forall>i < length chunk. ll_get_embeddings_seq echo_llama ctx' i = Some (map word_of_int (tokens (chunk ! i))))"
    by blast
qed

definition small_llama :: "(unit, batch_entry list, unit) LlamaProvider" where
  "small_llama = new_LlamaProvider (default_embedding\<lparr>n_ctx := 3\<rparr>)"

lemma echo_vectors:
  "map (llama_text_vector echo_llama small_llama () (map word_of_int) 4) [''ab'', ''toolong'', ''c''] = [[97, 98], [], [99]]"
  by (simp add: small_llama_def new_LlamaProvider_def default_embedding_def echo_llama_def llama_text_vector_def
      tokenize_one_def eligible_def)


end
