(* ===== verification/Reader_Writer_Queue.thy ===== *)
theory Reader_Writer_Queue
  imports Walkrie_Prelude
begin

text \<open>
  The queue between the replication sources and the dispatcher:
  \<^verbatim>\<open>src/src/queue/readerwriterqueue.hpp\<close>, a circular list of circular buffers, and
  the semaphore of \<^verbatim>\<open>src/src/queue/atomicops.hpp\<close> that its blocking form counts
  with. Blocks live in a list and are addressed by their position, since blocks are never freed
  while the queue is in use. A slot of a block is \<open>None\<close> while it holds no object. Operations
  run one at a time here; what the producer does while the consumer waits is an explicit input of
  the waiting operations. \<^verbatim>\<open>malloc\<close> is a parameter that says whether the
  allocation of the \<open>i\<close>-th block succeeds.
\<close>

section \<open>Rounding up to a power of two\<close>

definition ceilToPow2 :: "u64 \<Rightarrow> u64" where
  "ceilToPow2 x =
     (let x = x - 1;
          x = x OR drop_bit 1 x;
          x = x OR drop_bit 2 x;
          x = x OR drop_bit 4 x;
          x = x OR drop_bit (1 * 8) x;
          x = x OR drop_bit (2 * 8) x;
          x = x OR drop_bit (4 * 8) x
      in x + 1)"

definition smeared :: "nat \<Rightarrow> u64 \<Rightarrow> u64 \<Rightarrow> bool" where
  "smeared w x y \<longleftrightarrow> (\<forall>n. bit y n \<longleftrightarrow> (\<exists>j<w. bit x (n + j)))"

lemma smeared_1: "smeared 1 x x"
  by (simp add: smeared_def)

lemma smeared_double: "smeared w x y \<Longrightarrow> smeared (2 * w) x (y OR drop_bit w y)"
proof -
  assume s: "smeared w x y"
  have "(\<exists>j<w. bit x (n + j)) \<or> (\<exists>j<w. bit x (n + w + j)) \<longleftrightarrow> (\<exists>j<2 * w. bit x (n + j))" for n
  proof
    assume "\<exists>j<2 * w. bit x (n + j)"
    then obtain j where j: "j < 2 * w" "bit x (n + j)" by blast
    show "(\<exists>j<w. bit x (n + j)) \<or> (\<exists>j<w. bit x (n + w + j))"
    proof (cases "j < w")
      case False
      then have "j - w < w" "n + w + (j - w) = n + j" using j by auto
      then show ?thesis using j by metis
    qed (use j in blast)
  next
    assume "(\<exists>j<w. bit x (n + j)) \<or> (\<exists>j<w. bit x (n + w + j))"
    then show "\<exists>j<2 * w. bit x (n + j)"
    proof
      assume "\<exists>j<w. bit x (n + w + j)"
      then obtain j where "j < w" "bit x (n + w + j)" by blast
      then show ?thesis by (intro exI [of _ "w + j"]) (simp add: add.assoc)
    qed (use trans_less_add1 in \<open>fastforce\<close>)
  qed
  then show ?thesis using s by (simp add: smeared_def bit_or_iff bit_drop_bit_eq add.commute)
qed

lemma bit_word_unat: "bit (x :: u64) n \<longleftrightarrow> odd (unat x div 2 ^ n)"
proof -
  have "bit (unat x) n \<longleftrightarrow> bit x n"
    using bit_imp_le_length [of x n] by (auto simp: bit_unsigned_iff)
  then show ?thesis by (simp add: bit_iff_odd)
qed

lemma len64: "LENGTH(64) = 64"
  by simp

lemma unat_exp_less: "n < 64 \<Longrightarrow> unat (2 ^ n :: u64) = 2 ^ n"
proof -
  assume "n < 64"
  then have "(2::nat) ^ n < 2 ^ 64" by (intro power_strict_increasing) simp_all
  then have "unat (word_of_nat (2 ^ n) :: u64) = 2 ^ n" by (subst unat_of_nat) (simp only: len64 mod_less)
  then show ?thesis by simp
qed

lemma smeared_64:
  assumes "smeared 64 x y" "x \<noteq> 0"
  obtains k where "k < 64" "2 ^ k \<le> unat x" "unat x < 2 ^ Suc k" "y = mask (Suc k)"
proof -
  have "unat x \<noteq> 0" using assms(2) by (simp add: unat_eq_zero)
  then obtain k where k: "2 ^ k \<le> unat x" "unat x < 2 ^ Suc k"
    using ex_power_ivl1 [of 2 "unat x"] by fastforce
  have "2 ^ k < (2::nat) ^ 64" using le_less_trans [OF k(1) unsigned_less [of x, where ?'a = nat]] by (simp only: len64)
  then have k64: "k < 64" by (rule power_less_imp_less_exp [rotated]) simp
  have "unat x div 2 ^ k = 1" using k by (intro div_nat_eqI) simp_all
  then have top: "bit x k" by (simp add: bit_word_unat)
  have above: "\<not> bit x n" if "k < n" for n
  proof -
    have "(2::nat) ^ Suc k \<le> 2 ^ n" using that by (intro power_increasing) simp_all
    then show ?thesis using less_le_trans [OF k(2)] by (simp add: bit_word_unat)
  qed
  have bits: "bit y n \<longleftrightarrow> n \<le> k" for n
  proof
    assume "bit y n"
    then obtain j where "bit x (n + j)" using assms(1) by (auto simp: smeared_def)
    then have "n + j \<le> k" using above [of "n + j"] by (simp only: not_less [symmetric]) blast
    then show "n \<le> k" by simp
  next
    assume "n \<le> k"
    then have "k - n < 64" "bit x (n + (k - n))" using k64 top by auto
    then show "bit y n" using assms(1) unfolding smeared_def by blast
  qed
  have "y = mask (Suc k)"
    by (rule bit_word_eqI) (simp only: bits bit_mask_iff less_Suc_eq_le possible_bit_word len64, simp)
  then show thesis using that k k64 by blast
qed

lemma smeared_step: "smeared w x y \<Longrightarrow> v = 2 * w \<Longrightarrow> smeared v x (y OR drop_bit w y)"
  using smeared_double by blast

lemma ceilToPow2_smeared: "\<exists>y. smeared 64 (x - 1) y \<and> ceilToPow2 x = y + 1"
proof -
  define x0 where "x0 = x - 1"
  define x1 where "x1 = x0 OR drop_bit 1 x0"
  define x2 where "x2 = x1 OR drop_bit 2 x1"
  define x3 where "x3 = x2 OR drop_bit 4 x2"
  define x4 where "x4 = x3 OR drop_bit (1 * 8) x3"
  define x5 where "x5 = x4 OR drop_bit (2 * 8) x4"
  define x6 where "x6 = x5 OR drop_bit (4 * 8) x5"
  have "smeared 2 x0 x1" unfolding x1_def by (rule smeared_step [OF smeared_1]) simp
  then have "smeared 4 x0 x2" unfolding x2_def by (rule smeared_step) simp
  then have "smeared (1 * 8) x0 x3" unfolding x3_def by (rule smeared_step) simp
  then have "smeared (2 * 8) x0 x4" unfolding x4_def by (rule smeared_step) simp
  then have "smeared (4 * 8) x0 x5" unfolding x5_def by (rule smeared_step) simp
  then have "smeared 64 x0 x6" unfolding x6_def by (rule smeared_step) simp
  moreover have "ceilToPow2 x = x6 + 1"
    unfolding ceilToPow2_def Let_def x6_def x5_def x4_def x3_def x2_def x1_def x0_def by (rule refl)
  ultimately show ?thesis unfolding x0_def by blast
qed

lemma ceilToPow2_least:
  assumes "1 \<le> unat x" "unat x \<le> 2 ^ 63"
  shows "\<exists>k. unat (ceilToPow2 x) = 2 ^ k \<and> unat x \<le> 2 ^ k \<and> (\<forall>j. unat x \<le> 2 ^ j \<longrightarrow> k \<le> j)"
proof -
  obtain y where y: "smeared 64 (x - 1) y" "ceilToPow2 x = y + 1" using ceilToPow2_smeared by blast
  have x1: "unat (x - 1) = unat x - 1"
  proof -
    have "x \<noteq> 0" using assms(1) by auto
    then show ?thesis by (simp add: unat_minus_one)
  qed
  show ?thesis
  proof (cases "x - 1 = 0")
    case True
    then have "y = 0" using y(1) by (auto simp: smeared_def intro: bit_eqI)
    moreover have "unat x = 1" using True x1 assms(1) by simp
    ultimately show ?thesis using y(2) by (intro exI [of _ 0]) simp
  next
    case False
    then obtain k where k: "k < 64" "2 ^ k \<le> unat (x - 1)" "unat (x - 1) < 2 ^ Suc k" "y = mask (Suc k)"
      using smeared_64 y(1) by blast
    have "2 ^ k < (2::nat) ^ 63" using k(2) x1 assms by linarith
    then have "k < 63" by (rule power_less_imp_less_exp [rotated]) simp
    moreover have "y + 1 = 2 ^ Suc k" using k(4) by (simp add: mask_eq_exp_minus_1)
    ultimately have "unat (ceilToPow2 x) = 2 ^ Suc k"
      using y(2) unat_exp_less [of "Suc k"] by simp
    moreover have "unat x \<le> 2 ^ Suc k" using k(3) x1 by linarith
    moreover have "Suc k \<le> j" if "unat x \<le> 2 ^ j" for j
    proof -
      have "2 ^ k < (2::nat) ^ j" using that k(2) x1 assms(1) by linarith
      then have "k < j" by (rule power_less_imp_less_exp [rotated]) simp
      then show ?thesis by simp
    qed
    ultimately show ?thesis by blast
  qed
qed
section \<open>Blocks\<close>

record 'a Block =
  b_front :: nat
  b_localTail :: nat
  b_tail :: nat
  b_localFront :: nat
  b_next :: nat
  b_data :: "'a option list"
  b_sizeMask :: nat

text \<open>The link to the next block is set by whoever creates the block.\<close>

definition make_block :: "nat \<Rightarrow> 'a Block" where
  "make_block capacity = \<lparr>b_front = 0, b_localTail = 0, b_tail = 0, b_localFront = 0, b_next = 0,
     b_data = replicate capacity None, b_sizeMask = capacity - 1\<rparr>"

record 'a ReaderWriterQueue =
  blocks :: "'a Block list"
  frontBlock :: nat
  tailBlock :: nat
  largestBlockSize :: nat

definition MAX_BLOCK_SIZE :: nat where
  "MAX_BLOCK_SIZE = 512"

abbreviation block_at :: "'a ReaderWriterQueue \<Rightarrow> nat \<Rightarrow> 'a Block" where
  "block_at q i \<equiv> blocks q ! i"

definition set_block :: "nat \<Rightarrow> 'a Block \<Rightarrow> 'a ReaderWriterQueue \<Rightarrow> 'a ReaderWriterQueue" where
  "set_block i b q = q\<lparr>blocks := (blocks q)[i := b]\<rparr>"

section \<open>Construction\<close>

text \<open>The loop that links \<open>n\<close> more blocks into the ring; the newest block points back to the first.\<close>

fun alloc_blocks :: "(nat \<Rightarrow> bool) \<Rightarrow> nat \<Rightarrow> 'a Block list \<Rightarrow> 'a Block list result" where
  "alloc_blocks malloc 0 bs = Inr bs"
| "alloc_blocks malloc (Suc n) bs =
     (if \<not> malloc (length bs) then Inl (Throw ''std::bad_alloc'')
      else alloc_blocks malloc n
        (bs[length bs - 1 := (bs ! (length bs - 1))\<lparr>b_next := length bs\<rparr>]
         @ [(make_block MAX_BLOCK_SIZE)\<lparr>b_next := 0\<rparr>]))"

definition new_queue :: "(nat \<Rightarrow> bool) \<Rightarrow> nat \<Rightarrow> 'a ReaderWriterQueue result" where
  "new_queue malloc sz =
     (let largest = unat (ceilToPow2 (word_of_nat (sz + 1))) in
      if largest > MAX_BLOCK_SIZE * 2 then
        bindE (alloc_blocks malloc ((sz + MAX_BLOCK_SIZE * 2 - 3) div (MAX_BLOCK_SIZE - 1)) [])
          (\<lambda>bs. Inr \<lparr>blocks = bs, frontBlock = 0, tailBlock = 0, largestBlockSize = MAX_BLOCK_SIZE\<rparr>)
      else if \<not> malloc 0 then Inl (Throw ''std::bad_alloc'')
      else Inr \<lparr>blocks = [(make_block largest)\<lparr>b_next := 0\<rparr>], frontBlock = 0, tailBlock = 0,
                largestBlockSize = largest\<rparr>)"

section \<open>Enqueue\<close>

text \<open>Construct the element at the tail slot and publish the new tail.\<close>

definition store_at_tail :: "'a \<Rightarrow> 'a Block \<Rightarrow> 'a Block" where
  "store_at_tail x b = b\<lparr>b_data := (b_data b)[b_tail b := Some x], b_tail := (b_tail b + 1) AND b_sizeMask b\<rparr>"

text \<open>The tail block is full: use the free block behind it, or link a new one in.\<close>

definition enqueue_next :: "bool \<Rightarrow> (nat \<Rightarrow> bool) \<Rightarrow> 'a \<Rightarrow> 'a ReaderWriterQueue \<Rightarrow> 'a ReaderWriterQueue \<times> bool" where
  "enqueue_next canAlloc malloc x q =
     (let tb = tailBlock q; B = block_at q tb in
      if b_next B \<noteq> frontBlock q then
        let nb = b_next B;
            N = (block_at q nb)\<lparr>b_localFront := b_front (block_at q nb)\<rparr>
        in ((set_block nb (store_at_tail x N) q)\<lparr>tailBlock := nb\<rparr>, True)
      else if canAlloc then
        let newBlockSize = (if largestBlockSize q \<ge> MAX_BLOCK_SIZE then largestBlockSize q else largestBlockSize q * 2) in
        if \<not> malloc (length (blocks q)) then (q, False)
        else
          let nb = length (blocks q);
              M = make_block newBlockSize;
              N = M\<lparr>b_data := (b_data M)[0 := Some x], b_localTail := 1, b_tail := 1, b_next := b_next B\<rparr>
          in (\<lparr>blocks = (blocks q)[tb := B\<lparr>b_next := nb\<rparr>] @ [N], frontBlock = frontBlock q, tailBlock = nb,
               largestBlockSize = newBlockSize\<rparr>, True)
      else (q, False))"

definition inner_enqueue :: "bool \<Rightarrow> (nat \<Rightarrow> bool) \<Rightarrow> 'a \<Rightarrow> 'a ReaderWriterQueue \<Rightarrow> 'a ReaderWriterQueue \<times> bool" where
  "inner_enqueue canAlloc malloc x q =
     (let tb = tailBlock q;
          B = block_at q tb;
          nextBlockTail = (b_tail B + 1) AND b_sizeMask B in
      if nextBlockTail \<noteq> b_localFront B then (set_block tb (store_at_tail x B) q, True)
      else
        let B = B\<lparr>b_localFront := b_front B\<rparr> in
        if nextBlockTail \<noteq> b_localFront B then (set_block tb (store_at_tail x B) q, True)
        else enqueue_next canAlloc malloc x (set_block tb B q))"

definition try_enqueue :: "'a \<Rightarrow> 'a ReaderWriterQueue \<Rightarrow> 'a ReaderWriterQueue \<times> bool" where
  "try_enqueue x q = inner_enqueue False (\<lambda>_. False) x q"

definition enqueue :: "(nat \<Rightarrow> bool) \<Rightarrow> 'a \<Rightarrow> 'a ReaderWriterQueue \<Rightarrow> 'a ReaderWriterQueue \<times> bool" where
  "enqueue malloc x q = inner_enqueue True malloc x q"

section \<open>Dequeue\<close>

text \<open>
  Move the object out of the front slot, destroy it and publish the new front. Reading a slot
  that holds no object is \<open>OutOfBounds\<close>.
\<close>

definition take_front :: "'a Block \<Rightarrow> 'a Block \<times> 'a result" where
  "take_front b =
     (case b_data b ! b_front b of
        None \<Rightarrow> (b, Inl OutOfBounds)
      | Some x \<Rightarrow> (b\<lparr>b_data := (b_data b)[b_front b := None], b_front := (b_front b + 1) AND b_sizeMask b\<rparr>, Inr x))"

definition take_from :: "nat \<Rightarrow> 'a ReaderWriterQueue \<Rightarrow> 'a ReaderWriterQueue \<times> 'a option result" where
  "take_from i q = (case take_front (block_at q i) of (b, r) \<Rightarrow> (set_block i b q, bindE r (\<lambda>x. Inr (Some x))))"

text \<open>Refresh the consumer's copy of a block's tail.\<close>

definition load_tail :: "nat \<Rightarrow> 'a ReaderWriterQueue \<Rightarrow> 'a ReaderWriterQueue" where
  "load_tail i q = set_block i ((block_at q i)\<lparr>b_localTail := b_tail (block_at q i)\<rparr>) q"

definition try_dequeue :: "'a ReaderWriterQueue \<Rightarrow> 'a ReaderWriterQueue \<times> 'a option result" where
  "try_dequeue q =
     (let fb = frontBlock q; blockFront = b_front (block_at q fb) in
      if blockFront \<noteq> b_localTail (block_at q fb) then take_from fb q
      else
        let q = load_tail fb q in
        if blockFront \<noteq> b_localTail (block_at q fb) then take_from fb q
        else if fb \<noteq> tailBlock q then
          let q = load_tail fb q in
          if b_front (block_at q fb) \<noteq> b_localTail (block_at q fb) then take_from fb q
          else
            let nb = b_next (block_at q fb);
                q = (load_tail nb q)\<lparr>frontBlock := nb\<rparr>
            in take_from nb q
        else (q, Inr None))"

definition peek :: "'a ReaderWriterQueue \<Rightarrow> 'a ReaderWriterQueue \<times> 'a option result" where
  "peek q =
     (let fb = frontBlock q; blockFront = b_front (block_at q fb);
          slot = (\<lambda>i q. (q, case b_data (block_at q i) ! b_front (block_at q i) of
                          None \<Rightarrow> Inl OutOfBounds | Some x \<Rightarrow> Inr (Some x))) in
      if blockFront \<noteq> b_localTail (block_at q fb) then slot fb q
      else
        let q = load_tail fb q in
        if blockFront \<noteq> b_localTail (block_at q fb) then slot fb q
        else if fb \<noteq> tailBlock q then
          let q = load_tail fb q in
          if b_front (block_at q fb) \<noteq> b_localTail (block_at q fb) then slot fb q
          else slot (b_next (block_at q fb)) q
        else (q, Inr None))"

text \<open>\<^verbatim>\<open>pop\<close> repeats \<^verbatim>\<open>try_dequeue\<close> without moving the object out.\<close>

definition drop_from :: "nat \<Rightarrow> 'a ReaderWriterQueue \<Rightarrow> 'a ReaderWriterQueue \<times> bool result" where
  "drop_from i q = (case take_front (block_at q i) of (b, r) \<Rightarrow> (set_block i b q, bindE r (\<lambda>_. Inr True)))"

definition pop :: "'a ReaderWriterQueue \<Rightarrow> 'a ReaderWriterQueue \<times> bool result" where
  "pop q =
     (let fb = frontBlock q; blockFront = b_front (block_at q fb) in
      if blockFront \<noteq> b_localTail (block_at q fb) then drop_from fb q
      else
        let q = load_tail fb q in
        if blockFront \<noteq> b_localTail (block_at q fb) then drop_from fb q
        else if fb \<noteq> tailBlock q then
          let q = load_tail fb q in
          if b_front (block_at q fb) \<noteq> b_localTail (block_at q fb) then drop_from fb q
          else
            let nb = b_next (block_at q fb);
                q = (load_tail nb q)\<lparr>frontBlock := nb\<rparr>
            in drop_from nb q
        else (q, Inr False))"

text \<open>
  The walk once around the ring that adds up a number of each block. The difference of the two
  indices may be negative; its low bits are the number of objects all the same.
\<close>

definition ring_step :: "('a Block \<Rightarrow> nat) \<Rightarrow> 'a ReaderWriterQueue \<Rightarrow> nat \<times> nat \<Rightarrow> nat + nat \<times> nat" where
  "ring_step f q = (\<lambda>(result, i).
     let result = result + f (block_at q i); i = b_next (block_at q i) in
     if i = frontBlock q then Inl result else Inr (result, i))"

definition size_approx :: "'a ReaderWriterQueue \<Rightarrow> nat option" where
  "size_approx q = loop (\<lambda>s. Some (ring_step (\<lambda>b. nat ((int (b_tail b) - int (b_front b)) AND int (b_sizeMask b))) q s)) (0, frontBlock q)"

definition max_capacity :: "'a ReaderWriterQueue \<Rightarrow> nat option" where
  "max_capacity q = loop (\<lambda>s. Some (ring_step b_sizeMask q s)) (0, frontBlock q)"

section \<open>The blocking queue\<close>

text \<open>
  The semaphore has a user-space count, negative while the consumer waits, and the count of the
  kernel semaphore. \<^verbatim>\<open>signal\<close> wakes a waiting consumer.
\<close>

record LightweightSemaphore =
  m_count :: int
  m_sema :: nat

definition sema_signal :: "LightweightSemaphore \<Rightarrow> LightweightSemaphore" where
  "sema_signal s =
     (let oldCount = m_count s; s = s\<lparr>m_count := oldCount + 1\<rparr> in
      if oldCount < 0 then s\<lparr>m_sema := m_sema s + 1\<rparr> else s)"

definition tryWait :: "LightweightSemaphore \<Rightarrow> LightweightSemaphore \<times> bool" where
  "tryWait s = (if m_count s > 0 then (s\<lparr>m_count := m_count s - 1\<rparr>, True) else (s, False))"

text \<open>The loop after a timeout that takes the decrement back, unless a signal came in after all.\<close>

partial_function (option) take_back :: "LightweightSemaphore \<Rightarrow> (LightweightSemaphore \<times> bool) option" where
  "take_back s =
     (let oldCount = m_count s; s = s\<lparr>m_count := oldCount + 1\<rparr> in
      if oldCount < 0 then Some (s, False)
      else
        let oldCount = m_count s; s = s\<lparr>m_count := oldCount - 1\<rparr> in
        if oldCount > 0 \<and> m_sema s > 0 then Some (s\<lparr>m_sema := m_sema s - 1\<rparr>, True)
        else take_back s)"

declare take_back.simps [code]

record 'a BlockingReaderWriterQueue =
  inner :: "'a ReaderWriterQueue"
  sema :: LightweightSemaphore

definition new_blocking_queue :: "(nat \<Rightarrow> bool) \<Rightarrow> nat \<Rightarrow> 'a BlockingReaderWriterQueue result" where
  "new_blocking_queue malloc sz =
     bindE (new_queue malloc sz) (\<lambda>i. Inr \<lparr>inner = i, sema = \<lparr>m_count = 0, m_sema = 0\<rparr>\<rparr>)"

definition bq_enqueue :: "(nat \<Rightarrow> bool) \<Rightarrow> 'a \<Rightarrow> 'a BlockingReaderWriterQueue \<Rightarrow> 'a BlockingReaderWriterQueue \<times> bool" where
  "bq_enqueue malloc x q =
     (case enqueue malloc x (inner q) of
        (i, True) \<Rightarrow> (q\<lparr>inner := i, sema := sema_signal (sema q)\<rparr>, True)
      | (i, False) \<Rightarrow> (q\<lparr>inner := i\<rparr>, False))"

definition bq_try_enqueue :: "'a \<Rightarrow> 'a BlockingReaderWriterQueue \<Rightarrow> 'a BlockingReaderWriterQueue \<times> bool" where
  "bq_try_enqueue x q =
     (case try_enqueue x (inner q) of
        (i, True) \<Rightarrow> (q\<lparr>inner := i, sema := sema_signal (sema q)\<rparr>, True)
      | (i, False) \<Rightarrow> (q\<lparr>inner := i\<rparr>, False))"

text \<open>
  After a successful wait an element must be there; the call reports success in any case, so an
  empty queue at this point would hand out a stale object: a failed assertion.
\<close>

definition dequeue_counted :: "'a BlockingReaderWriterQueue \<Rightarrow> 'a BlockingReaderWriterQueue \<times> 'a option result" where
  "dequeue_counted q =
     (case try_dequeue (inner q) of
        (i, Inr None) \<Rightarrow> (q\<lparr>inner := i\<rparr>, Inl (Throw ''assert(success)''))
      | (i, r) \<Rightarrow> (q\<lparr>inner := i\<rparr>, r))"

definition bq_try_dequeue :: "'a BlockingReaderWriterQueue \<Rightarrow> 'a BlockingReaderWriterQueue \<times> 'a option result" where
  "bq_try_dequeue q =
     (case tryWait (sema q) of
        (s, True) \<Rightarrow> dequeue_counted (q\<lparr>sema := s\<rparr>)
      | (s, False) \<Rightarrow> (q, Inr None))"

definition bq_pop :: "'a BlockingReaderWriterQueue \<Rightarrow> 'a BlockingReaderWriterQueue \<times> bool result" where
  "bq_pop q =
     (case tryWait (sema q) of
        (s, True) \<Rightarrow>
          (case pop (inner q) of
             (i, Inr False) \<Rightarrow> (q\<lparr>inner := i, sema := s\<rparr>, Inl (Throw ''assert(result)''))
           | (i, r) \<Rightarrow> (q\<lparr>inner := i, sema := s\<rparr>, r))
      | (s, False) \<Rightarrow> (q, Inr False))"

definition bq_size_approx :: "'a BlockingReaderWriterQueue \<Rightarrow> nat" where
  "bq_size_approx q = (let c = m_count (sema q) in if c > 0 then nat c else 0)"

text \<open>What the producer thread puts in while the consumer waits.\<close>

fun post_all :: "(nat \<Rightarrow> bool) \<Rightarrow> 'a list \<Rightarrow> 'a BlockingReaderWriterQueue \<Rightarrow> 'a BlockingReaderWriterQueue" where
  "post_all malloc [] q = q"
| "post_all malloc (x # xs) q = post_all malloc xs (fst (bq_enqueue malloc x q))"

text \<open>
  \<open>arrive\<close> yields what is posted during the spinning, during the kernel wait and between its
  timeout and the last look at the count. \<open>None\<close> is a wait without time limit that nobody ends.
  The result has all elements that were posted.
\<close>

abbreviation count_down :: "'a BlockingReaderWriterQueue \<Rightarrow> 'a BlockingReaderWriterQueue" where
  "count_down q \<equiv> q\<lparr>sema := (sema q)\<lparr>m_count := m_count (sema q) - 1\<rparr>\<rparr>"

definition waitWithPartialSpinning ::
  "(nat \<Rightarrow> bool) \<Rightarrow> ('w \<Rightarrow> 'w \<times> 'a list) \<Rightarrow> int \<Rightarrow> 'w \<Rightarrow> 'a BlockingReaderWriterQueue \<Rightarrow>
     ('w \<times> 'a list \<times> 'a BlockingReaderWriterQueue \<times> bool) option" where
  "waitWithPartialSpinning malloc arrive timeout_usecs w q =
     (let (w1, p1) = arrive w; q1 = post_all malloc p1 q in
      if m_count (sema q1) > 0 then Some (w1, p1, count_down q1, True)
      else
        let (w2, p2) = arrive w1; q2 = post_all malloc p2 (count_down q1) in
        if timeout_usecs \<noteq> 0 \<and> m_sema (sema q2) > 0 then
          Some (w2, p1 @ p2, q2\<lparr>sema := (sema q2)\<lparr>m_sema := m_sema (sema q2) - 1\<rparr>\<rparr>, True)
        else if timeout_usecs < 0 then None
        else
          let (w3, p3) = arrive w2; q3 = post_all malloc p3 q2 in
          map_option (\<lambda>(s, ok). (w3, p1 @ p2 @ p3, q3\<lparr>sema := s\<rparr>, ok)) (take_back (sema q3)))"

definition wait_dequeue_timed ::
  "(nat \<Rightarrow> bool) \<Rightarrow> ('w \<Rightarrow> 'w \<times> 'a list) \<Rightarrow> int \<Rightarrow> 'w \<Rightarrow> 'a BlockingReaderWriterQueue \<Rightarrow>
     ('w \<times> 'a list \<times> 'a BlockingReaderWriterQueue \<times> 'a option result) option" where
  "wait_dequeue_timed malloc arrive timeout_usecs w q =
     (case tryWait (sema q) of
        (s, True) \<Rightarrow> Some (w, [], dequeue_counted (q\<lparr>sema := s\<rparr>))
      | (s, False) \<Rightarrow>
          map_option (\<lambda>(w, ps, q, ok). (w, ps, if ok then dequeue_counted q else (q, Inr None)))
            (waitWithPartialSpinning malloc arrive timeout_usecs w q))"

section \<open>What a block holds\<close>

text \<open>
  \<open>F\<close>, \<open>LF\<close> and \<open>LT\<close> are the unbounded counters behind the front and the two shadow copies;
  \<open>xs\<close> are the objects from the front to the tail. The shadow copies lag behind: the consumer's
  copy of the tail is between front and tail, the producer's copy of the front is at most one
  round behind the tail.
\<close>

definition cells :: "nat \<Rightarrow> nat \<Rightarrow> nat \<Rightarrow> nat \<Rightarrow> 'a Block \<Rightarrow> 'a list \<Rightarrow> bool" where
  "cells n F LF LT b xs \<longleftrightarrow>
     LF \<le> F \<and> F \<le> LT \<and> LT \<le> F + length xs \<and> F + length xs < LF + n
   \<and> length (b_data b) = n \<and> b_front b = F mod n \<and> b_tail b = (F + length xs) mod n
   \<and> b_localFront b = LF mod n \<and> b_localTail b = LT mod n
   \<and> (\<forall>i < length xs. b_data b ! ((F + i) mod n) = Some (xs ! i))"

definition block_size :: "nat \<Rightarrow> 'a Block \<Rightarrow> bool" where
  "block_size n b \<longleftrightarrow> (\<exists>k. n = 2 ^ Suc k) \<and> b_sizeMask b = n - 1"

definition block_rep :: "'a Block \<Rightarrow> 'a list \<Rightarrow> bool" where
  "block_rep b xs \<longleftrightarrow> (\<exists>n F LF LT. block_size n b \<and> cells n F LF LT b xs)"

lemma and_sizeMask: "block_size n b \<Longrightarrow> m AND b_sizeMask b = m mod n"
proof -
  assume "block_size n b"
  then obtain k where k: "n = 2 ^ Suc k" "b_sizeMask b = 2 ^ Suc k - 1" by (auto simp: block_size_def)
  then have "b_sizeMask b = mask (Suc k)" by (simp only: mask_eq_exp_minus_1)
  then have "m AND b_sizeMask b = take_bit (Suc k) m" by (simp only: take_bit_eq_mask)
  then show ?thesis using k(1) by (simp only: take_bit_eq_mod)
qed

lemma block_size_ge: "block_size n b \<Longrightarrow> 2 \<le> n"
  by (auto simp: block_size_def)

lemma mod_eq_near: "(a::nat) \<le> b \<Longrightarrow> b < a + n \<Longrightarrow> a mod n = b mod n \<longleftrightarrow> a = b"
  by (metis add_less_cancel_left le_add_diff_inverse mod_eq_dvd_iff_nat nat_dvd_not_less neq0_conv
      zero_less_diff diff_is_0_eq le_antisym mod_mod_trivial not_less)

lemma cells_front_tail:
  assumes "cells n F LF LT b xs"
  shows "b_front b = b_tail b \<longleftrightarrow> xs = []" "b_front b = b_localTail b \<longleftrightarrow> LT = F"
proof -
  have "F mod n = (F + length xs) mod n \<longleftrightarrow> F = F + length xs"
    using assms by (intro mod_eq_near) (auto simp: cells_def)
  moreover have "F mod n = LT mod n \<longleftrightarrow> F = LT"
    using assms by (intro mod_eq_near) (auto simp: cells_def)
  ultimately show "b_front b = b_tail b \<longleftrightarrow> xs = []" "b_front b = b_localTail b \<longleftrightarrow> LT = F"
    using assms by (auto simp: cells_def)
qed

lemma block_rep_empty: "block_rep b xs \<Longrightarrow> b_front b = b_tail b \<longleftrightarrow> xs = []"
  unfolding block_rep_def using cells_front_tail(1) by blast

lemma block_rep_next: "block_rep (b\<lparr>b_next := i\<rparr>) xs \<longleftrightarrow> block_rep b xs"
  by (simp add: block_rep_def block_size_def cells_def)

lemma block_rep_load_front: "block_rep b xs \<Longrightarrow> block_rep (b\<lparr>b_localFront := b_front b\<rparr>) xs"
proof -
  assume "block_rep b xs"
  then obtain n F LF LT where "block_size n b" "cells n F LF LT b xs" by (auto simp: block_rep_def)
  then have "block_size n (b\<lparr>b_localFront := b_front b\<rparr>)" "cells n F F LT (b\<lparr>b_localFront := b_front b\<rparr>) xs"
    by (auto simp: cells_def block_size_def)
  then show ?thesis unfolding block_rep_def by blast
qed

lemma block_rep_load_tail: "block_rep b xs \<Longrightarrow> block_rep (b\<lparr>b_localTail := b_tail b\<rparr>) xs"
proof -
  assume "block_rep b xs"
  then obtain n F LF LT where "block_size n b" "cells n F LF LT b xs" by (auto simp: block_rep_def)
  then have "block_size n (b\<lparr>b_localTail := b_tail b\<rparr>)"
    "cells n F LF (F + length xs) (b\<lparr>b_localTail := b_tail b\<rparr>) xs"
    by (auto simp: cells_def block_size_def)
  then show ?thesis unfolding block_rep_def by blast
qed

lemma block_rep_store:
  assumes "block_rep b xs" "(b_tail b + 1) AND b_sizeMask b \<noteq> b_localFront b"
  shows "block_rep (store_at_tail x b) (xs @ [x])"
proof -
  obtain n F LF LT where n: "block_size n b" and c: "cells n F LF LT b xs"
    using assms(1) by (auto simp: block_rep_def)
  have pos: "0 < n" using block_size_ge [OF n] by simp
  have tail: "(b_tail b + 1) AND b_sizeMask b = (F + length xs + 1) mod n"
    using c by (simp add: and_sizeMask [OF n] cells_def mod_Suc_eq)
  have room: "F + length xs + 1 < LF + n"
  proof (rule ccontr)
    assume "\<not> ?thesis"
    then have "F + length xs + 1 = LF + n" using c by (auto simp: cells_def)
    then have "(F + length xs + 1) mod n = LF mod n" by (metis mod_add_self2)
    then show False using assms(2) tail c by (simp add: cells_def)
  qed
  have apart: "(F + i) mod n \<noteq> (F + length xs) mod n" if "i < length xs" for i
    using mod_eq_near [of "F + i" "F + length xs" n] that c by (simp add: cells_def)
  have "b_data (store_at_tail x b) ! ((F + i) mod n) = Some ((xs @ [x]) ! i)" if "i < length (xs @ [x])" for i
  proof (cases "i = length xs")
    case True
    then show ?thesis using c pos by (simp add: cells_def store_at_tail_def)
  next
    case False
    then have "i < length xs" using that by simp
    then show ?thesis using c apart [of i] by (simp add: cells_def store_at_tail_def nth_append)
  qed
  then have "cells n F LF LT (store_at_tail x b) (xs @ [x])"
    using c room tail by (simp add: cells_def store_at_tail_def)
  moreover have "block_size n (store_at_tail x b)" using n by (simp add: block_size_def store_at_tail_def)
  ultimately show ?thesis unfolding block_rep_def by blast
qed

lemma block_rep_store_empty:
  assumes "block_rep b []" "b_localFront b = b_front b"
  shows "block_rep (store_at_tail x b) [x]"
proof -
  obtain n F LF LT where n: "block_size n b" and c: "cells n F LF LT b []"
    using assms(1) by (auto simp: block_rep_def)
  have "F mod n \<noteq> (F + 1) mod n"
    using mod_eq_near [of F "F + 1" n] block_size_ge [OF n] by simp
  then have "(b_tail b + 1) AND b_sizeMask b \<noteq> b_localFront b"
    using c assms(2) by (simp add: and_sizeMask [OF n] cells_def mod_Suc_eq)
  then show ?thesis using block_rep_store [OF assms(1)] by simp
qed

lemma block_rep_take:
  assumes "block_rep b xs" "b_front b \<noteq> b_localTail b"
  shows "\<exists>x ys b'. xs = x # ys \<and> take_front b = (b', Inr x) \<and> block_rep b' ys \<and> b_next b' = b_next b"
proof -
  obtain n F LF LT where n: "block_size n b" and c: "cells n F LF LT b xs"
    using assms(1) by (auto simp: block_rep_def)
  have LT: "F < LT" using cells_front_tail(2) [OF c] assms(2) c by (auto simp: cells_def)
  then obtain x ys where xs: "xs = x # ys" using c by (cases xs) (auto simp: cells_def)
  define b' where "b' = b\<lparr>b_data := (b_data b)[b_front b := None], b_front := (b_front b + 1) AND b_sizeMask b\<rparr>"
  have "b_data b ! b_front b = Some x" using c xs by (auto simp: cells_def)
  then have t: "take_front b = (b', Inr x)" by (simp add: take_front_def b'_def)
  have apart: "(F + Suc i) mod n \<noteq> F mod n" if "i < length ys" for i
    using mod_eq_near [of F "F + Suc i" n] that c xs by (auto simp: cells_def)
  have at: "b_data b ! ((F + Suc i) mod n) = Some (ys ! i)" if "i < length ys" for i
    using c xs that unfolding cells_def by (metis Suc_less_eq length_Cons nth_Cons_Suc)
  have "b_data b' ! ((Suc F + i) mod n) = Some (ys ! i)" if "i < length ys" for i
    using at [OF that] apart [OF that] c by (simp add: b'_def cells_def)
  then have "cells n (Suc F) LF LT b' ys"
    using c xs LT by (simp add: cells_def b'_def and_sizeMask [OF n] mod_Suc_eq)
  moreover have "block_size n b'" using n by (simp add: block_size_def b'_def)
  ultimately have "block_rep b' ys" unfolding block_rep_def by blast
  then show ?thesis using t xs by (auto simp: b'_def)
qed

lemma block_rep_make: "block_rep ((make_block (2 ^ Suc k))\<lparr>b_next := i\<rparr>) []"
  unfolding block_rep_def block_size_def cells_def make_block_def
  by (intro exI [of _ "2 ^ Suc k"] exI [of _ 0]) auto

lemma block_rep_make_one:
  "block_rep ((make_block (2 ^ Suc k))\<lparr>b_data := (replicate (2 ^ Suc k) None)[0 := Some x], b_localTail := 1,
     b_tail := 1, b_next := i\<rparr>) [x]"
proof -
  have "(1::nat) < 2 ^ Suc k" by (rule one_less_power) simp_all
  then show ?thesis unfolding block_rep_def block_size_def cells_def make_block_def
    by (intro exI [of _ "2 ^ Suc k"] exI [of _ 0] exI [of _ 1]) (auto simp del: power_Suc)
qed

section \<open>The ring of blocks\<close>

fun chained :: "(nat \<Rightarrow> nat) \<Rightarrow> nat list \<Rightarrow> bool" where
  "chained f (x # y # r) \<longleftrightarrow> f x = y \<and> chained f (y # r)"
| "chained f _ \<longleftrightarrow> True"

lemma chained_append: "chained f (xs @ a # ys) \<longleftrightarrow> chained f (xs @ [a]) \<and> chained f (a # ys)"
proof (induction xs)
  case (Cons x xs)
  then show ?case by (cases xs) auto
qed simp

lemma chained_cong: "(\<And>x. x \<in> set xs \<Longrightarrow> f x = g x) \<Longrightarrow> chained f (xs @ [a]) \<longleftrightarrow> chained g (xs @ [a])"
proof (induction xs)
  case (Cons x xs)
  then show ?case by (cases xs) auto
qed simp

text \<open>
  \<open>ps\<close> lists the blocks in use, from the front block to the tail block, with the objects each
  holds; \<open>free\<close> lists the empty blocks behind the tail. Together they are all blocks, in the order
  of the links. Only the front block of those in use may be empty.
\<close>

definition queue_rep :: "'a ReaderWriterQueue \<Rightarrow> (nat \<times> 'a list) list \<Rightarrow> nat list \<Rightarrow> bool" where
  "queue_rep q ps free \<longleftrightarrow>
     ps \<noteq> [] \<and> distinct (map fst ps @ free) \<and> set (map fst ps @ free) = {..<length (blocks q)}
   \<and> chained (\<lambda>i. b_next (block_at q i)) ((map fst ps @ free) @ [fst (hd ps)])
   \<and> frontBlock q = fst (hd ps) \<and> tailBlock q = fst (last ps)
   \<and> (\<forall>p \<in> set ps. block_rep (block_at q (fst p)) (snd p)) \<and> (\<forall>i \<in> set free. block_rep (block_at q i) [])
   \<and> (\<forall>p \<in> set (tl ps). snd p \<noteq> []) \<and> (\<exists>k. largestBlockSize q = 2 ^ Suc k)"

lemma block_at_set_block [simp]:
  "block_at (set_block i b q) j = (if i = j \<and> i < length (blocks q) then b else block_at q j)"
  "length (blocks (set_block i b q)) = length (blocks q)"
  "frontBlock (set_block i b q) = frontBlock q" "tailBlock (set_block i b q) = tailBlock q"
  "largestBlockSize (set_block i b q) = largestBlockSize q"
  by (cases "i < length (blocks q)") (auto simp: set_block_def nth_list_update list_update_beyond)

lemma queue_rep_bound: "queue_rep q ps free \<Longrightarrow> i \<in> set (map fst ps @ free) \<Longrightarrow> i < length (blocks q)"
  unfolding queue_rep_def by blast

lemma chained_set_block:
  assumes "chained (\<lambda>j. b_next (block_at q j)) (xs @ [a])" "b_next b = b_next (block_at q i)"
  shows "chained (\<lambda>j. b_next (block_at (set_block i b q) j)) (xs @ [a])"
  using assms by (subst chained_cong [where g = "\<lambda>j. b_next (block_at q j)"]) auto

lemma queue_rep_set_block:
  assumes r: "queue_rep q (ps @ (i, xs) # rs) free" and b: "block_rep b ys" "b_next b = b_next (block_at q i)"
    and ne: "ps \<noteq> [] \<Longrightarrow> ys \<noteq> []"
  shows "queue_rep (set_block i b q) (ps @ (i, ys) # rs) free"
proof -
  have hd: "fst (hd (ps @ (i, ys) # rs)) = fst (hd (ps @ (i, xs) # rs))" by (cases ps) auto
  have last: "fst (last (ps @ (i, ys) # rs)) = fst (last (ps @ (i, xs) # rs))" by (cases rs rule: rev_cases) auto
  have i: "i < length (blocks q)" using queue_rep_bound [OF r] by simp
  have others: "fst p \<noteq> i" if "p \<in> set ps \<union> set rs" for p using r that by (auto simp: queue_rep_def image_iff)
  have fr: "j \<noteq> i" if "j \<in> set free" for j using r that by (auto simp: queue_rep_def)
  have "chained (\<lambda>j. b_next (block_at (set_block i b q) j)) ((map fst (ps @ (i, xs) # rs) @ free) @ [fst (hd (ps @ (i, xs) # rs))])"
    by (rule chained_set_block [OF _ b(2)]) (use r in \<open>simp add: queue_rep_def\<close>)
  moreover have "snd p \<noteq> []" if "p \<in> set (tl (ps @ (i, ys) # rs))" for p
    using that r ne by (cases ps) (auto simp: queue_rep_def)
  moreover have "block_rep (block_at (set_block i b q) (fst p)) (snd p)" if "p \<in> set (ps @ (i, ys) # rs)" for p
  proof (cases "p = (i, ys)")
    case True
    then show ?thesis using b(1) i by simp
  next
    case False
    then have "p \<in> set ps \<union> set rs" using that by auto
    then show ?thesis using others [of p] r by (auto simp: queue_rep_def)
  qed
  moreover have "block_rep (block_at (set_block i b q) j) []" if "j \<in> set free" for j
    using fr [OF that] r that by (auto simp: queue_rep_def)
  ultimately show ?thesis using r unfolding queue_rep_def by (simp add: hd last)
qed

lemma queue_rep_advance_tail:
  assumes r: "queue_rep q ps (i # free)" and b: "block_rep b [x]" "b_next b = b_next (block_at q i)"
  shows "queue_rep ((set_block i b q)\<lparr>tailBlock := i\<rparr>) (ps @ [(i, [x])]) free"
proof -
  have i: "i < length (blocks q)" using queue_rep_bound [OF r] by simp
  have hd: "hd (ps @ [(i, [x])]) = hd ps" using r by (simp add: queue_rep_def)
  have "chained (\<lambda>j. b_next (block_at (set_block i b q) j)) ((map fst ps @ i # free) @ [fst (hd ps)])"
    by (rule chained_set_block [OF _ b(2)]) (use r in \<open>simp add: queue_rep_def\<close>)
  moreover have "block_rep (block_at (set_block i b q) (fst p)) (snd p)" if "p \<in> set ps" for p
  proof -
    have "fst p \<noteq> i" using r that by (auto simp: queue_rep_def image_iff)
    then show ?thesis using r that by (auto simp: queue_rep_def)
  qed
  moreover have "block_rep (block_at (set_block i b q) j) []" if "j \<in> set free" for j
    using r that by (auto simp: queue_rep_def)
  moreover have "snd p \<noteq> []" if "p \<in> set (tl (ps @ [(i, [x])]))" for p
    using that r by (cases ps) (auto simp: queue_rep_def)
  ultimately show ?thesis using r b i unfolding queue_rep_def by (simp add: hd)
qed

lemma queue_rep_add_block:
  assumes r: "queue_rep q (ps @ [(tb, xs)]) []" and b: "block_rep b xs"
    and n: "block_rep N [x]" "b_next N = frontBlock q"
  shows "queue_rep \<lparr>blocks = (blocks q)[tb := b\<lparr>b_next := length (blocks q)\<rparr>] @ [N], frontBlock = frontBlock q,
     tailBlock = length (blocks q), largestBlockSize = 2 ^ Suc k\<rparr>
     ((ps @ [(tb, xs)]) @ [(length (blocks q), [x])]) []" (is "queue_rep ?q' _ _")
proof -
  let ?l = "length (blocks q)"
  have tb: "tb < ?l" using queue_rep_bound [OF r] by simp
  have lt: "fst p < ?l" if "p \<in> set (ps @ [(tb, xs)])" for p
    using queue_rep_bound [OF r, of "fst p"] that by auto
  have old: "block_at ?q' j = block_at q j" if "j < ?l" "j \<noteq> tb" for j
    using that by (simp add: nth_append)
  have new: "block_at ?q' ?l = N" "block_at ?q' tb = b\<lparr>b_next := ?l\<rparr>"
    using tb by (simp_all add: nth_append)
  have ntb: "fst p \<noteq> tb" if "p \<in> set ps" for p using r that by (auto simp: queue_rep_def image_iff)
  have hd: "hd (ps @ [(tb, xs)] @ ys) = hd (ps @ [(tb, xs)])" for ys by (cases ps) auto
  have "chained (\<lambda>j. b_next (block_at q j)) (map fst ps @ [tb])"
    using r chained_append [of _ "map fst ps" tb "[fst (hd (ps @ [(tb, xs)]))]"] by (simp add: queue_rep_def)
  then have "chained (\<lambda>j. b_next (block_at ?q' j)) (map fst ps @ [tb])"
  proof (subst chained_cong [where g = "\<lambda>j. b_next (block_at q j)"])
    fix j assume "j \<in> set (map fst ps)"
    then obtain p where "p \<in> set ps" "j = fst p" by auto
    then have "block_at ?q' j = block_at q j" using old [of j] ntb [of p] lt [of p] by simp
    then show "b_next (block_at ?q' j) = b_next (block_at q j)" by simp
  qed
  then have "chained (\<lambda>j. b_next (block_at ?q' j)) (map fst ps @ tb # [?l, frontBlock q])"
    using new n(2) by (subst chained_append) (simp del: nth_append_length)
  moreover have "block_rep (block_at ?q' (fst p)) (snd p)" if "p \<in> set ps" for p
    using old [of "fst p"] ntb [OF that] lt [of p] that r by (auto simp: queue_rep_def)
  moreover have "snd p \<noteq> []" if "p \<in> set (tl (ps @ [(tb, xs), (?l, [x])]))" for p
    using that r by (cases ps) (auto simp: queue_rep_def)
  moreover have "insert ?l (insert tb (set (map fst ps))) = {..<Suc ?l}"
    using r by (simp add: queue_rep_def lessThan_Suc)
  moreover have "distinct (map fst ps @ [tb])" using r by (simp add: queue_rep_def)
  ultimately show ?thesis using r new b n(1) hd [of "[(?l, [x])]"] tb unfolding queue_rep_def
    by (auto simp: block_rep_next simp del: nth_append_length)
qed

lemma next_of_tail:
  assumes "queue_rep q (ps @ [(tb, xs)]) free"
  shows "b_next (block_at q tb) = (case free of [] \<Rightarrow> frontBlock q | i # _ \<Rightarrow> i)"
proof -
  have "chained (\<lambda>j. b_next (block_at q j)) (map fst ps @ tb # (free @ [frontBlock q]))"
    using assms by (simp add: queue_rep_def)
  then have "chained (\<lambda>j. b_next (block_at q j)) (tb # free @ [frontBlock q])"
    by (subst (asm) chained_append) simp
  then show ?thesis by (cases free) auto
qed

lemma tail_pair:
  assumes "queue_rep q ps free"
  obtains qs xs where "ps = qs @ [(tailBlock q, xs)]"
proof -
  have "ps = butlast ps @ [(tailBlock q, snd (last ps))]" using assms by (auto simp: queue_rep_def)
  then show thesis using that by blast
qed

lemma front_pair:
  assumes "queue_rep q ps free"
  obtains xs rs where "ps = (frontBlock q, xs) # rs"
proof -
  have "ps = (frontBlock q, snd (hd ps)) # tl ps" using assms by (auto simp: queue_rep_def)
  then show thesis using that by blast
qed

lemma doubled_size:
  assumes "\<exists>k. l = (2::nat) ^ Suc k"
  obtains k where "(if l \<ge> m then l else l * 2) = 2 ^ Suc k"
proof -
  obtain k where "l = 2 ^ Suc k" using assms by blast
  then have "l * 2 = 2 ^ Suc (Suc k)" by simp
  then show thesis using that [of k] that [of "Suc k"] \<open>l = 2 ^ Suc k\<close> by (cases "l \<ge> m") simp_all
qed

definition appends :: "'a ReaderWriterQueue \<times> bool \<Rightarrow> 'a \<Rightarrow> (nat \<times> 'a list) list \<Rightarrow> bool" where
  "appends r x ps \<longleftrightarrow> (\<exists>ps' free'. queue_rep (fst r) ps' free'
     \<and> concat (map snd ps') = concat (map snd ps) @ (if snd r then [x] else []))"

lemma appendsI:
  "queue_rep q' ps' free' \<Longrightarrow> concat (map snd ps') = concat (map snd ps) @ (if ok then [x] else []) \<Longrightarrow> appends (q', ok) x ps"
  unfolding appends_def by auto

lemma make_block_data: "b_data (make_block n) = replicate n None"
  by (simp add: make_block_def)

lemma enqueue_next_appends:
  assumes r: "queue_rep q ps free"
  shows "appends (enqueue_next canAlloc malloc x q) x ps"
proof -
  obtain qs xs where ps: "ps = qs @ [(tailBlock q, xs)]" using tail_pair [OF r] .
  let ?tb = "tailBlock q" let ?B = "block_at q ?tb" let ?nb = "b_next ?B"
  have front: "frontBlock q \<in> set (map fst ps)" using r by (auto simp: queue_rep_def)
  show ?thesis
  proof (cases free)
    case (Cons i fr)
    then have nb: "?nb = i" using next_of_tail [OF r [unfolded ps]] by simp
    have "i \<noteq> frontBlock q" using r Cons front by (auto simp: queue_rep_def)
    moreover have "queue_rep ((set_block i (store_at_tail x ((block_at q i)\<lparr>b_localFront := b_front (block_at q i)\<rparr>)) q)
        \<lparr>tailBlock := i\<rparr>) (ps @ [(i, [x])]) fr"
    proof (rule queue_rep_advance_tail [OF r [unfolded Cons]])
      have "block_rep (block_at q i) []" using r Cons by (simp add: queue_rep_def)
      then show "block_rep (store_at_tail x ((block_at q i)\<lparr>b_localFront := b_front (block_at q i)\<rparr>)) [x]"
        by (intro block_rep_store_empty block_rep_load_front) simp_all
    qed (simp add: store_at_tail_def)
    ultimately show ?thesis unfolding enqueue_next_def Let_def nb by (auto intro!: appendsI)
  next
    case Nil
    then have nb: "?nb = frontBlock q" using next_of_tail [OF r [unfolded ps]] by simp
    obtain k where k: "(if largestBlockSize q \<ge> MAX_BLOCK_SIZE then largestBlockSize q else largestBlockSize q * 2) = 2 ^ Suc k"
      using r doubled_size [of "largestBlockSize q" MAX_BLOCK_SIZE] by (auto simp: queue_rep_def)
    let ?N = "(make_block (2 ^ Suc k))\<lparr>b_data := (replicate (2 ^ Suc k) None)[0 := Some x], b_localTail := 1,
        b_tail := 1, b_next := frontBlock q\<rparr>"
    have "block_rep ?B xs" using r ps by (simp add: queue_rep_def)
    then have "queue_rep \<lparr>blocks = (blocks q)[?tb := ?B\<lparr>b_next := length (blocks q)\<rparr>] @ [?N], frontBlock = frontBlock q,
        tailBlock = length (blocks q), largestBlockSize = 2 ^ Suc k\<rparr> (ps @ [(length (blocks q), [x])]) []"
      using queue_rep_add_block [OF r [unfolded ps Nil] _ block_rep_make_one] unfolding ps by simp
    then show ?thesis using r unfolding enqueue_next_def Let_def nb k make_block_data
      by (auto intro: appendsI simp del: power_Suc)
  qed
qed

text \<open>Every way through \<^verbatim>\<open>inner_enqueue\<close> appends the element, or reports that it did not.\<close>

lemma inner_enqueue_appends:
  assumes r: "queue_rep q ps free"
  shows "appends (inner_enqueue canAlloc malloc x q) x ps"
proof -
  obtain qs xs where ps: "ps = qs @ [(tailBlock q, xs)]" using tail_pair [OF r] .
  let ?tb = "tailBlock q" let ?B = "block_at q ?tb" let ?B' = "?B\<lparr>b_localFront := b_front ?B\<rparr>"
  have B: "block_rep ?B xs" using r ps by (auto simp: queue_rep_def)
  have "queue_rep (set_block ?tb ?B' q) ps free"
    using queue_rep_set_block [OF r [unfolded ps] block_rep_load_front [OF B]] r ps
    by (cases qs) (auto simp: queue_rep_def)
  then have full: "appends (enqueue_next canAlloc malloc x (set_block ?tb ?B' q)) x ps" by (rule enqueue_next_appends)
  have stored: "appends (set_block ?tb (store_at_tail x b) q, True) x ps"
    if "block_rep b xs" "(b_tail b + 1) AND b_sizeMask b \<noteq> b_localFront b" "b_next b = b_next ?B" for b
  proof (rule appendsI)
    show "queue_rep (set_block ?tb (store_at_tail x b) q) (qs @ [(?tb, xs @ [x])]) free"
      using queue_rep_set_block [OF r [unfolded ps] block_rep_store [OF that(1,2)]] that(3)
      by (simp add: store_at_tail_def)
  qed (simp add: ps)
  show ?thesis using stored [of ?B] stored [of ?B'] B block_rep_load_front [OF B] full
    by (simp add: inner_enqueue_def Let_def)
qed

lemma inner_enqueue_ok: "malloc (length (blocks q)) \<Longrightarrow> snd (inner_enqueue True malloc x q)"
  by (simp add: inner_enqueue_def enqueue_next_def Let_def)

text \<open>Every way through \<^verbatim>\<open>try_dequeue\<close> takes the first element, or there is none.\<close>

definition removes :: "'a ReaderWriterQueue \<times> 'a option result \<Rightarrow> (nat \<times> 'a list) list \<Rightarrow> bool" where
  "removes r ps \<longleftrightarrow> (\<exists>ps' free'. queue_rep (fst r) ps' free' \<and>
     (case concat (map snd ps) of
        [] \<Rightarrow> snd r = Inr None \<and> concat (map snd ps') = []
      | x # xs \<Rightarrow> snd r = Inr (Some x) \<and> concat (map snd ps') = xs))"

lemma take_from_removes:
  assumes r: "queue_rep q ((i, xs) # rs) free" and i: "b_front (block_at q i) \<noteq> b_localTail (block_at q i)"
  shows "removes (take_from i q) ((i, xs) # rs)"
proof -
  have "block_rep (block_at q i) xs" using r by (simp add: queue_rep_def)
  then obtain x ys b where t: "xs = x # ys" "take_front (block_at q i) = (b, Inr x)" "block_rep b ys"
    "b_next b = b_next (block_at q i)" using block_rep_take [OF _ i] by blast
  have "queue_rep (set_block i b q) ((i, ys) # rs) free"
    using queue_rep_set_block [of q "[]" i xs rs free b ys] r t by simp
  then show ?thesis using t unfolding removes_def take_from_def
    by (auto intro!: exI [of _ "(i, ys) # rs"])
qed

lemma load_tail_rep:
  assumes r: "queue_rep q (ps @ (i, xs) # rs) free"
  shows "queue_rep (load_tail i q) (ps @ (i, xs) # rs) free"
    and "b_localTail (block_at (load_tail i q) i) = b_tail (block_at q i)"
    and "b_front (block_at (load_tail i q) i) = b_front (block_at q i)"
    and "frontBlock (load_tail i q) = frontBlock q" "tailBlock (load_tail i q) = tailBlock q"
proof -
  have i: "i < length (blocks q)" using queue_rep_bound [OF r] by simp
  have b: "block_rep (block_at q i) xs" using r by (simp add: queue_rep_def)
  have "xs \<noteq> []" if "ps \<noteq> []" using that r by (cases ps) (auto simp: queue_rep_def)
  then show "queue_rep (load_tail i q) (ps @ (i, xs) # rs) free"
    unfolding load_tail_def by (intro queue_rep_set_block [OF r block_rep_load_tail [OF b]]) simp_all
  show "b_localTail (block_at (load_tail i q) i) = b_tail (block_at q i)"
    "b_front (block_at (load_tail i q) i) = b_front (block_at q i)"
    "frontBlock (load_tail i q) = frontBlock q" "tailBlock (load_tail i q) = tailBlock q"
    using i by (simp_all add: load_tail_def)
qed

text \<open>The consumer leaves an empty front block; it becomes the last free block.\<close>

lemma queue_rep_advance_front:
  assumes r: "queue_rep q ((fb, []) # (nb, ys) # rs) free"
  shows "b_next (block_at q fb) = nb" "queue_rep (q\<lparr>frontBlock := nb\<rparr>) ((nb, ys) # rs) (free @ [fb])"
proof -
  have c: "chained (\<lambda>j. b_next (block_at q j)) (fb # (nb # map fst rs @ free) @ [fb])"
    using r by (simp add: queue_rep_def)
  then show n: "b_next (block_at q fb) = nb" by simp
  have "chained (\<lambda>j. b_next (block_at q j)) ((nb # map fst rs @ free) @ fb # [nb])"
    by (subst chained_append) (use c n in auto)
  then show "queue_rep (q\<lparr>frontBlock := nb\<rparr>) ((nb, ys) # rs) (free @ [fb])"
    using r by (auto simp: queue_rep_def)
qed

lemma try_dequeue_removes:
  assumes r: "queue_rep q ps free"
  shows "removes (try_dequeue q) ps"
proof -
  obtain xs rs where ps: "ps = (frontBlock q, xs) # rs" using front_pair [OF r] .
  let ?fb = "frontBlock q" let ?q = "load_tail ?fb q" let ?q2 = "load_tail ?fb ?q"
  note L = load_tail_rep [of q "[]" ?fb xs rs free, simplified, OF r [unfolded ps]]
  note L2 = load_tail_rep [of ?q "[]" ?fb xs rs free, simplified, OF L(1)]
  have tail: "b_tail (block_at ?q ?fb) = b_tail (block_at q ?fb)"
    using queue_rep_bound [OF r, of ?fb] ps by (simp add: load_tail_def)
  have empty: "b_front (block_at q ?fb) = b_tail (block_at q ?fb) \<longleftrightarrow> xs = []"
    using r ps by (intro block_rep_empty) (simp add: queue_rep_def)
  consider (cached) "b_front (block_at q ?fb) \<noteq> b_localTail (block_at q ?fb)"
    | (loaded) "b_front (block_at q ?fb) = b_localTail (block_at q ?fb)" "xs \<noteq> []"
    | (last) "b_front (block_at q ?fb) = b_localTail (block_at q ?fb)" "xs = []" "rs = []"
    | (ahead) nb ys rs' where "b_front (block_at q ?fb) = b_localTail (block_at q ?fb)" "xs = []" "rs = (nb, ys) # rs'"
    by (metis list.exhaust surj_pair)
  then show ?thesis
  proof cases
    case cached
    then show ?thesis using take_from_removes r ps by (simp add: try_dequeue_def Let_def)
  next
    case loaded
    then show ?thesis using take_from_removes [OF L(1)] L empty ps by (simp add: try_dequeue_def Let_def)
  next
    case last
    then have "tailBlock q = ?fb" using r ps by (simp add: queue_rep_def)
    then show ?thesis using last L empty ps
      by (auto simp: try_dequeue_def Let_def removes_def intro!: exI [of _ "[(?fb, [])]"])
  next
    case ahead
    have fb: "?fb \<noteq> tailBlock q" using r ps ahead by (auto simp: queue_rep_def split: if_splits)
    have "queue_rep ?q2 ((?fb, []) # (nb, ys) # rs') free" using L2(1) ahead by simp
    note A = queue_rep_advance_front [OF this]
    have "ys \<noteq> []" using r ps ahead by (simp add: queue_rep_def)
    let ?q3 = "?q2\<lparr>frontBlock := nb\<rparr>"
    note L3 = load_tail_rep [of ?q3 "[]" nb ys rs' "free @ [?fb]", simplified, OF A(2)]
    have "block_rep (block_at ?q3 nb) ys" using A(2) by (simp add: queue_rep_def)
    then have ne: "b_front (block_at ?q3 nb) \<noteq> b_tail (block_at ?q3 nb)" using block_rep_empty \<open>ys \<noteq> []\<close> by blast
    have comm: "(load_tail nb ?q2)\<lparr>frontBlock := nb\<rparr> = load_tail nb ?q3" by (simp add: load_tail_def set_block_def)
    have "removes (take_from nb (load_tail nb ?q3)) ((nb, ys) # rs')"
      by (rule take_from_removes [OF L3(1)]) (use L3 ne in simp)
    moreover have "try_dequeue q = take_from nb (load_tail nb ?q3)"
      using ahead fb L L2 A(1) empty tail comm by (simp add: try_dequeue_def Let_def)
    ultimately show ?thesis using ps ahead by (simp add: removes_def)
  qed
qed

section \<open>A queue is a list\<close>

definition block_items :: "'a Block \<Rightarrow> 'a list" where
  "block_items b = map (\<lambda>i. the (b_data b ! ((b_front b + i) AND b_sizeMask b)))
     [0..<(b_tail b + b_sizeMask b + 1 - b_front b) AND b_sizeMask b]"

fun items_from :: "nat \<Rightarrow> 'a ReaderWriterQueue \<Rightarrow> nat \<Rightarrow> 'a list" where
  "items_from 0 q i = []"
| "items_from (Suc n) q i =
     block_items (block_at q i) @ (if i = tailBlock q then [] else items_from n q (b_next (block_at q i)))"

definition queue_items :: "'a ReaderWriterQueue \<Rightarrow> 'a list" where
  "queue_items q = items_from (length (blocks q)) q (frontBlock q)"

definition queue_inv :: "'a ReaderWriterQueue \<Rightarrow> bool" where
  "queue_inv q \<longleftrightarrow> (\<exists>ps free. queue_rep q ps free)"

lemma mod_distance: "l < n \<Longrightarrow> ((F + l) mod n + n - F mod n) mod n = (l::nat)"
proof -
  assume l: "l < n"
  define f where "f = F mod n"
  have f: "f < n" using l by (simp add: f_def)
  have "(F + l) mod n = (f + l) mod n" unfolding f_def by (simp add: mod_add_left_eq)
  also have "\<dots> = (if f + l < n then f + l else f + l - n)" using f l by (simp add: mod_if)
  finally show ?thesis using f l unfolding f_def [symmetric] by auto
qed

lemma block_items_rep: "block_rep b xs \<Longrightarrow> block_items b = xs"
proof -
  assume "block_rep b xs"
  then obtain n F LF LT where n: "block_size n b" and c: "cells n F LF LT b xs" by (auto simp: block_rep_def)
  have "b_tail b + b_sizeMask b + 1 - b_front b = (F + length xs) mod n + n - F mod n"
    using n block_size_ge [OF n] c by (auto simp: cells_def block_size_def)
  then have "(b_tail b + b_sizeMask b + 1 - b_front b) AND b_sizeMask b = length xs"
    using mod_distance [of "length xs" n F] c by (simp add: and_sizeMask [OF n] cells_def)
  moreover have "the (b_data b ! ((b_front b + i) AND b_sizeMask b)) = xs ! i" if "i < length xs" for i
    using c that by (simp add: and_sizeMask [OF n] cells_def mod_add_left_eq)
  ultimately show ?thesis by (intro nth_equalityI) (simp_all add: block_items_def)
qed

lemma items_from_rep:
  assumes "queue_rep q (qs @ rs) free" "rs \<noteq> []" "length rs \<le> m"
  shows "items_from m q (fst (hd rs)) = concat (map snd rs)"
  using assms
proof (induction rs arbitrary: qs m)
  case (Cons p rs)
  obtain m' where m: "m = Suc m'" using Cons.prems by (cases m) auto
  have p: "block_items (block_at q (fst p)) = snd p"
    using Cons.prems(1) by (intro block_items_rep) (auto simp: queue_rep_def)
  show ?case
  proof (cases rs)
    case Nil
    then have "tailBlock q = fst p" using Cons.prems(1) by (simp add: queue_rep_def)
    then show ?thesis using p m Nil by simp
  next
    case (Cons p' rs')
    have "fst p \<notin> set (map fst rs)" using Cons.prems(1) by (simp add: queue_rep_def)
    moreover have "fst (last rs) \<in> set (map fst rs)" using Cons by simp
    moreover have "tailBlock q = fst (last rs)" using Cons.prems(1) Cons by (simp add: queue_rep_def)
    ultimately have "tailBlock q \<noteq> fst p" by metis
    moreover have "b_next (block_at q (fst p)) = fst (hd rs)"
    proof -
      have "chained (\<lambda>j. b_next (block_at q j)) (map fst qs @ fst p # (fst p' # map fst rs' @ free @ [fst (hd (qs @ p # rs))]))"
        using Cons.prems(1) Cons by (simp add: queue_rep_def)
      then show ?thesis using Cons by (subst (asm) chained_append) simp
    qed
    moreover have "items_from m' q (fst (hd rs)) = concat (map snd rs)"
      using Cons.IH [of "qs @ [p]" m'] Cons.prems m Cons by simp
    ultimately show ?thesis using p m by simp
  qed
qed simp

lemma queue_items_rep: "queue_rep q ps free \<Longrightarrow> queue_items q = concat (map snd ps)"
proof -
  assume r: "queue_rep q ps free"
  have "length (map fst ps @ free) = card (set (map fst ps @ free))"
    using r unfolding queue_rep_def by (metis distinct_card)
  also have "\<dots> = length (blocks q)" using r by (simp add: queue_rep_def)
  finally have "length ps \<le> length (blocks q)" by simp
  then show ?thesis
    using items_from_rep [of q "[]" ps free] r unfolding queue_items_def by (simp add: queue_rep_def)
qed

lemma inner_enqueue_items:
  assumes "queue_inv q" "inner_enqueue canAlloc malloc x q = (q', ok)"
  shows "queue_inv q' \<and> queue_items q' = queue_items q @ (if ok then [x] else [])"
proof -
  obtain ps free where r: "queue_rep q ps free" using assms(1) by (auto simp: queue_inv_def)
  obtain ps' free' where r': "queue_rep q' ps' free'"
    "concat (map snd ps') = concat (map snd ps) @ (if ok then [x] else [])"
    using inner_enqueue_appends [OF r, of canAlloc malloc x] unfolding appends_def assms(2) fst_conv snd_conv by blast
  then show ?thesis unfolding queue_inv_def queue_items_rep [OF r] queue_items_rep [OF r'(1)] by blast
qed

lemma try_dequeue_items:
  assumes "queue_inv q" "try_dequeue q = (q', r)"
  shows "queue_inv q' \<and> (case queue_items q of
     [] \<Rightarrow> r = Inr None \<and> queue_items q' = []
   | x # xs \<Rightarrow> r = Inr (Some x) \<and> queue_items q' = xs)"
proof -
  obtain ps free where q: "queue_rep q ps free" using assms(1) by (auto simp: queue_inv_def)
  then obtain ps' free' where "queue_rep q' ps' free'" "case concat (map snd ps) of
     [] \<Rightarrow> r = Inr None \<and> concat (map snd ps') = []
   | x # xs \<Rightarrow> r = Inr (Some x) \<and> concat (map snd ps') = xs"
    using try_dequeue_removes [OF q] unfolding removes_def assms(2) fst_conv snd_conv by blast
  note this(1) this(2) [folded queue_items_rep [OF q] queue_items_rep [OF this(1)]]
  then show ?thesis unfolding queue_inv_def by blast
qed

lemma pop_eq: "pop q = (case try_dequeue q of (q', r) \<Rightarrow> (q', bindE r (\<lambda>x. Inr (x \<noteq> None))))"
proof -
  have *: "drop_from i q = (case take_from i q of (q', r) \<Rightarrow> (q', bindE r (\<lambda>x. Inr (x \<noteq> None))))" for i :: nat and q :: "'a ReaderWriterQueue"
    by (cases "snd (take_front (block_at q i))") (auto simp: drop_from_def take_from_def split: prod.splits)
  show ?thesis unfolding pop_def try_dequeue_def Let_def * by (simp split: if_splits)
qed

section \<open>The constructed queue\<close>

definition ring_of :: "'a Block list \<Rightarrow> bool" where
  "ring_of bs \<longleftrightarrow> (\<forall>i < length bs. b_next (bs ! i) = (if Suc i = length bs then 0 else Suc i) \<and> block_rep (bs ! i) [])"

lemma max_block: "MAX_BLOCK_SIZE = 2 ^ Suc 8"
  by (simp add: MAX_BLOCK_SIZE_def)

lemma alloc_blocks_ring:
  assumes "alloc_blocks malloc n bs = Inr bs'" "ring_of bs"
  shows "ring_of bs' \<and> length bs' = length bs + n"
  using assms
proof (induction n arbitrary: bs)
  case (Suc n)
  let ?bs = "bs[length bs - 1 := (bs ! (length bs - 1))\<lparr>b_next := length bs\<rparr>] @ [(make_block MAX_BLOCK_SIZE)\<lparr>b_next := 0\<rparr>]"
  have new: "block_rep ((make_block MAX_BLOCK_SIZE)\<lparr>b_next := 0\<rparr> :: 'a Block) []"
    unfolding max_block by (rule block_rep_make)
  have "ring_of ?bs"
    unfolding ring_of_def
  proof (intro allI impI)
    fix i assume "i < length ?bs"
    then consider "i = length bs" | "Suc i = length bs" | "Suc i < length bs" by force
    then show "b_next (?bs ! i) = (if Suc i = length ?bs then 0 else Suc i) \<and> block_rep (?bs ! i) []"
      using Suc.prems(2) new by cases (auto simp: ring_of_def nth_append nth_list_update block_rep_next)
  qed
  moreover have "alloc_blocks malloc n ?bs = Inr bs'" using Suc.prems(1) by (simp split: if_splits)
  ultimately show ?case using Suc.IH [of ?bs] by simp
qed simp

lemma chained_snoc: "chained f (xs @ [a]) \<Longrightarrow> f a = c \<Longrightarrow> chained f (xs @ [a, c])"
  by (subst chained_append) simp

lemma chained_upto: "(\<And>i. i < n \<Longrightarrow> f i = Suc i) \<Longrightarrow> chained f ([0..<n] @ [n])"
proof (induction n)
  case (Suc n)
  then have "chained f ([0..<n] @ [n])" by simp
  then show ?case using chained_snoc [of f "[0..<n]" n "Suc n"] Suc.prems [of n] by simp
qed simp

lemma ring_queue_rep:
  assumes "ring_of bs" "bs \<noteq> []"
  shows "queue_rep \<lparr>blocks = bs, frontBlock = 0, tailBlock = 0, largestBlockSize = 2 ^ Suc k\<rparr> [(0, [])] [1..<length bs]"
proof -
  obtain n where n: "length bs = Suc n" using assms(2) by (cases bs) auto
  have nxt: "b_next (bs ! i) = (if i = n then 0 else Suc i)" "block_rep (bs ! i) []" if "i \<le> n" for i
    using assms(1) n that by (auto simp: ring_of_def)
  have "chained (\<lambda>i. b_next (bs ! i)) ([0..<n] @ [n])" by (rule chained_upto) (simp add: nxt)
  then have "chained (\<lambda>i. b_next (bs ! i)) ([0..<n] @ [n, 0])" by (rule chained_snoc) (simp add: nxt)
  moreover have "[0..<n] @ [n, 0] = (0 # [1..<Suc n]) @ [0]"
    using upt_conv_Cons [of 0 "Suc n"] by simp
  ultimately have "chained (\<lambda>i. b_next (bs ! i)) ((0 # [1..<Suc n]) @ [0])" by metis
  moreover have "insert 0 {1..<Suc n} = {..<Suc n}" by auto
  ultimately show ?thesis using nxt unfolding queue_rep_def n
    by (simp add: n del: upt_Suc)
qed

lemma new_queue_empty:
  assumes "new_queue malloc sz = Inr q" "1 \<le> sz" "sz < 2 ^ 63"
  shows "queue_inv q \<and> queue_items q = []"
proof -
  have u: "unat (word_of_nat (sz + 1) :: u64) = sz + 1" using assms(3) by (subst unat_of_nat) simp
  obtain k where k: "unat (ceilToPow2 (word_of_nat (sz + 1))) = 2 ^ k" "sz + 1 \<le> 2 ^ k"
    using ceilToPow2_least [of "word_of_nat (sz + 1)"] u assms(3) by auto
  obtain k' where k': "k = Suc k'" using k(2) assms(2) by (cases k) auto
  have "\<exists>ps free. queue_rep q ps free \<and> concat (map snd ps) = []"
  proof (cases "unat (ceilToPow2 (word_of_nat (sz + 1))) > MAX_BLOCK_SIZE * 2")
    case True
    define n where "n = (sz + MAX_BLOCK_SIZE * 2 - 3) div (MAX_BLOCK_SIZE - 1)"
    obtain bs where bs: "alloc_blocks malloc n [] = Inr bs"
      "q = \<lparr>blocks = bs, frontBlock = 0, tailBlock = 0, largestBlockSize = MAX_BLOCK_SIZE\<rparr>"
      using assms(1) True unfolding new_queue_def Let_def n_def by (auto simp: bindE_Inr_iff)
    have "ring_of bs \<and> length bs = n" using alloc_blocks_ring [OF bs(1)] by (simp add: ring_of_def)
    moreover have "0 < n" using assms(2) by (simp add: n_def MAX_BLOCK_SIZE_def div_greater_zero_iff)
    ultimately have "queue_rep q [(0, [])] [1..<length bs]"
      unfolding bs(2) max_block by (intro ring_queue_rep) auto
    then show ?thesis by (intro exI) (rule conjI, assumption, simp)
  next
    case False
    then have q: "q = \<lparr>blocks = [(make_block (2 ^ Suc k'))\<lparr>b_next := 0\<rparr>], frontBlock = 0, tailBlock = 0,
        largestBlockSize = 2 ^ Suc k'\<rparr>"
      using assms(1) k(1) k' by (auto simp: new_queue_def Let_def split: if_splits)
    have "ring_of [(make_block (2 ^ Suc k'))\<lparr>b_next := 0\<rparr> :: 'a Block]"
      using block_rep_make [where k = k' and i = 0] by (simp add: ring_of_def)
    then have "queue_rep q [(0, [])] [1..<1]" unfolding q using ring_queue_rep by fastforce
    then show ?thesis by (intro exI) (rule conjI, assumption, simp)
  qed
  then show ?thesis unfolding queue_inv_def using queue_items_rep by metis
qed

section \<open>The contract of a queue\<close>

text \<open>A first-in first-out queue: what the producer and the consumer of a queue rely on.\<close>

locale fifo =
  fixes qinv :: "'q \<Rightarrow> bool" and items :: "'q \<Rightarrow> 'a list"
    and enq :: "'a \<Rightarrow> 'q \<Rightarrow> 'q \<times> bool" and deq :: "'q \<Rightarrow> 'q \<times> 'a option result"
  assumes enq_items: "qinv q \<Longrightarrow> enq x q = (q', ok) \<Longrightarrow> qinv q' \<and> items q' = items q @ (if ok then [x] else [])"
    and deq_items: "qinv q \<Longrightarrow> deq q = (q', r) \<Longrightarrow> qinv q' \<and>
      (case items q of [] \<Rightarrow> r = Inr None \<and> items q' = [] | x # xs \<Rightarrow> r = Inr (Some x) \<and> items q' = xs)"

datatype 'a queue_op = Enq 'a | Deq

text \<open>A run of operations, with the answers of the dequeues and of the enqueues.\<close>

fun run_ops :: "('a \<Rightarrow> 'q \<Rightarrow> 'q \<times> bool) \<Rightarrow> ('q \<Rightarrow> 'q \<times> 'a option result) \<Rightarrow> 'a queue_op list \<Rightarrow> 'q \<Rightarrow> 'q \<times> (bool + 'a option result) list" where
  "run_ops enq deq [] q = (q, [])"
| "run_ops enq deq (Enq x # ops) q =
     (case enq x q of (q1, ok) \<Rightarrow> case run_ops enq deq ops q1 of (q2, rs) \<Rightarrow> (q2, Inl ok # rs))"
| "run_ops enq deq (Deq # ops) q =
     (case deq q of (q1, r) \<Rightarrow> case run_ops enq deq ops q1 of (q2, rs) \<Rightarrow> (q2, Inr r # rs))"

text \<open>The same on lists; \<open>oks\<close> says which enqueues succeed.\<close>

fun spec_ops :: "bool list \<Rightarrow> 'a queue_op list \<Rightarrow> 'a list \<Rightarrow> 'a list \<times> (bool + 'a option result) list" where
  "spec_ops oks [] xs = (xs, [])"
| "spec_ops oks (Enq x # ops) xs =
     (case oks of
        [] \<Rightarrow> (xs, [])
      | ok # oks \<Rightarrow> case spec_ops oks ops (xs @ (if ok then [x] else [])) of (ys, rs) \<Rightarrow> (ys, Inl ok # rs))"
| "spec_ops oks (Deq # ops) [] = (case spec_ops oks ops [] of (ys, rs) \<Rightarrow> (ys, Inr (Inr None) # rs))"
| "spec_ops oks (Deq # ops) (x # xs) = (case spec_ops oks ops xs of (ys, rs) \<Rightarrow> (ys, Inr (Inr (Some x)) # rs))"

definition enq_answers :: "(bool + 'b) list \<Rightarrow> bool list" where
  "enq_answers rs = [b. Inl b \<leftarrow> rs]"

context fifo
begin

lemma run_ops_spec:
  assumes "qinv q" "run_ops enq deq ops q = (q', rs)"
  shows "qinv q' \<and> spec_ops (enq_answers rs) ops (items q) = (items q', rs)"
  using assms
proof (induction ops arbitrary: q rs)
  case (Cons op ops)
  show ?case
  proof (cases op)
    case (Enq x)
    obtain q1 ok where 1: "enq x q = (q1, ok)" by (cases "enq x q")
    obtain rs' where 2: "run_ops enq deq ops q1 = (q', rs')" "rs = Inl ok # rs'"
      using Cons.prems(2) Enq 1 by (auto split: prod.splits)
    note e = enq_items [OF Cons.prems(1) 1]
    have "qinv q' \<and> spec_ops (enq_answers rs') ops (items q1) = (items q', rs')"
      using Cons.IH [OF conjunct1 [OF e] 2(1)] .
    then show ?thesis using e Enq 2(2) by (simp add: enq_answers_def)
  next
    case Deq
    obtain q1 r where 1: "deq q = (q1, r)" by (cases "deq q")
    obtain rs' where 2: "run_ops enq deq ops q1 = (q', rs')" "rs = Inr r # rs'"
      using Cons.prems(2) Deq 1 by (auto split: prod.splits)
    note d = deq_items [OF Cons.prems(1) 1]
    have "qinv q' \<and> spec_ops (enq_answers rs') ops (items q1) = (items q', rs')"
      using Cons.IH [OF conjunct1 [OF d] 2(1)] .
    then show ?thesis using d Deq 2(2) by (cases "items q") (simp_all add: enq_answers_def)
  qed
qed simp

end

interpretation rwq: fifo queue_inv queue_items "enqueue malloc" try_dequeue for malloc
  by unfold_locales (unfold enqueue_def, erule (1) inner_enqueue_items, erule (1) try_dequeue_items)

section \<open>Counting\<close>

definition bq_items :: "'a BlockingReaderWriterQueue \<Rightarrow> 'a list" where
  "bq_items q = queue_items (inner q)"

text \<open>Nobody waits: the count is the number of elements and the kernel semaphore is clear.\<close>

definition bq_inv :: "'a BlockingReaderWriterQueue \<Rightarrow> bool" where
  "bq_inv q \<longleftrightarrow> queue_inv (inner q) \<and> m_count (sema q) = int (length (bq_items q)) \<and> m_sema (sema q) = 0"

text \<open>The consumer has announced that it waits: one less on the count, one signal for the first element.\<close>

definition bq_waiting :: "'a BlockingReaderWriterQueue \<Rightarrow> bool" where
  "bq_waiting q \<longleftrightarrow> queue_inv (inner q) \<and> m_count (sema q) = int (length (bq_items q)) - 1
     \<and> m_sema (sema q) = (if bq_items q = [] then 0 else 1)"

lemma enqueue_bq:
  assumes "enqueue malloc x (inner q) = (i, ok)" "queue_inv (inner q)"
  shows "queue_inv i" "queue_items i = bq_items q @ (if ok then [x] else [])"
  using rwq.enq_items [OF assms(2,1)] by (simp_all add: bq_items_def)

lemma bq_enqueue_items:
  assumes "bq_inv q" "bq_enqueue malloc x q = (q', ok)"
  shows "bq_inv q' \<and> bq_items q' = bq_items q @ (if ok then [x] else [])"
proof -
  obtain i ok' where e: "enqueue malloc x (inner q) = (i, ok')" by (cases "enqueue malloc x (inner q)")
  have q: "queue_inv (inner q)" "m_count (sema q) = int (length (bq_items q))" "m_sema (sema q) = 0"
    using assms(1) by (simp_all add: bq_inv_def)
  note i = enqueue_bq [OF e q(1)]
  show ?thesis using assms(2) e i q unfolding bq_enqueue_def bq_inv_def bq_items_def
    by (cases ok') (auto simp: sema_signal_def Let_def)
qed

lemma bq_enqueue_waiting:
  assumes "bq_waiting q" "bq_enqueue malloc x q = (q', ok)"
  shows "bq_waiting q' \<and> bq_items q' = bq_items q @ (if ok then [x] else [])"
proof -
  obtain i ok' where e: "enqueue malloc x (inner q) = (i, ok')" by (cases "enqueue malloc x (inner q)")
  have q: "queue_inv (inner q)" "m_count (sema q) = int (length (bq_items q)) - 1"
    "m_sema (sema q) = (if bq_items q = [] then 0 else 1)"
    using assms(1) by (simp_all add: bq_waiting_def)
  note i = enqueue_bq [OF e q(1)]
  show ?thesis using assms(2) e i q unfolding bq_enqueue_def bq_waiting_def bq_items_def
    by (cases ok') (auto simp: sema_signal_def Let_def split: if_splits)
qed

lemma bq_enqueue_ok: "malloc (length (blocks (inner q))) \<Longrightarrow> snd (bq_enqueue malloc x q)"
  using inner_enqueue_ok [of malloc "inner q" x] by (auto simp: bq_enqueue_def enqueue_def split: prod.splits bool.splits)

lemma post_all_items:
  assumes "\<forall>i. malloc i"
  shows "bq_inv q \<Longrightarrow> bq_inv (post_all malloc xs q) \<and> bq_items (post_all malloc xs q) = bq_items q @ xs"
    and "bq_waiting q \<Longrightarrow> bq_waiting (post_all malloc xs q) \<and> bq_items (post_all malloc xs q) = bq_items q @ xs"
proof -
  have step: "\<exists>q'. bq_enqueue malloc x q = (q', True)" for x and q :: "'a BlockingReaderWriterQueue"
    using bq_enqueue_ok [of malloc q x] assms by (cases "bq_enqueue malloc x q") auto
  show "bq_inv q \<Longrightarrow> bq_inv (post_all malloc xs q) \<and> bq_items (post_all malloc xs q) = bq_items q @ xs"
  proof (induction xs arbitrary: q)
    case (Cons x xs)
    obtain q' where e: "bq_enqueue malloc x q = (q', True)" using step by blast
    then show ?case using bq_enqueue_items [OF Cons.prems e] Cons.IH [of q'] by simp
  qed simp
  show "bq_waiting q \<Longrightarrow> bq_waiting (post_all malloc xs q) \<and> bq_items (post_all malloc xs q) = bq_items q @ xs"
  proof (induction xs arbitrary: q)
    case (Cons x xs)
    obtain q' where e: "bq_enqueue malloc x q = (q', True)" using step by blast
    then show ?case using bq_enqueue_waiting [OF Cons.prems e] Cons.IH [of q'] by simp
  qed simp
qed

text \<open>A counted element is there: the dequeue after a successful wait hands out the first one.\<close>

definition bq_counted :: "'a BlockingReaderWriterQueue \<Rightarrow> bool" where
  "bq_counted q \<longleftrightarrow> queue_inv (inner q) \<and> m_count (sema q) = int (length (bq_items q)) - 1 \<and> m_sema (sema q) = 0"

lemma dequeue_counted_items:
  assumes "bq_counted q" "bq_items q = x # xs"
  shows "\<exists>q'. dequeue_counted q = (q', Inr (Some x)) \<and> bq_inv q' \<and> bq_items q' = xs"
proof -
  obtain i r where d: "try_dequeue (inner q) = (i, r)" by (cases "try_dequeue (inner q)")
  have "queue_inv i" "r = Inr (Some x)" "queue_items i = xs"
    using rwq.deq_items [OF _ d] assms by (simp_all add: bq_items_def bq_counted_def)
  then show ?thesis using d assms by (simp add: dequeue_counted_def bq_inv_def bq_items_def bq_counted_def)
qed

lemma bq_counted_down: "bq_inv q \<Longrightarrow> bq_counted (count_down q) \<and> bq_items (count_down q) = bq_items q"
  by (simp add: bq_counted_def bq_inv_def bq_items_def)

lemma bq_try_dequeue_items:
  assumes "bq_inv q" "bq_try_dequeue q = (q', r)"
  shows "bq_inv q' \<and> (case bq_items q of
     [] \<Rightarrow> r = Inr None \<and> bq_items q' = []
   | x # xs \<Rightarrow> r = Inr (Some x) \<and> bq_items q' = xs)"
proof (cases "bq_items q")
  case Nil
  then show ?thesis using assms by (auto simp: bq_try_dequeue_def tryWait_def bq_inv_def)
next
  case (Cons x xs)
  let ?q = "count_down q"
  have "\<exists>q'. dequeue_counted ?q = (q', Inr (Some x)) \<and> bq_inv q' \<and> bq_items q' = xs"
    by (rule dequeue_counted_items) (use bq_counted_down [OF assms(1)] Cons in simp_all)
  moreover have "bq_try_dequeue q = dequeue_counted ?q"
    using assms(1) Cons by (simp add: bq_try_dequeue_def tryWait_def bq_inv_def)
  ultimately show ?thesis using assms(2) Cons by auto
qed

interpretation bq: fifo bq_inv bq_items "bq_enqueue malloc" bq_try_dequeue for malloc
  by unfold_locales (erule (1) bq_enqueue_items, erule (1) bq_try_dequeue_items)

lemma new_blocking_queue_empty:
  assumes "new_blocking_queue malloc sz = Inr q" "1 \<le> sz" "sz < 2 ^ 63"
  shows "bq_inv q \<and> bq_items q = []"
proof -
  obtain i where i: "new_queue malloc sz = Inr i" "q = \<lparr>inner = i, sema = \<lparr>m_count = 0, m_sema = 0\<rparr>\<rparr>"
    using assms(1) by (auto simp: new_blocking_queue_def bindE_Inr_iff)
  then show ?thesis using new_queue_empty [OF i(1) assms(2,3)] by (simp add: bq_inv_def bq_items_def)
qed

lemma take_back_none: "m_count s < 0 \<Longrightarrow> take_back s = Some (s\<lparr>m_count := m_count s + 1\<rparr>, False)"
  by (subst take_back.simps) (simp add: Let_def)

lemma take_back_some:
  "0 \<le> m_count s \<Longrightarrow> 0 < m_sema s \<Longrightarrow> take_back s = Some (s\<lparr>m_sema := m_sema s - 1\<rparr>, True)"
  by (subst take_back.simps) (simp add: Let_def)

lemma waitWithPartialSpinning_result:
  assumes "bq_inv q" "bq_items q = []" "0 \<le> timeout" "\<forall>i. malloc i"
  shows "\<exists>w' ps q'. waitWithPartialSpinning malloc arrive timeout w q = Some (w', ps, q', ps \<noteq> [])
     \<and> bq_items q' = ps \<and> (if ps = [] then bq_inv q' else bq_counted q')"
proof -
  obtain w1 p1 where a1: "arrive w = (w1, p1)" by (cases "arrive w")
  define q1 where "q1 = post_all malloc p1 q"
  have q1: "bq_inv q1" "bq_items q1 = p1"
    using post_all_items(1) [OF assms(4,1), where xs = p1] assms(2) by (simp_all add: q1_def)
  obtain w2 p2 where a2: "arrive w1 = (w2, p2)" by (cases "arrive w1")
  define q2 where "q2 = post_all malloc p2 (count_down q1)"
  obtain w3 p3 where a3: "arrive w2 = (w3, p3)" by (cases "arrive w2")
  define q3 where "q3 = post_all malloc p3 q2"
  have run: "waitWithPartialSpinning malloc arrive timeout w q =
      (if m_count (sema q1) > 0 then Some (w1, p1, count_down q1, True)
       else if timeout \<noteq> 0 \<and> m_sema (sema q2) > 0 then
         Some (w2, p1 @ p2, q2\<lparr>sema := (sema q2)\<lparr>m_sema := m_sema (sema q2) - 1\<rparr>\<rparr>, True)
       else map_option (\<lambda>(s, ok). (w3, p1 @ p2 @ p3, q3\<lparr>sema := s\<rparr>, ok)) (take_back (sema q3)))"
    using assms(3) a1 a2 a3 unfolding waitWithPartialSpinning_def q3_def q2_def q1_def by (simp add: Let_def)
  show ?thesis
  proof (cases "p1 = []")
    case False
    then have "m_count (sema q1) > 0" using q1 by (simp add: bq_inv_def)
    then show ?thesis unfolding run using False q1 bq_counted_down [OF q1(1)] by auto
  next
    case True
    then have c0: "\<not> m_count (sema q1) > 0" using q1 by (simp add: bq_inv_def)
    have "bq_waiting (count_down q1)" "bq_items (count_down q1) = []"
      using q1 True by (simp_all add: bq_inv_def bq_waiting_def bq_items_def)
    then have q2: "bq_waiting q2" "bq_items q2 = p2"
      using post_all_items(2) [OF assms(4), where q = "count_down q1" and xs = p2] by (simp_all add: q2_def)
    have q3: "bq_waiting q3" "bq_items q3 = p2 @ p3"
      using post_all_items(2) [OF assms(4) q2(1), where xs = p3] q2(2) by (simp_all add: q3_def)
    consider (woken) "timeout \<noteq> 0 \<and> m_sema (sema q2) > 0" | (late) "\<not> (timeout \<noteq> 0 \<and> m_sema (sema q2) > 0)" "p2 @ p3 \<noteq> []"
      | (timeout) "\<not> (timeout \<noteq> 0 \<and> m_sema (sema q2) > 0)" "p2 @ p3 = []" by blast
    then show ?thesis
    proof cases
      case woken
      then have "p2 \<noteq> []" using q2 by (auto simp: bq_waiting_def)
      then show ?thesis unfolding run using woken c0 True q2 by (auto simp: bq_waiting_def bq_counted_def bq_items_def)
    next
      case late
      then have "take_back (sema q3) = Some ((sema q3)\<lparr>m_sema := m_sema (sema q3) - 1\<rparr>, True)"
      proof (intro take_back_some)
        have "0 < length (p2 @ p3)" using late(2) by blast
        then show "0 \<le> m_count (sema q3)" using q3 by (simp add: bq_waiting_def del: length_append length_greater_0_conv)
      qed (use q3 late(2) in \<open>simp add: bq_waiting_def\<close>)
      then show ?thesis unfolding run if_not_P [OF c0] if_not_P [OF late(1)] using late(2) True q3
        by (auto simp: bq_waiting_def bq_counted_def bq_items_def)
    next
      case timeout
      then have "take_back (sema q3) = Some ((sema q3)\<lparr>m_count := 0\<rparr>, False)"
        using q3 take_back_none [of "sema q3"] by (simp add: bq_waiting_def)
      then show ?thesis unfolding run if_not_P [OF c0] if_not_P [OF timeout(1)] using timeout(2) True q3
        by (simp add: bq_waiting_def bq_inv_def bq_items_def)
    qed
  qed
qed

lemma wait_dequeue_timed_items:
  assumes "bq_inv q" "0 \<le> timeout" "\<forall>i. malloc i"
  shows "\<exists>w' ps q' r. wait_dequeue_timed malloc arrive timeout w q = Some (w', ps, q', r) \<and> bq_inv q'
     \<and> (case bq_items q @ ps of
          [] \<Rightarrow> r = Inr None \<and> bq_items q' = []
        | x # xs \<Rightarrow> r = Inr (Some x) \<and> bq_items q' = xs)"
proof (cases "bq_items q")
  case (Cons x xs)
  obtain q' where d: "dequeue_counted (count_down q) = (q', Inr (Some x))" "bq_inv q'" "bq_items q' = xs"
    using dequeue_counted_items [of "count_down q" x xs] bq_counted_down [OF assms(1)] Cons by auto
  moreover have "tryWait (sema q) = ((sema q)\<lparr>m_count := m_count (sema q) - 1\<rparr>, True)"
    using assms(1) Cons by (simp add: tryWait_def bq_inv_def)
  ultimately have "wait_dequeue_timed malloc arrive timeout w q = Some (w, [], q', Inr (Some x))"
    by (simp add: wait_dequeue_timed_def)
  then show ?thesis using d Cons by simp
next
  case Nil
  then have "tryWait (sema q) = (sema q, False)" using assms(1) by (simp add: tryWait_def bq_inv_def)
  moreover obtain w' ps q' where w: "waitWithPartialSpinning malloc arrive timeout w q = Some (w', ps, q', ps \<noteq> [])"
    "bq_items q' = ps" "if ps = [] then bq_inv q' else bq_counted q'"
    using waitWithPartialSpinning_result [OF assms(1) Nil assms(2,3), where arrive = arrive and w = w]
    by (elim exE conjE)
  ultimately have run: "wait_dequeue_timed malloc arrive timeout w q =
      Some (w', ps, if ps \<noteq> [] then dequeue_counted q' else (q', Inr None))"
    by (simp add: wait_dequeue_timed_def)
  show ?thesis
  proof (cases ps)
    case (Cons x xs)
    obtain q'' where "dequeue_counted q' = (q'', Inr (Some x))" "bq_inv q''" "bq_items q'' = xs"
      using dequeue_counted_items [of q' x xs] w(2,3) Cons by auto
    then show ?thesis using run Nil Cons by simp
  qed (use w run Nil in simp)
qed

section \<open>Size and capacity\<close>

lemma block_rep_size:
  assumes "block_rep b xs"
  shows "nat ((int (b_tail b) - int (b_front b)) AND int (b_sizeMask b)) = length xs" "length xs \<le> b_sizeMask b" "1 \<le> b_sizeMask b"
proof -
  obtain n F LF LT where n: "block_size n b" and c: "cells n F LF LT b xs" using assms by (auto simp: block_rep_def)
  obtain k where k: "n = 2 ^ Suc k" "b_sizeMask b = 2 ^ Suc k - 1" using n by (auto simp: block_size_def)
  have len: "length xs < n" using c by (simp add: cells_def)
  then show "length xs \<le> b_sizeMask b" using k by simp
  have "(2::nat) \<le> 2 ^ Suc k" by simp
  then show "1 \<le> b_sizeMask b" unfolding k(2) by linarith
  have "int (b_sizeMask b) = mask (Suc k)" unfolding k(2) mask_eq_exp_minus_1 by (simp add: of_nat_diff)
  then have "(int (b_tail b) - int (b_front b)) AND int (b_sizeMask b) = (int (b_tail b) - int (b_front b)) mod 2 ^ Suc k"
    by (simp only: take_bit_eq_mask [symmetric] take_bit_eq_mod)
  also have "\<dots> = (int (F + length xs) mod int n - int F mod int n) mod int n" using c k(1) by (simp add: cells_def of_nat_mod)
  also have "\<dots> = int (length xs)" using len by (simp add: mod_diff_eq)
  finally show "nat ((int (b_tail b) - int (b_front b)) AND int (b_sizeMask b)) = length xs" by simp
qed

lemma ring_sum:
  assumes "chained (\<lambda>i. b_next (block_at q i)) ((i # is) @ [frontBlock q])" "frontBlock q \<notin> set is"
  shows "loop (\<lambda>s. Some (ring_step f q s)) (r, i) = Some (r + sum_list (map (\<lambda>i. f (block_at q i)) (i # is)))"
  using assms
proof (induction "is" arbitrary: r i)
  case Nil
  then show ?case by (intro loop_simps(2)) (simp add: ring_step_def)
next
  case (Cons j "is")
  then have "ring_step f q (r, i) = Inr (r + f (block_at q i), j)" by (auto simp: ring_step_def)
  then have "loop (\<lambda>s. Some (ring_step f q s)) (r, i) = loop (\<lambda>s. Some (ring_step f q s)) (r + f (block_at q i), j)"
    by (intro loop_simps(3)) simp
  then show ?case using Cons.IH [of j "r + f (block_at q i)"] Cons.prems by (simp add: add.assoc)
qed

lemma ring_sum_rep:
  assumes "queue_rep q ps free"
  shows "loop (\<lambda>s. Some (ring_step f q s)) (0, frontBlock q) = Some (sum_list (map (\<lambda>i. f (block_at q i)) (map fst ps @ free)))"
proof -
  obtain xs rs where ps: "ps = (frontBlock q, xs) # rs" using front_pair [OF assms] .
  then show ?thesis using ring_sum [of q "frontBlock q" "map fst rs @ free" f 0] assms by (simp add: queue_rep_def)
qed

lemma size_approx_rep:
  assumes "queue_rep q ps free"
  shows "size_approx q = Some (length (concat (map snd ps)))"
proof -
  let ?f = "\<lambda>b :: 'a Block. nat ((int (b_tail b) - int (b_front b)) AND int (b_sizeMask b))"
  have "?f (block_at q i) = 0" if "i \<in> set free" for i
    using block_rep_size(1) [of "block_at q i" "[]"] assms that by (simp add: queue_rep_def)
  then have fr: "map (\<lambda>i. ?f (block_at q i)) free = map (\<lambda>_. 0) free" by (intro map_cong) simp_all
  have ps: "map (\<lambda>p. ?f (block_at q (fst p))) ps = map (length \<circ> snd) ps"
    using assms by (auto simp: queue_rep_def dest: block_rep_size(1))
  have "sum_list (map (\<lambda>i. ?f (block_at q i)) (map fst ps @ free)) = sum_list (map (\<lambda>p. ?f (block_at q (fst p))) ps) + sum_list (map (\<lambda>i. ?f (block_at q i)) free)"
    by (simp only: map_append sum_list_append map_map comp_def)
  also have "\<dots> = length (concat (map snd ps))" unfolding ps fr by (simp add: length_concat comp_def)
  finally have "sum_list (map (\<lambda>i. ?f (block_at q i)) (map fst ps @ free)) = length (concat (map snd ps))" .
  then show ?thesis unfolding size_approx_def ring_sum_rep [OF assms] by simp
qed

text \<open>The objects that fit before a block has to be allocated: in the tail block and in the free ones.\<close>

definition room :: "'a ReaderWriterQueue \<Rightarrow> (nat \<times> 'a list) list \<Rightarrow> nat list \<Rightarrow> nat" where
  "room q ps free = b_sizeMask (block_at q (tailBlock q)) - length (snd (last ps)) + sum_list (map (\<lambda>i. b_sizeMask (block_at q i)) free)"

definition takes_one :: "'a ReaderWriterQueue \<times> bool \<Rightarrow> nat \<Rightarrow> bool" where
  "takes_one r k \<longleftrightarrow> snd r \<and> (\<exists>ps free. queue_rep (fst r) ps free \<and> Suc (room (fst r) ps free) = k)"

lemma store_takes_one:
  assumes r: "queue_rep q (qs @ [(tailBlock q, xs)]) free"
    and b: "block_rep b xs" "(b_tail b + 1) AND b_sizeMask b \<noteq> b_localFront b" "b_next b = b_next (block_at q (tailBlock q))"
      "b_sizeMask b = b_sizeMask (block_at q (tailBlock q))"
  shows "takes_one (set_block (tailBlock q) (store_at_tail x b) q, True) (room q (qs @ [(tailBlock q, xs)]) free)"
proof -
  let ?t = "tailBlock q" let ?q = "set_block ?t (store_at_tail x b) q"
  have st: "block_rep (store_at_tail x b) (xs @ [x])" by (rule block_rep_store [OF b(1,2)])
  have rep: "queue_rep ?q (qs @ [(?t, xs @ [x])]) free"
    by (rule queue_rep_set_block [OF r st]) (simp_all add: store_at_tail_def b(3))
  have t: "?t < length (blocks q)" using queue_rep_bound [OF r] by simp
  have "?t \<notin> set free" using r by (auto simp: queue_rep_def)
  then have fr: "map (\<lambda>i. b_sizeMask (block_at ?q i)) free = map (\<lambda>i. b_sizeMask (block_at q i)) free" by (auto simp: map_eq_conv)
  have tl: "b_sizeMask (block_at ?q (tailBlock ?q)) = b_sizeMask b" using t by (simp add: store_at_tail_def)
  have "Suc (length xs) \<le> b_sizeMask b" using block_rep_size(2) [OF st] by (simp add: store_at_tail_def)
  then have "Suc (room ?q (qs @ [(?t, xs @ [x])]) free) = room q (qs @ [(?t, xs)]) free"
    unfolding room_def fr tl b(4) [symmetric] by simp
  then show ?thesis using rep unfolding takes_one_def by auto
qed

lemma full_block:
  assumes "block_rep b xs" "(b_tail b + 1) AND b_sizeMask b = b_front b"
  shows "length xs = b_sizeMask b"
proof -
  obtain n F LF LT where n: "block_size n b" and c: "cells n F LF LT b xs" using assms(1) by (auto simp: block_rep_def)
  have "(F + length xs + 1) mod n = F mod n" using assms(2) c by (simp add: and_sizeMask [OF n] cells_def mod_Suc_eq)
  moreover have "length xs < n" using c by (simp add: cells_def)
  ultimately have "length xs + 1 = n" using mod_eq_near [of F "F + length xs + 1" n] by force
  then show ?thesis using n by (simp add: block_size_def)
qed

lemma enqueue_next_takes_one:
  assumes r: "queue_rep q (qs @ [(tailBlock q, xs)]) (i # fr)" and full: "length xs = b_sizeMask (block_at q (tailBlock q))"
  shows "takes_one (enqueue_next False malloc x q) (room q (qs @ [(tailBlock q, xs)]) (i # fr))"
proof -
  let ?ps = "qs @ [(tailBlock q, xs)]" let ?N = "store_at_tail x ((block_at q i)\<lparr>b_localFront := b_front (block_at q i)\<rparr>)"
  let ?q = "(set_block i ?N q)\<lparr>tailBlock := i\<rparr>"
  have i: "i < length (blocks q)" "i \<notin> set fr" and e: "block_rep (block_at q i) []"
    using r queue_rep_bound [OF r, of i] by (auto simp: queue_rep_def)
  have "frontBlock q \<in> set (map fst ?ps)" using front_pair [OF r] by (metis list.set_intros(1) list.simps(9) fst_conv)
  then have "i \<noteq> frontBlock q" using r unfolding queue_rep_def by auto
  have rep: "queue_rep ?q (?ps @ [(i, [x])]) fr"
    using e by (intro queue_rep_advance_tail [OF r] block_rep_store_empty block_rep_load_front) (simp_all add: store_at_tail_def)
  have fr: "map (\<lambda>j. b_sizeMask (block_at ?q j)) fr = map (\<lambda>j. b_sizeMask (block_at q j)) fr" using i(2) by (auto simp: map_eq_conv)
  have tl: "b_sizeMask (block_at ?q (tailBlock ?q)) = b_sizeMask (block_at q i)" using i(1) by (simp add: store_at_tail_def)
  have "Suc (room ?q (?ps @ [(i, [x])]) fr) = room q ?ps (i # fr)"
    unfolding room_def fr tl using full block_rep_size(3) [OF e] by simp
  moreover have "enqueue_next False malloc x q = (?q, True)"
    using next_of_tail [OF r] \<open>i \<noteq> frontBlock q\<close> by (simp add: enqueue_next_def Let_def)
  ultimately show ?thesis using rep unfolding takes_one_def by auto
qed

lemma try_enqueue_takes_one:
  assumes r: "queue_rep q ps free" and k: "0 < room q ps free"
  shows "takes_one (try_enqueue x q) (room q ps free)"
proof -
  obtain qs xs where ps: "ps = qs @ [(tailBlock q, xs)]" using tail_pair [OF r] .
  let ?tb = "tailBlock q" let ?B = "block_at q ?tb" let ?B' = "?B\<lparr>b_localFront := b_front ?B\<rparr>" let ?q = "set_block ?tb ?B' q"
  have B: "block_rep ?B xs" using r ps by (auto simp: queue_rep_def)
  have t: "?tb < length (blocks q)" using queue_rep_bound [OF r] ps by simp
  note store = store_takes_one [OF r [unfolded ps]]
  show ?thesis
  proof (cases "(b_tail ?B + 1) AND b_sizeMask ?B = b_localFront ?B \<and> (b_tail ?B + 1) AND b_sizeMask ?B = b_front ?B")
    case False
    then show ?thesis using store [OF B] store [OF block_rep_load_front [OF B]] ps
      by (auto simp: try_enqueue_def inner_enqueue_def Let_def)
  next
    case True
    have full: "length xs = b_sizeMask ?B" using full_block [OF B] True by blast
    obtain i fr where fr: "free = i # fr" using k full by (cases free) (auto simp: room_def ps)
    have "xs \<noteq> []" using full block_rep_size(3) [OF B] by auto
    then have rep: "queue_rep ?q (qs @ [(tailBlock ?q, xs)]) (i # fr)"
      using queue_rep_set_block [OF r [unfolded ps] block_rep_load_front [OF B]] by (simp add: fr)
    have "room ?q (qs @ [(tailBlock ?q, xs)]) (i # fr) = room q ps free"
      using t r by (auto simp: room_def ps fr queue_rep_def intro!: arg_cong [of _ _ sum_list])
    moreover have "try_enqueue x q = enqueue_next False (\<lambda>_. False) x ?q"
      using True by (simp add: try_enqueue_def inner_enqueue_def Let_def)
    ultimately show ?thesis using enqueue_next_takes_one [OF rep, of "\<lambda>_. False" x] full t by simp
  qed
qed

fun try_all :: "'a list \<Rightarrow> 'a ReaderWriterQueue \<Rightarrow> 'a ReaderWriterQueue \<times> bool" where
  "try_all [] q = (q, True)"
| "try_all (x # xs) q = (case try_enqueue x q of (q, True) \<Rightarrow> try_all xs q | (q, False) \<Rightarrow> (q, False))"

lemma try_all_room: "queue_rep q ps free \<Longrightarrow> length xs \<le> room q ps free \<Longrightarrow> snd (try_all xs q)"
proof (induction xs arbitrary: q ps free)
  case (Cons x xs)
  then obtain q' ps' free' where "try_enqueue x q = (q', True)" "queue_rep q' ps' free'" "Suc (room q' ps' free') = room q ps free"
    using try_enqueue_takes_one [OF Cons.prems(1), of x] unfolding takes_one_def by (cases "try_enqueue x q") auto
  then show ?case using Cons.IH [of q' ps' free'] Cons.prems(2) by simp
qed simp

lemma max_capacity_empty:
  assumes "queue_rep q ps free" "concat (map snd ps) = []"
  shows "max_capacity q = Some (room q ps free)"
proof -
  obtain xs rs where ps: "ps = (frontBlock q, xs) # rs" using front_pair [OF assms(1)] .
  have "rs = []" using assms ps by (cases rs) (auto simp: queue_rep_def)
  then have "ps = [(frontBlock q, [])]" "tailBlock q = frontBlock q" using assms ps by (simp_all add: queue_rep_def)
  then show ?thesis unfolding max_capacity_def ring_sum_rep [OF assms(1)] by (simp add: room_def)
qed

section \<open>Properties\<close>

text \<open>
  C27. The queue of blocks is a first-in first-out list. Whatever sequence of enqueues and
  dequeues is run on a newly constructed queue, every dequeue answers what it answers on a list:
  the oldest element that is still there, or nothing; no element is lost, doubled or reordered
  while blocks fill up, are reused in the ring and are added, and no dequeue reads a dead slot.
\<close>

theorem queue_refines_list:
  assumes "new_blocking_queue malloc sz = Inr q" "1 \<le> sz" "sz < 2 ^ 63"
    and "run_ops (bq_enqueue malloc) bq_try_dequeue ops q = (q', rs)"
  shows "spec_ops (enq_answers rs) ops [] = (bq_items q', rs)"
proof -
  have "bq_inv q" "bq_items q = []" using new_blocking_queue_empty [OF assms(1-3)] by simp_all
  then show ?thesis using bq.run_ops_spec [OF _ assms(4)] by simp
qed

definition small_queue :: "'a BlockingReaderWriterQueue" where
  "small_queue = \<lparr>inner = \<lparr>blocks = [(make_block 2)\<lparr>b_next := 0\<rparr>], frontBlock = 0, tailBlock = 0, largestBlockSize = 2\<rparr>,
     sema = \<lparr>m_count = 0, m_sema = 0\<rparr>\<rparr>"

lemma new_small_queue: "new_blocking_queue (\<lambda>_. True) 1 = Inr small_queue"
proof -
  obtain k where k: "unat (ceilToPow2 2) = 2 ^ k" "2 \<le> (2::nat) ^ k" "\<forall>j. 2 \<le> (2::nat) ^ j \<longrightarrow> k \<le> j"
    using ceilToPow2_least [of 2] by auto
  have "k \<le> 1" using k(3) [rule_format, of 1] by simp
  moreover have "k \<noteq> 0" using k(2) by (intro notI) simp
  ultimately have "k = 1" by simp
  then show ?thesis using k(1)
    by (simp add: new_blocking_queue_def new_queue_def small_queue_def MAX_BLOCK_SIZE_def)
qed

theorem queue_refines_list_witness:
  "spec_ops (enq_answers (snd (run_ops (bq_enqueue (\<lambda>_. True)) bq_try_dequeue [Enq (1::nat), Enq 2, Deq, Enq 3, Deq, Deq, Deq] small_queue)))
     [Enq (1::nat), Enq 2, Deq, Enq 3, Deq, Deq, Deq] []
   = ([], [Inl True, Inl True, Inr (Inr (Some 1)), Inl True, Inr (Inr (Some 2)), Inr (Inr (Some 3)), Inr (Inr None)])"
proof -
  let ?ops = "[Enq (1::nat), Enq 2, Deq, Enq 3, Deq, Deq, Deq]"
  let ?run = "run_ops (bq_enqueue (\<lambda>_. True)) bq_try_dequeue ?ops small_queue"
  have i: "bq_items (fst ?run) = []" and s: "snd ?run = [Inl True, Inl True, Inr (Inr (Some 1)), Inl True,
      Inr (Inr (Some 2)), Inr (Inr (Some 3)), Inr (Inr None)]" by code_simp+
  have "spec_ops (enq_answers (snd ?run)) ?ops [] = (bq_items (fst ?run), snd ?run)"
    by (rule queue_refines_list [OF new_small_queue _ _ prod.collapse [symmetric]]) simp_all
  then show ?thesis unfolding i s .
qed

text \<open>
  C30. A wait with a time limit always ends, and it ends with the oldest element whenever one was
  there before or was posted while the consumer was waiting, even between the timeout and the
  last look at the count; only if there was none does it report a timeout. In every case the
  semaphore is left in step with the number of elements.
\<close>

theorem wait_dequeue_timed_fifo:
  assumes "bq_inv q" "0 \<le> timeout" "\<forall>i. malloc i"
  shows "\<exists>w' ps q' r. wait_dequeue_timed malloc arrive timeout w q = Some (w', ps, q', r) \<and> bq_inv q'
     \<and> (case bq_items q @ ps of
          [] \<Rightarrow> r = Inr None \<and> bq_items q' = []
        | x # xs \<Rightarrow> r = Inr (Some x) \<and> bq_items q' = xs)"
  by (rule wait_dequeue_timed_items [OF assms])

theorem wait_dequeue_timed_fifo_witness:
  "\<exists>w' ps q' r. wait_dequeue_timed (\<lambda>_. True) (\<lambda>w. (w + 1, if w = 2 then [''late''] else [])) 0 (0::nat) (small_queue :: string BlockingReaderWriterQueue)
       = Some (w', ps, q', r) \<and> bq_inv q'
     \<and> (case bq_items (small_queue :: string BlockingReaderWriterQueue) @ ps of [] \<Rightarrow> r = Inr None \<and> bq_items q' = [] | x # xs \<Rightarrow> r = Inr (Some x) \<and> bq_items q' = xs)"
  by (rule wait_dequeue_timed_fifo) (simp_all add: new_blocking_queue_empty [OF new_small_queue])

text \<open>
  C28. The size of a queue is exact when nobody works on it, and the walk around the ring ends. An empty
  queue takes as many elements as its capacity says without allocating memory.
\<close>

theorem queue_capacity:
  assumes "queue_inv q"
  shows "size_approx q = Some (length (queue_items q)) \<and>
     (queue_items q = [] \<longrightarrow> (\<exists>n. max_capacity q = Some n \<and> (\<forall>xs. length xs \<le> n \<longrightarrow> snd (try_all xs q))))"
proof -
  obtain ps free where r: "queue_rep q ps free" using assms by (auto simp: queue_inv_def)
  have i: "queue_items q = concat (map snd ps)" by (rule queue_items_rep [OF r])
  show ?thesis using size_approx_rep [OF r] max_capacity_empty [OF r] try_all_room [OF r] unfolding i by blast
qed

theorem queue_capacity_witness:
  "size_approx (inner (small_queue :: nat BlockingReaderWriterQueue)) = Some 0 \<and> max_capacity (inner (small_queue :: nat BlockingReaderWriterQueue)) = Some 1
   \<and> snd (try_all [7] (inner (small_queue :: nat BlockingReaderWriterQueue)))"
proof -
  let ?q = "inner (small_queue :: nat BlockingReaderWriterQueue)"
  have e: "queue_inv ?q" "queue_items ?q = []"
    using new_blocking_queue_empty [OF new_small_queue [where 'a = nat]] by (simp_all add: bq_inv_def bq_items_def)
  have m: "max_capacity ?q = Some 1" by code_simp
  have "length [7 :: nat] \<le> 1" by simp
  then show ?thesis using queue_capacity [OF e(1)] e(2) m by (metis list.size(3) option.inject)
qed

end
