(* ===== verification/Event_Dispatcher.thy ===== *)
theory Event_Dispatcher
  imports Reader_Writer_Queue Events
begin

text \<open>
  The dispatcher: \<^verbatim>\<open>src/src/event_dispatcher.cpp\<close>. Its worker thread takes jobs
  from the queue, cuts them into batches, hands every batch to the sinks and confirms the
  positions of the batch to the sources. The clock, the sinks, the posting threads, the running
  flag and the callbacks are fields of \<open>disp_env\<close> over a world \<open>'w\<close>. \<open>disp_log\<close> is a history of
  what the worker did. A run that does not return is \<open>None\<close>.
\<close>

section \<open>State\<close>

record 's SinkHandle =
  sink :: 's
  required :: bool

record 's EventJob =
  ev :: ChangeEvent
  source_id :: nat
  job_sinks :: "'s SinkHandle list"

text \<open>
  \<open>Cut\<close> is the start of a dispatch with the batch, the sinks and the largest position of each
  source; \<open>Called\<close> is one call of a sink with its outcome.
\<close>

datatype 's action =
    Posted "'s EventJob"
  | Cut "ChangeEvent list" "'s SinkHandle list" "(nat \<times> u64) list"
  | Called "'s SinkHandle" "ChangeEvent list" "failure option"
  | Confirmed nat u64
  | Fatal

record ('s, 'w) disp_env =
  call_batch :: "'s \<Rightarrow> ChangeEvent list \<Rightarrow> 'w \<Rightarrow> 'w \<times> failure option"
  steady_now :: "'w \<Rightarrow> 'w \<times> int"
  sleep_ms :: "int \<Rightarrow> 'w \<Rightarrow> 'w"
  posting :: "'w \<Rightarrow> 'w \<times> 's EventJob list"
  running :: "'w \<Rightarrow> 'w \<times> bool"
  malloc_ok :: "nat \<Rightarrow> bool"
  on_confirmed :: "(nat \<Rightarrow> u64 \<Rightarrow> 'w \<Rightarrow> 'w) option"
  on_fatal :: "('w \<Rightarrow> 'w) option"
  map_order :: "(nat \<times> u64) list \<Rightarrow> (nat \<times> u64) list"

record ('s, 'w) EventDispatcher =
  disp_queue :: "'s EventJob BlockingReaderWriterQueue"
  disp_max_batch_size :: nat
  disp_batch_timeout :: int
  required_retry_initial_backoff :: int
  required_retry_ceiling :: int
  fatal_triggered :: bool
  disp_world :: 'w
  disp_log :: "'s action list"

text \<open>The constructor: the batch limits come from the configuration, the retry limits are defaults.\<close>

definition new_EventDispatcher ::
  "(nat \<Rightarrow> bool) \<Rightarrow> nat \<Rightarrow> int \<Rightarrow> int \<Rightarrow> int \<Rightarrow> 'w \<Rightarrow> ('s, 'w) EventDispatcher result" where
  "new_EventDispatcher malloc sz timeout backoff ceiling w =
     bindE (new_blocking_queue malloc 15) (\<lambda>q.
       Inr \<lparr>disp_queue = q, disp_max_batch_size = sz, disp_batch_timeout = timeout,
         required_retry_initial_backoff = backoff, required_retry_ceiling = ceiling,
         fatal_triggered = False, disp_world = w, disp_log = []\<rparr>)"

definition default_backoff :: int where
  "default_backoff = 500"

definition default_ceiling :: int where
  "default_ceiling = 60 * 1000"

definition post_job :: "('s, 'w) disp_env \<Rightarrow> 's EventJob \<Rightarrow> ('s, 'w) EventDispatcher \<Rightarrow> ('s, 'w) EventDispatcher" where
  "post_job env j d = d\<lparr>disp_queue := fst (bq_enqueue (malloc_ok env) j (disp_queue d)), disp_log := disp_log d @ [Posted j]\<rparr>"

definition log_action :: "'s action \<Rightarrow> ('s, 'w) EventDispatcher \<Rightarrow> ('s, 'w) EventDispatcher" where
  "log_action a d = d\<lparr>disp_log := disp_log d @ [a]\<rparr>"

definition read_clock :: "('s, 'w) disp_env \<Rightarrow> ('s, 'w) EventDispatcher \<Rightarrow> ('s, 'w) EventDispatcher \<times> int" where
  "read_clock env d = (case steady_now env (disp_world d) of (w, t) \<Rightarrow> (d\<lparr>disp_world := w\<rparr>, t))"

definition call_sink ::
  "('s, 'w) disp_env \<Rightarrow> 's SinkHandle \<Rightarrow> ChangeEvent list \<Rightarrow> ('s, 'w) EventDispatcher \<Rightarrow> ('s, 'w) EventDispatcher \<times> failure option" where
  "call_sink env h evs d =
     (case call_batch env (sink h) evs (disp_world d) of
        (w, r) \<Rightarrow> (log_action (Called h evs r) (d\<lparr>disp_world := w\<rparr>), r))"

section \<open>Dispatch\<close>

text \<open>
  The clock counts nanoseconds, limits and pauses count milliseconds. Doubling the pause is done
  on 64-bit signed numbers.
\<close>

definition wrap64 :: "int \<Rightarrow> int" where
  "wrap64 i = (i + 2 ^ 63) mod 2 ^ 64 - 2 ^ 63"

definition retry_step ::
  "('s, 'w) disp_env \<Rightarrow> 's SinkHandle \<Rightarrow> ChangeEvent list \<Rightarrow> int \<Rightarrow> int \<times> ('s, 'w) EventDispatcher \<Rightarrow>
     (('s, 'w) EventDispatcher \<times> bool result) + (int \<times> ('s, 'w) EventDispatcher)" where
  "retry_step env h evs start = (\<lambda>(backoff, d).
     (case call_sink env h evs d of
        (d, None) \<Rightarrow> Inl (d, Inr True)
      | (d, Some OutOfBounds) \<Rightarrow> Inl (d, Inl OutOfBounds)
      | (d, Some (Throw e)) \<Rightarrow>
          if \<not> required h then Inl (d, Inr True)
          else
            (case read_clock env d of (d, now) \<Rightarrow>
               let elapsed = now - start; ceiling = required_retry_ceiling d * 1000000 in
               if elapsed \<ge> ceiling then Inl (d, Inr False)
               else
                 let remaining = (ceiling - elapsed) div 1000000;
                     pause = min remaining backoff
                 in Inr (wrap64 (backoff * 2), d\<lparr>disp_world := sleep_ms env pause (disp_world d)\<rparr>))))"

definition dispatch_with_retry ::
  "('s, 'w) disp_env \<Rightarrow> 's SinkHandle \<Rightarrow> ChangeEvent list \<Rightarrow> ('s, 'w) EventDispatcher \<Rightarrow>
     (('s, 'w) EventDispatcher \<times> bool result) option" where
  "dispatch_with_retry env h evs d =
     (case read_clock env d of
        (d, start) \<Rightarrow> loop (\<lambda>s. Some (retry_step env h evs start s)) (required_retry_initial_backoff d, d))"

definition raise_fatal :: "('s, 'w) disp_env \<Rightarrow> ('s, 'w) EventDispatcher \<Rightarrow> ('s, 'w) EventDispatcher" where
  "raise_fatal env d =
     (case on_fatal env of
        None \<Rightarrow> d
      | Some f \<Rightarrow>
          if fatal_triggered d then d
          else log_action Fatal (d\<lparr>fatal_triggered := True, disp_world := f (disp_world d)\<rparr>))"

fun dispatch ::
  "('s, 'w) disp_env \<Rightarrow> ChangeEvent list \<Rightarrow> 's SinkHandle list \<Rightarrow> ('s, 'w) EventDispatcher \<Rightarrow>
     (('s, 'w) EventDispatcher \<times> bool result) option" where
  "dispatch env evs [] d = Some (d, Inr True)"
| "dispatch env evs (h # hs) d =
     (case dispatch_with_retry env h evs d of
        None \<Rightarrow> None
      | Some (d, Inl e) \<Rightarrow> Some (d, Inl e)
      | Some (d, Inr True) \<Rightarrow> dispatch env evs hs d
      | Some (d, Inr False) \<Rightarrow> Some (raise_fatal env d, Inr False))"

text \<open>The iteration order of the map of positions is left open.\<close>

fun confirm_each ::
  "(nat \<Rightarrow> u64 \<Rightarrow> 'w \<Rightarrow> 'w) \<Rightarrow> (nat \<times> u64) list \<Rightarrow> ('s, 'w) EventDispatcher \<Rightarrow> ('s, 'w) EventDispatcher" where
  "confirm_each f [] d = d"
| "confirm_each f ((s, lsn) # m) d =
     confirm_each f m (log_action (Confirmed s lsn) (d\<lparr>disp_world := f s lsn (disp_world d)\<rparr>))"

definition notify_confirmed ::
  "('s, 'w) disp_env \<Rightarrow> (nat \<times> u64) list \<Rightarrow> ('s, 'w) EventDispatcher \<Rightarrow> ('s, 'w) EventDispatcher" where
  "notify_confirmed env m d =
     (case on_confirmed env of None \<Rightarrow> d | Some f \<Rightarrow> confirm_each f (map_order env m) d)"

section \<open>The worker thread\<close>

text \<open>\<^verbatim>\<open>auto& lsn = m[id]; lsn = std::max(lsn, v)\<close>.\<close>

fun note_lsn :: "nat \<Rightarrow> u64 \<Rightarrow> (nat \<times> u64) list \<Rightarrow> (nat \<times> u64) list" where
  "note_lsn s v [] = [(s, max 0 v)]"
| "note_lsn s v ((s', l) # m) = (if s' = s then (s, max l v) # m else (s', l) # note_lsn s v m)"

definition wait_job ::
  "('s, 'w) disp_env \<Rightarrow> int \<Rightarrow> ('s, 'w) EventDispatcher \<Rightarrow> (('s, 'w) EventDispatcher \<times> 's EventJob option result) option" where
  "wait_job env ms d =
     map_option (\<lambda>(w, ps, q, r). (d\<lparr>disp_queue := q, disp_world := w, disp_log := disp_log d @ map Posted ps\<rparr>, r))
       (wait_dequeue_timed (malloc_ok env) (posting env) (ms * 1000) (disp_world d) (disp_queue d))"

text \<open>The inner loop: fill the batch until it is full, the deadline has passed or nothing comes.\<close>

definition fill_step ::
  "('s, 'w) disp_env \<Rightarrow> int \<Rightarrow> ChangeEvent list \<times> (nat \<times> u64) list \<times> ('s, 'w) EventDispatcher \<Rightarrow>
     ((('s, 'w) EventDispatcher \<times> (ChangeEvent list \<times> (nat \<times> u64) list) result)
      + (ChangeEvent list \<times> (nat \<times> u64) list \<times> ('s, 'w) EventDispatcher)) option" where
  "fill_step env deadline = (\<lambda>(evs, m, d).
     (if length evs < disp_max_batch_size d then
        (case read_clock env d of (d, now) \<Rightarrow>
           if now \<ge> deadline then Some (Inl (d, Inr (evs, m)))
           else
             (case wait_job env ((deadline - now) div 1000000) d of
                None \<Rightarrow> None
              | Some (d, Inl e) \<Rightarrow> Some (Inl (d, Inl e))
              | Some (d, Inr None) \<Rightarrow> Some (Inl (d, Inr (evs, m)))
              | Some (d, Inr (Some j)) \<Rightarrow>
                  Some (Inr (evs @ [ev j], note_lsn (source_id j) (commit_lsn (ev j)) m, d))))
      else Some (Inl (d, Inr (evs, m)))))"

definition fill_batch ::
  "('s, 'w) disp_env \<Rightarrow> int \<Rightarrow> ChangeEvent list \<Rightarrow> (nat \<times> u64) list \<Rightarrow> ('s, 'w) EventDispatcher \<Rightarrow>
     (('s, 'w) EventDispatcher \<times> (ChangeEvent list \<times> (nat \<times> u64) list) result) option" where
  "fill_batch env deadline evs m d = loop (fill_step env deadline) (evs, m, d)"

text \<open>Hand a batch to the sinks and confirm it.\<close>

definition deliver ::
  "('s, 'w) disp_env \<Rightarrow> ChangeEvent list \<Rightarrow> 's SinkHandle list \<Rightarrow> (nat \<times> u64) list \<Rightarrow> ('s, 'w) EventDispatcher \<Rightarrow>
     (('s, 'w) EventDispatcher \<times> bool result) option" where
  "deliver env evs hs m d =
     (case dispatch env evs hs (log_action (Cut evs hs m) d) of
        Some (d, Inr True) \<Rightarrow> Some (notify_confirmed env m d, Inr True)
      | r \<Rightarrow> r)"

text \<open>The body of the outer loop; the answer says whether the loop goes on.\<close>

definition process_once ::
  "('s, 'w) disp_env \<Rightarrow> ('s, 'w) EventDispatcher \<Rightarrow> (('s, 'w) EventDispatcher \<times> bool result) option" where
  "process_once env d =
     (case wait_job env 200 d of
        None \<Rightarrow> None
      | Some (d, Inl e) \<Rightarrow> Some (d, Inl e)
      | Some (d, Inr None) \<Rightarrow> Some (d, Inr True)
      | Some (d, Inr (Some j)) \<Rightarrow>
          (case read_clock env d of (d, now) \<Rightarrow>
             case fill_batch env (now + disp_batch_timeout d * 1000000) [ev j] [(source_id j, commit_lsn (ev j))] d of
               None \<Rightarrow> None
             | Some (d, Inl e) \<Rightarrow> Some (d, Inl e)
             | Some (d, Inr (evs, m)) \<Rightarrow> deliver env evs (job_sinks j) m d))"

text \<open>The loop of \<^verbatim>\<open>drain_remaining\<close>; the posting thread waits in the destructor meanwhile.\<close>

definition flush_batch ::
  "('s, 'w) disp_env \<Rightarrow> ChangeEvent list \<Rightarrow> 's SinkHandle list \<Rightarrow> (nat \<times> u64) list \<Rightarrow> ('s, 'w) EventDispatcher \<Rightarrow>
     (('s, 'w) EventDispatcher \<times> bool result) option" where
  "flush_batch env evs hs m d = (if evs = [] then Some (d, Inr True) else deliver env evs hs m d)"

definition drain_step ::
  "('s, 'w) disp_env \<Rightarrow> ChangeEvent list \<times> 's SinkHandle list \<times> (nat \<times> u64) list \<times> ('s, 'w) EventDispatcher \<Rightarrow>
     ((('s, 'w) EventDispatcher \<times> bool result)
      + (ChangeEvent list \<times> 's SinkHandle list \<times> (nat \<times> u64) list \<times> ('s, 'w) EventDispatcher)) option" where
  "drain_step env = (\<lambda>(evs, hs, m, d).
     (case bq_try_dequeue (disp_queue d) of
        (q, Inl e) \<Rightarrow> Some (Inl (d\<lparr>disp_queue := q\<rparr>, Inl e))
      | (q, Inr None) \<Rightarrow> map_option Inl (flush_batch env evs hs m (d\<lparr>disp_queue := q\<rparr>))
      | (q, Inr (Some j)) \<Rightarrow>
          let d = d\<lparr>disp_queue := q\<rparr>;
              hs = (if hs = [] then job_sinks j else hs);
              m = note_lsn (source_id j) (commit_lsn (ev j)) m;
              evs = evs @ [ev j]
          in if length evs \<ge> disp_max_batch_size d then
               (case flush_batch env evs hs m d of
                  None \<Rightarrow> None
                | Some (d, Inr True) \<Rightarrow> Some (Inr ([], hs, [], d))
                | Some (d, r) \<Rightarrow> Some (Inl (d, r)))
             else Some (Inr (evs, hs, m, d))))"

definition drain_remaining :: "('s, 'w) disp_env \<Rightarrow> ('s, 'w) EventDispatcher \<Rightarrow> (('s, 'w) EventDispatcher \<times> bool result) option" where
  "drain_remaining env d = loop (drain_step env) ([], [], [], d)"

definition after_loop :: "('s, 'w) disp_env \<Rightarrow> ('s, 'w) EventDispatcher \<Rightarrow> (('s, 'w) EventDispatcher \<times> bool result) option" where
  "after_loop env d = (if \<not> fatal_triggered d then drain_remaining env d else Some (d, Inr False))"

definition process_step ::
  "('s, 'w) disp_env \<Rightarrow> ('s, 'w) EventDispatcher \<Rightarrow>
     ((('s, 'w) EventDispatcher \<times> bool result) + ('s, 'w) EventDispatcher) option" where
  "process_step env d =
     (case running env (disp_world d) of (w, go) \<Rightarrow>
        let d = d\<lparr>disp_world := w\<rparr> in
        if \<not> go then map_option Inl (after_loop env d)
        else
          (case process_once env d of
             None \<Rightarrow> None
           | Some (d, Inl e) \<Rightarrow> Some (Inl (d, Inl e))
           | Some (d, Inr True) \<Rightarrow> Some (Inr d)
           | Some (d, Inr False) \<Rightarrow> map_option Inl (after_loop env d)))"

definition process_jobs ::
  "('s, 'w) disp_env \<Rightarrow> ('s, 'w) EventDispatcher \<Rightarrow> (('s, 'w) EventDispatcher \<times> bool result) option" where
  "process_jobs env d = loop (process_step env) d"

section \<open>What a dispatch leaves in the history\<close>

definition same_setup :: "('s, 'w) EventDispatcher \<Rightarrow> ('s, 'w) EventDispatcher \<Rightarrow> bool" where
  "same_setup d d' \<longleftrightarrow> disp_queue d' = disp_queue d \<and> disp_max_batch_size d' = disp_max_batch_size d"

lemma same_setup_refl [simp]: "same_setup d d"
  by (simp add: same_setup_def)

lemma same_setup_trans: "same_setup a b \<Longrightarrow> same_setup b c \<Longrightarrow> same_setup a c"
  by (simp add: same_setup_def)

lemma read_clock_setup:
  "read_clock env d = (d', t) \<Longrightarrow> same_setup d d' \<and> disp_log d' = disp_log d \<and> fatal_triggered d' = fatal_triggered d
     \<and> required_retry_ceiling d' = required_retry_ceiling d"
  by (auto simp: read_clock_def same_setup_def split: prod.splits)

lemma call_sink_setup:
  "call_sink env h evs d = (d', r) \<Longrightarrow> same_setup d d' \<and> disp_log d' = disp_log d @ [Called h evs r]
     \<and> fatal_triggered d' = fatal_triggered d \<and> required_retry_ceiling d' = required_retry_ceiling d"
  by (auto simp: call_sink_def same_setup_def log_action_def split: prod.splits)

text \<open>The calls of one sink; when a required sink is done, its last call went through.\<close>

definition calls_of :: "'s SinkHandle \<Rightarrow> ChangeEvent list \<Rightarrow> bool result \<Rightarrow> 's action list \<Rightarrow> bool" where
  "calls_of h evs r calls \<longleftrightarrow> (\<forall>a \<in> set calls. \<exists>f. a = Called h evs f)
     \<and> (r = Inr True \<longrightarrow> required h \<longrightarrow> Called h evs None \<in> set calls)"

lemma calls_of_Cons: "calls_of h evs r calls \<Longrightarrow> calls_of h evs r (Called h evs f # calls)"
  by (auto simp: calls_of_def)

definition retried :: "'s SinkHandle \<Rightarrow> ChangeEvent list \<Rightarrow> ('s, 'w) EventDispatcher \<Rightarrow> ('s, 'w) EventDispatcher \<times> bool result \<Rightarrow> bool" where
  "retried h evs d x \<longleftrightarrow> same_setup d (fst x) \<and> fatal_triggered (fst x) = fatal_triggered d
     \<and> (\<exists>calls. disp_log (fst x) = disp_log d @ calls \<and> calls_of h evs (snd x) calls)"

lemma retry_step_retried:
  "retry_step env h evs start (b, d) = Inl x \<Longrightarrow> retried h evs d x"
  "retry_step env h evs start (b, d) = Inr (b', d') \<Longrightarrow> same_setup d d' \<and> fatal_triggered d' = fatal_triggered d
     \<and> (\<exists>f. disp_log d' = disp_log d @ [Called h evs f])"
proof -
  obtain d1 f where c: "call_sink env h evs d = (d1, f)" by (cases "call_sink env h evs d")
  obtain d2 now where t: "read_clock env d1 = (d2, now)" by (cases "read_clock env d1")
  note s = call_sink_setup [OF c] read_clock_setup [OF t]
  show "retry_step env h evs start (b, d) = Inl x \<Longrightarrow> retried h evs d x"
    using s c t by (auto simp: retry_step_def Let_def retried_def calls_of_def same_setup_def
        split: option.splits failure.splits if_splits)
  show "retry_step env h evs start (b, d) = Inr (b', d') \<Longrightarrow> same_setup d d' \<and> fatal_triggered d' = fatal_triggered d
     \<and> (\<exists>f. disp_log d' = disp_log d @ [Called h evs f])"
    using s c t by (auto simp: retry_step_def Let_def same_setup_def split: option.splits failure.splits if_splits)
qed

lemma dispatch_with_retry_retried: "dispatch_with_retry env h evs d = Some x \<Longrightarrow> retried h evs d x"
proof -
  assume a: "dispatch_with_retry env h evs d = Some x"
  obtain d1 t where t: "read_clock env d = (d1, t)" by (cases "read_clock env d")
  let ?I = "\<lambda>(b, d'). same_setup d d' \<and> fatal_triggered d' = fatal_triggered d
     \<and> (\<exists>calls. disp_log d' = disp_log d @ calls \<and> (\<forall>a \<in> set calls. \<exists>f. a = Called h evs f))"
  have "loop (\<lambda>s. Some (retry_step env h evs t s)) (required_retry_initial_backoff d1, d1) = Some x"
    using a t by (simp add: dispatch_with_retry_def)
  then show ?thesis
  proof (rule loop_inv [where I = ?I])
    show "?I (required_retry_initial_backoff d1, d1)" using read_clock_setup [OF t] by simp
  next
    fix s x assume I: "?I s" and "Some (retry_step env h evs t s) = Some (Inl x)"
    moreover obtain b d1 where s: "s = (b, d1)" by (cases s)
    ultimately have r: "retried h evs d1 x" using retry_step_retried(1) by blast
    then obtain c1 c2 where "disp_log d1 = disp_log d @ c1" "\<forall>a \<in> set c1. \<exists>f. a = Called h evs f"
      "disp_log (fst x) = disp_log d1 @ c2" "calls_of h evs (snd x) c2" using I s by (auto simp: retried_def)
    then show "retried h evs d x" using I s r unfolding retried_def
      by (auto simp: same_setup_def calls_of_def intro!: exI [of _ "c1 @ c2"])
  next
    fix s s' assume I: "?I s" and s: "Some (retry_step env h evs t s) = Some (Inr s')"
    obtain b d1 b' d1' where b: "s = (b, d1)" "s' = (b', d1')" by (cases s, cases s')
    then show "?I s'" using retry_step_retried(2) [of env h evs t b d1 b' d1'] s I
      by (auto simp: same_setup_def)
  qed
qed

text \<open>The calls of a whole dispatch, and the report of a required sink that gave up.\<close>

definition dispatched ::
  "ChangeEvent list \<Rightarrow> 's SinkHandle list \<Rightarrow> bool result \<Rightarrow> 's action list \<Rightarrow> 's action list \<Rightarrow> bool" where
  "dispatched evs hs r calls fin \<longleftrightarrow>
     (\<forall>a \<in> set calls. \<exists>h \<in> set hs. \<exists>f. a = Called h evs f)
   \<and> (if r = Inr True then fin = [] \<and> (\<forall>h \<in> set hs. required h \<longrightarrow> Called h evs None \<in> set calls)
      else fin = [] \<or> fin = [Fatal])"

lemma dispatch_dispatched:
  assumes "dispatch env evs hs d = Some (d', r)"
  shows "same_setup d d' \<and> (\<exists>calls fin. disp_log d' = disp_log d @ calls @ fin \<and> dispatched evs hs r calls fin
     \<and> fatal_triggered d' = (fatal_triggered d \<or> fin = [Fatal]) \<and> (fatal_triggered d \<longrightarrow> fin = []))"
  using assms
proof (induction hs arbitrary: d)
  case Nil
  then show ?case by (auto simp: dispatched_def)
next
  case (Cons h hs)
  obtain d1 r1 where 1: "dispatch_with_retry env h evs d = Some (d1, r1)"
    using Cons.prems by (auto split: option.splits)
  from dispatch_with_retry_retried [OF this] obtain calls where
    R: "same_setup d d1" "fatal_triggered d1 = fatal_triggered d" "disp_log d1 = disp_log d @ calls" "calls_of h evs r1 calls"
    by (auto simp: retried_def)
  consider (crash) e where "r1 = Inl e" | (ok) "r1 = Inr True" | (stalled) "r1 = Inr False" by (cases r1) auto
  then show ?case
  proof cases
    case crash
    then have "d' = d1" "r = r1" using Cons.prems 1 by simp_all
    then show ?thesis using R crash by (intro conjI exI [of _ calls] exI [of _ "[]"]) (auto simp: dispatched_def calls_of_def)
  next
    case stalled
    then have "d' = raise_fatal env d1" "r = Inr False" using Cons.prems 1 by simp_all
    moreover obtain fin where "disp_log (raise_fatal env d1) = disp_log d1 @ fin" "same_setup d1 (raise_fatal env d1)"
      "fin = [] \<or> fin = [Fatal]" "fatal_triggered (raise_fatal env d1) = (fatal_triggered d1 \<or> fin = [Fatal])"
      "fatal_triggered d1 \<longrightarrow> fin = []"
      by (cases "on_fatal env"; cases "fatal_triggered d1")
         (auto simp: raise_fatal_def log_action_def same_setup_def)
    ultimately show ?thesis using R
      by (intro conjI exI [of _ calls] exI [of _ fin]) (auto simp: dispatched_def calls_of_def same_setup_def)
  next
    case ok
    then have "dispatch env evs hs d1 = Some (d', r)" using Cons.prems 1 by simp
    from Cons.IH [OF this] obtain calls' fin where I: "same_setup d1 d'" "disp_log d' = disp_log d1 @ calls' @ fin"
      "dispatched evs hs r calls' fin" "fatal_triggered d' = (fatal_triggered d1 \<or> fin = [Fatal])" "fatal_triggered d1 \<longrightarrow> fin = []"
      by auto
    have "dispatched evs (h # hs) r (calls @ calls') fin"
      using I(3) R(4) ok by (auto simp: dispatched_def calls_of_def)
    then show ?thesis using R I same_setup_trans [OF R(1) I(1)]
      by (intro conjI exI [of _ "calls @ calls'"] exI [of _ fin]) auto
  qed
qed

section \<open>The history of a run\<close>

text \<open>The largest position of each source in a list of jobs.\<close>

definition positions :: "'s EventJob list \<Rightarrow> (nat \<times> u64) list" where
  "positions js = fold (\<lambda>j. note_lsn (source_id j) (commit_lsn (ev j))) js []"

definition confirmations :: "('s, 'w) disp_env \<Rightarrow> (nat \<times> u64) list \<Rightarrow> 's action list" where
  "confirmations env m = (if on_confirmed env = None then [] else map (\<lambda>(s, l). Confirmed s l) (map_order env m))"

text \<open>
  A history and the jobs that were posted and not yet taken. Jobs are posted at any time; jobs
  from the head of the pending ones make up the next batch, which is no longer than the limit, is
  handed to the sinks of a job, and is confirmed after all of them took it.
\<close>

inductive history :: "('s, 'w) disp_env \<Rightarrow> nat \<Rightarrow> 's action list \<Rightarrow> 's EventJob list \<Rightarrow> bool"
  for env :: "('s, 'w) disp_env" and limit :: nat where
  start: "history env limit [] []"
| post: "history env limit l q \<Longrightarrow> history env limit (l @ map Posted ps) (q @ ps)"
| batch: "history env limit l (js @ q) \<Longrightarrow> js \<noteq> [] \<Longrightarrow> length js \<le> max 1 limit
    \<Longrightarrow> Posted j \<in> set l \<Longrightarrow> dispatched (map ev js) (job_sinks j) (Inr True) calls []
    \<Longrightarrow> history env limit (l @ Cut (map ev js) (job_sinks j) (positions js) # calls @ confirmations env (positions js)) q"

definition posted :: "'s action list \<Rightarrow> 's EventJob list" where
  "posted l = [j. Posted j \<leftarrow> l]"

definition cut_events :: "'s action list \<Rightarrow> ChangeEvent list" where
  "cut_events l = concat [evs. Cut evs _ _ \<leftarrow> l]"

lemma posted_append [simp]: "posted (a @ b) = posted a @ posted b" "posted [] = []" "posted (map Posted js) = js"
  by (simp_all add: posted_def comp_def concat_map_singleton)

lemma cut_events_append [simp]:
  "cut_events (a @ b) = cut_events a @ cut_events b" "cut_events [] = []" "cut_events (map Posted js) = []"
  "cut_events (Cut evs hs m # l) = evs @ cut_events l"
  by (simp_all add: cut_events_def comp_def)

lemma quiet_calls:
  assumes "dispatched evs hs r calls fin"
  shows "posted (calls @ fin) = []" "cut_events (calls @ fin) = []" "Confirmed s lsn \<notin> set (calls @ fin)"
proof -
  have c: "\<exists>h f. a = Called h evs f \<or> a = Fatal" if "a \<in> set (calls @ fin)" for a
    using assms that by (auto simp: dispatched_def split: if_splits)
  show "posted (calls @ fin) = []" "cut_events (calls @ fin) = []"
    using c by (fastforce simp: posted_def cut_events_def)+
  show "Confirmed s lsn \<notin> set (calls @ fin)" using c by blast
qed

lemma quiet_confirmations: "posted (confirmations env m) = []" "cut_events (confirmations env m) = []"
  by (auto simp: confirmations_def posted_def cut_events_def)

lemma posted_Cut [simp]: "posted (Cut evs hs m # l) = posted l"
  by (simp add: posted_def)

lemma history_jobs: "history env limit l q \<Longrightarrow> \<exists>ts. posted l = ts @ q \<and> map ev ts = cut_events l"
proof (induction rule: history.induct)
  case (post l q ps)
  then show ?case by auto
next
  case (batch l js q j calls)
  then obtain ts where "posted l = (ts @ js) @ q" "map ev ts = cut_events l" by auto
  then show ?case using quiet_calls(1,2) [OF batch(5)] by (intro exI [of _ "ts @ js"]) (simp add: quiet_confirmations)
qed simp

lemma split_confirmations:
  assumes "confirmations env m = cs @ Confirmed s lsn # cs'"
  shows "(s, lsn) \<in> set (map_order env m)"
proof -
  have "Confirmed s lsn \<in> set (confirmations env m)" using assms by simp
  then show ?thesis by (auto simp: confirmations_def split: if_splits)
qed

lemma split_append: "l @ c = a @ x # b \<Longrightarrow> (\<exists>b'. l = a @ x # b') \<or> (\<exists>c'. a = l @ c' \<and> c = c' @ x # b)"
proof (induction l arbitrary: a)
  case (Cons y l)
  then show ?case by (cases a) auto
qed simp

text \<open>Where a confirmation stands in a history.\<close>

lemma history_confirmed:
  assumes "history env limit l q" "l = a @ Confirmed s lsn # b"
  shows "\<exists>a' js j q' calls cs. history env limit a' (js @ q')
     \<and> a = a' @ Cut (map ev js) (job_sinks j) (positions js) # calls @ cs
     \<and> Posted j \<in> set a' \<and> dispatched (map ev js) (job_sinks j) (Inr True) calls []
     \<and> (s, lsn) \<in> set (map_order env (positions js))"
  using assms
proof (induction arbitrary: a b rule: history.induct)
  case (post l q ps)
  have "Confirmed s lsn \<notin> set (map Posted ps)" by auto
  then obtain b' where "l = a @ Confirmed s lsn # b'" using split_append [OF post.prems] by fastforce
  then show ?case using post.IH by blast
next
  case (batch l js q j calls)
  let ?C = "Cut (map ev js) (job_sinks j) (positions js)" let ?cs = "confirmations env (positions js)"
  consider b' where "l = a @ Confirmed s lsn # b'" | c where "a = l @ c" "c @ Confirmed s lsn # b = ?C # calls @ ?cs"
    using split_append [OF batch.prems] by metis
  then show ?case
  proof cases
    case 1
    then show ?thesis using batch.IH by blast
  next
    case 2
    then obtain c' where c': "c = ?C # c'" "c' @ Confirmed s lsn # b = calls @ ?cs" by (cases c) auto
    have "Confirmed s lsn \<notin> set calls" using quiet_calls(3) [OF batch(5)] by simp
    then obtain cs where "c' = calls @ cs" "?cs = cs @ Confirmed s lsn # b"
      using split_append [OF c'(2) [symmetric]] by fastforce
    then show ?thesis using batch 2(1) c'(1) split_confirmations by blast
  qed
qed simp

section \<open>The worker follows its history\<close>

text \<open>The worker holds the jobs \<open>js\<close> that it has taken from the queue and not yet dispatched.\<close>

definition holds_jobs :: "('s, 'w) disp_env \<Rightarrow> 's EventJob list \<Rightarrow> ('s, 'w) EventDispatcher \<Rightarrow> bool" where
  "holds_jobs env js d \<longleftrightarrow> bq_inv (disp_queue d) \<and> \<not> fatal_triggered d
     \<and> history env (disp_max_batch_size d) (disp_log d) (js @ bq_items (disp_queue d))"

text \<open>The worker has stopped in the middle of a batch, which it did not confirm.\<close>

definition stopped :: "('s, 'w) disp_env \<Rightarrow> ('s, 'w) EventDispatcher \<Rightarrow> bool result \<Rightarrow> bool" where
  "stopped env d r \<longleftrightarrow> r \<noteq> Inr True \<and> (\<exists>l js (j :: 's EventJob) calls fin.
     disp_log d = l @ Cut (map ev js) (job_sinks j) (positions js) # calls @ fin
   \<and> history env (disp_max_batch_size d) l (js @ bq_items (disp_queue d))
   \<and> dispatched (map ev js) (job_sinks j) r calls fin \<and> fatal_triggered d = (fin = [Fatal]))"

lemma positions_snoc: "positions (js @ [j]) = note_lsn (source_id j) (commit_lsn (ev j)) (positions js)"
  by (simp add: positions_def)

lemma positions_one: "positions [j] = [(source_id j, commit_lsn (ev j))]"
  by (simp add: positions_def max_def)

lemma held_posted: "holds_jobs env js d \<Longrightarrow> j \<in> set js \<Longrightarrow> Posted j \<in> set (disp_log d)"
proof -
  assume "holds_jobs env js d" "j \<in> set js"
  then have "j \<in> set (posted (disp_log d))" using history_jobs [of env] by (fastforce simp: holds_jobs_def)
  then show ?thesis by (auto simp: posted_def split: action.splits)
qed

lemma wait_job_holds:
  assumes h: "holds_jobs env js d" and "\<forall>i. malloc_ok env i" "0 \<le> ms"
  obtains (none) d' where "wait_job env ms d = Some (d', Inr None)" "holds_jobs env js d'"
      "disp_max_batch_size d' = disp_max_batch_size d"
    | (some) d' j where "wait_job env ms d = Some (d', Inr (Some j))" "holds_jobs env (js @ [j]) d'"
      "disp_max_batch_size d' = disp_max_batch_size d"
proof -
  have q: "bq_inv (disp_queue d)" using h by (simp add: holds_jobs_def)
  obtain w ps q' r where w: "wait_dequeue_timed (malloc_ok env) (posting env) (ms * 1000) (disp_world d) (disp_queue d) = Some (w, ps, q', r)"
    "bq_inv q'" "case bq_items (disp_queue d) @ ps of
      [] \<Rightarrow> r = Inr None \<and> bq_items q' = [] | x # xs \<Rightarrow> r = Inr (Some x) \<and> bq_items q' = xs"
    using wait_dequeue_timed_items [OF q _ assms(2), where timeout = "ms * 1000" and arrive = "posting env" and w = "disp_world d"]
      assms(3) by auto
  define d' where "d' = d\<lparr>disp_queue := q', disp_world := w, disp_log := disp_log d @ map Posted ps\<rparr>"
  have run: "wait_job env ms d = Some (d', r)" using w(1) by (simp add: wait_job_def d'_def)
  have "history env (disp_max_batch_size d) (disp_log d @ map Posted ps) ((js @ bq_items (disp_queue d)) @ ps)"
    using h by (intro history.post) (simp add: holds_jobs_def)
  then have hist: "history env (disp_max_batch_size d) (disp_log d') (js @ (bq_items (disp_queue d) @ ps))"
    by (simp add: d'_def)
  show thesis
  proof (cases "bq_items (disp_queue d) @ ps")
    case Nil
    then have "r = Inr None" "holds_jobs env js d'" using w(2,3) hist h by (simp_all add: holds_jobs_def d'_def)
    then show thesis using none run by (simp add: d'_def)
  next
    case (Cons x xs)
    then have "r = Inr (Some x)" "holds_jobs env (js @ [x]) d'" using w(2,3) hist h by (simp_all add: holds_jobs_def d'_def)
    then show thesis using some run by (simp add: d'_def)
  qed
qed

lemma read_clock_holds: "holds_jobs env js d \<Longrightarrow> read_clock env d = (d', t) \<Longrightarrow> holds_jobs env js d' \<and> disp_max_batch_size d' = disp_max_batch_size d"
  using read_clock_setup [of env d d' t] by (auto simp: holds_jobs_def same_setup_def)

text \<open>Filling a batch always ends, with a batch of consecutive jobs within the limit.\<close>

lemma fill_batch_holds:
  assumes "holds_jobs env [j] d" "\<forall>i. malloc_ok env i"
  shows "\<exists>d' js. fill_batch env deadline [ev j] [(source_id j, commit_lsn (ev j))] d = Some (d', Inr (map ev (j # js), positions (j # js)))
     \<and> holds_jobs env (j # js) d' \<and> length (j # js) \<le> max 1 (disp_max_batch_size d')"
proof -
  let ?I = "\<lambda>(evs, m, d'). \<exists>js. evs = map ev (j # js) \<and> m = positions (j # js) \<and> holds_jobs env (j # js) d'
     \<and> length (j # js) \<le> max 1 (disp_max_batch_size d') \<and> disp_max_batch_size d' = disp_max_batch_size d"
  let ?Q = "\<lambda>x. \<exists>js. x = (fst x, Inr (map ev (j # js), positions (j # js))) \<and> holds_jobs env (j # js) (fst x)
     \<and> length (j # js) \<le> max 1 (disp_max_batch_size (fst x))"
  have "\<exists>x. loop (fill_step env deadline) ([ev j], [(source_id j, commit_lsn (ev j))], d) = Some x \<and> ?Q x"
  proof (rule loop_total [where I = ?I and m = "\<lambda>(evs, m, d'). disp_max_batch_size d - length evs"])
    show "?I ([ev j], [(source_id j, commit_lsn (ev j))], d)"
      using assms(1) by (auto simp: positions_one intro!: exI [of _ "[]"])
  next
    fix s assume "?I s"
    then obtain d1 js where s: "s = (map ev (j # js), positions (j # js), d1)" and h: "holds_jobs env (j # js) d1"
      and len: "length (j # js) \<le> max 1 (disp_max_batch_size d1)" and mx: "disp_max_batch_size d1 = disp_max_batch_size d"
      by auto
    show "(\<exists>x. fill_step env deadline s = Some (Inl x) \<and> ?Q x) \<or> (\<exists>s'. fill_step env deadline s = Some (Inr s') \<and> ?I s'
        \<and> (case s' of (evs, m, d') \<Rightarrow> disp_max_batch_size d - length evs) < (case s of (evs, m, d') \<Rightarrow> disp_max_batch_size d - length evs))"
    proof (cases "length (j # js) < disp_max_batch_size d1")
      case False
      then show ?thesis using h len by (intro disjI1) (auto simp: s fill_step_def intro!: exI [of _ js])
    next
      case True
      obtain d2 now where c: "read_clock env d1 = (d2, now)" by (cases "read_clock env d1")
      have h2: "holds_jobs env (j # js) d2" "disp_max_batch_size d2 = disp_max_batch_size d1"
        using read_clock_holds [OF h c] by simp_all
      show ?thesis
      proof (cases "now \<ge> deadline")
        case late: True
        then show ?thesis using h2 len True c by (intro disjI1) (auto simp: s fill_step_def intro!: exI [of _ js])
      next
        case False
        then have ms: "0 \<le> (deadline - now) div 1000000" by simp
        show ?thesis using h2(1) assms(2) ms
        proof (cases rule: wait_job_holds)
          case (none d')
          then show ?thesis using True False len h2(2) c
            by (intro disjI1) (auto simp: s fill_step_def intro!: exI [of _ js])
        next
          case (some d' j')
          have "fill_step env deadline s = Some (Inr (map ev (j # js @ [j']), positions (j # js @ [j']), d'))"
            using True False some c positions_snoc [of "j # js" j'] by (simp add: s fill_step_def)
          moreover have "?I (map ev (j # js @ [j']), positions (j # js @ [j']), d')"
            using some h2(2) True mx by (auto intro!: exI [of _ "js @ [j']"])
          moreover have "disp_max_batch_size d - length (map ev (j # js @ [j'])) < disp_max_batch_size d - length (map ev (j # js))"
            using True mx by simp
          ultimately show ?thesis by (intro disjI2) (simp add: s)
        qed
      qed
    qed
  qed
  then show ?thesis unfolding fill_batch_def by (metis)
qed

lemma confirm_each_log:
  "disp_log (confirm_each f m d) = disp_log d @ map (\<lambda>(s, l). Confirmed s l) m"
  "same_setup d (confirm_each f m d)" "fatal_triggered (confirm_each f m d) = fatal_triggered d"
  by (induction f m d rule: confirm_each.induct) (auto simp: log_action_def same_setup_def)

lemma notify_confirmed_log:
  "disp_log (notify_confirmed env m d) = disp_log d @ confirmations env m"
  "same_setup d (notify_confirmed env m d)" "fatal_triggered (notify_confirmed env m d) = fatal_triggered d"
  by (auto simp: notify_confirmed_def confirmations_def confirm_each_log split: option.splits)

lemma deliver_outcome:
  assumes h: "holds_jobs env js d" and "js \<noteq> []" "length js \<le> max 1 (disp_max_batch_size d)"
    and j: "Posted j \<in> set (disp_log d)"
    and r: "deliver env (map ev js) (job_sinks j) (positions js) d = Some (d', r)"
  shows "disp_max_batch_size d' = disp_max_batch_size d \<and> disp_queue d' = disp_queue d
     \<and> (if r = Inr True then holds_jobs env [] d' else stopped env d' r)"
proof -
  let ?C = "Cut (map ev js) (job_sinks j) (positions js)"
  obtain d1 r1 where 1: "dispatch env (map ev js) (job_sinks j) (log_action ?C d) = Some (d1, r1)"
    using r by (auto simp: deliver_def split: option.splits)
  from dispatch_dispatched [OF this] obtain calls fin where
    D: "same_setup (log_action ?C d) d1" "disp_log d1 = disp_log d @ ?C # calls @ fin"
    "dispatched (map ev js) (job_sinks j) r1 calls fin" "fatal_triggered d1 = (fatal_triggered d \<or> fin = [Fatal])"
    by (auto simp: log_action_def)
  show ?thesis
  proof (cases "r1 = Inr True")
    case True
    then have d': "d' = notify_confirmed env (positions js) d1" "r = Inr True" using r 1 by (simp_all add: deliver_def)
    have fin: "fin = []" using D(3) True by (simp add: dispatched_def)
    have "history env (disp_max_batch_size d)
        (disp_log d @ ?C # calls @ confirmations env (positions js)) (bq_items (disp_queue d))"
      using h assms(2,3) j D(3) True fin by (intro history.batch) (simp_all add: holds_jobs_def)
    then have "history env (disp_max_batch_size d) (disp_log d') (bq_items (disp_queue d))"
      using D(2) fin by (simp add: d' notify_confirmed_log)
    then show ?thesis using d' D h fin notify_confirmed_log(2) [of d1 env "positions js"]
        notify_confirmed_log(3) [of env "positions js" d1]
      by (simp add: holds_jobs_def same_setup_def log_action_def)
  next
    case False
    then have d': "d' = d1" "r = r1" using r 1 by (auto simp: deliver_def split: sum.splits if_splits bool.splits)
    have "stopped env d' r" unfolding stopped_def
      by (intro conjI exI [of _ "disp_log d"] exI [of _ js] exI [of _ j] exI [of _ calls] exI [of _ fin])
         (use False D h d' in \<open>auto simp: holds_jobs_def same_setup_def log_action_def\<close>)
    then show ?thesis using False d' D by (simp add: same_setup_def log_action_def)
  qed
qed

lemma process_once_outcome:
  assumes h: "holds_jobs env [] d" and m: "\<forall>i. malloc_ok env i" and r: "process_once env d = Some (d', r)"
  shows "if r = Inr True then holds_jobs env [] d' else stopped env d' r"
proof -
  have "(0::int) \<le> 200" by simp
  from h m this show ?thesis
  proof (cases rule: wait_job_holds)
    case (none d1)
    then show ?thesis using r by (simp add: process_once_def)
  next
    case (some d1 j)
    obtain d2 now where c: "read_clock env d1 = (d2, now)" by (cases "read_clock env d1")
    have h2: "holds_jobs env [j] d2" using read_clock_holds [OF _ c] some(2) by simp
    obtain d3 js where f: "fill_batch env (now + disp_batch_timeout d2 * 1000000) [ev j] [(source_id j, commit_lsn (ev j))] d2
        = Some (d3, Inr (map ev (j # js), positions (j # js)))" "holds_jobs env (j # js) d3"
        "length (j # js) \<le> max 1 (disp_max_batch_size d3)"
      using fill_batch_holds [OF h2 m] by blast
    have "deliver env (map ev (j # js)) (job_sinks j) (positions (j # js)) d3 = Some (d', r)"
      using r some(1) c f(1) by (simp add: process_once_def)
    from deliver_outcome [OF f(2) _ f(3) _ this] show ?thesis using held_posted [OF f(2), of j] by simp
  qed
qed

text \<open>The state of the drain loop.\<close>

definition draining ::
  "('s, 'w) disp_env \<Rightarrow> ChangeEvent list \<times> 's SinkHandle list \<times> (nat \<times> u64) list \<times> ('s, 'w) EventDispatcher \<Rightarrow> bool" where
  "draining env = (\<lambda>(evs, hs, m, d). \<exists>js. evs = map ev js \<and> m = positions js \<and> holds_jobs env js d
     \<and> length js < max 1 (disp_max_batch_size d)
     \<and> (hs = [] \<or> (\<exists>j :: 's EventJob. Posted j \<in> set (disp_log d) \<and> hs = job_sinks j))
     \<and> (js \<noteq> [] \<longrightarrow> (\<exists>j :: 's EventJob. Posted j \<in> set (disp_log d) \<and> hs = job_sinks j)))"

definition drained :: "('s, 'w) disp_env \<Rightarrow> ('s, 'w) EventDispatcher \<times> bool result \<Rightarrow> bool" where
  "drained env x \<longleftrightarrow> (if snd x = Inr True then holds_jobs env [] (fst x) \<and> bq_items (disp_queue (fst x)) = [] else stopped env (fst x) (snd x))"

lemma dequeue_holds:
  assumes h: "holds_jobs env js d" and q: "bq_try_dequeue (disp_queue d) = (q, r)"
  shows "(r = Inr None \<and> bq_items q = [] \<and> holds_jobs env js (d\<lparr>disp_queue := q\<rparr>))
     \<or> (\<exists>j. r = Inr (Some j) \<and> holds_jobs env (js @ [j]) (d\<lparr>disp_queue := q\<rparr>) \<and> length (bq_items (disp_queue d)) = Suc (length (bq_items q)))"
proof (cases "bq_items (disp_queue d)")
  case Nil
  then show ?thesis using h bq_try_dequeue_items [OF _ q] by (auto simp: holds_jobs_def)
next
  case (Cons x xs)
  then show ?thesis using h bq_try_dequeue_items [OF _ q] by (auto simp: holds_jobs_def)
qed

lemma positions_Nil [simp]: "positions [] = []"
  by (simp add: positions_def)

lemma log_grows: "deliver env evs hs m d = Some (d', r) \<Longrightarrow> set (disp_log d) \<subseteq> set (disp_log d')"
proof -
  assume a: "deliver env evs hs m d = Some (d', r)"
  obtain d1 r1 where 1: "dispatch env evs hs (log_action (Cut evs hs m) d) = Some (d1, r1)"
    using a by (auto simp: deliver_def split: option.splits)
  then have "set (disp_log d) \<subseteq> set (disp_log d1)" using dispatch_dispatched [OF 1] by (auto simp: log_action_def)
  moreover have "d' = d1 \<or> d' = notify_confirmed env m d1"
    using a 1 by (auto simp: deliver_def split: sum.splits bool.splits)
  ultimately show ?thesis using notify_confirmed_log(1) [of env m d1] by auto
qed

lemma flush_outcome:
  assumes h: "holds_jobs env js d" and len: "length js \<le> max 1 (disp_max_batch_size d)"
    and hs: "js \<noteq> [] \<Longrightarrow> \<exists>j. Posted j \<in> set (disp_log d) \<and> hs = job_sinks j"
    and r: "flush_batch env (map ev js) hs (positions js) d = Some (d', r)"
  shows "disp_max_batch_size d' = disp_max_batch_size d \<and> disp_queue d' = disp_queue d
     \<and> set (disp_log d) \<subseteq> set (disp_log d') \<and> (if r = Inr True then holds_jobs env [] d' else stopped env d' r)"
proof (cases "js = []")
  case True
  then show ?thesis using r h by (simp add: flush_batch_def)
next
  case False
  then obtain j where j: "Posted j \<in> set (disp_log d)" "hs = job_sinks j" using hs by blast
  have "deliver env (map ev js) (job_sinks j) (positions js) d = Some (d', r)"
    using r False j by (simp add: flush_batch_def)
  then show ?thesis using deliver_outcome [OF h False len j(1)] log_grows by blast
qed

text \<open>One step of the drain loop keeps its state in order and takes a job from the queue.\<close>

lemma drain_step_outcome:
  assumes I: "draining env s"
  shows "drain_step env s = Some (Inl x) \<Longrightarrow> drained env x"
    and "drain_step env s = Some (Inr s') \<Longrightarrow> draining env s'
      \<and> length (bq_items (disp_queue (snd (snd (snd s'))))) < length (bq_items (disp_queue (snd (snd (snd s)))))"
proof -
  obtain js hs d where s: "s = (map ev js, hs, positions js, d)" and h: "holds_jobs env js d"
    and len: "length js < max 1 (disp_max_batch_size d)"
    and hs: "hs = [] \<or> (\<exists>j. Posted j \<in> set (disp_log d) \<and> hs = job_sinks j)"
      "js \<noteq> [] \<longrightarrow> (\<exists>j. Posted j \<in> set (disp_log d) \<and> hs = job_sinks j)"
    using I by (auto simp: draining_def)
  obtain q r where q: "bq_try_dequeue (disp_queue d) = (q, r)" by (cases "bq_try_dequeue (disp_queue d)")
  let ?d = "d\<lparr>disp_queue := q\<rparr>"
  from dequeue_holds [OF h q] have "(drain_step env s = Some (Inl x) \<longrightarrow> drained env x) \<and>
     (drain_step env s = Some (Inr s') \<longrightarrow> draining env s' \<and>
       length (bq_items (disp_queue (snd (snd (snd s'))))) < length (bq_items (disp_queue d)))"
  proof (elim disjE exE conjE)
    assume r: "r = Inr None" "bq_items q = []" "holds_jobs env js ?d"
    show ?thesis
      using flush_outcome [of env js ?d hs "fst x" "snd x"] r len hs(2) q
      by (auto simp: s drain_step_def drained_def)
  next
    fix j assume r: "r = Inr (Some j)" "holds_jobs env (js @ [j]) ?d"
      "length (bq_items (disp_queue d)) = Suc (length (bq_items q))"
    define hs' where "hs' = (if hs = [] then job_sinks j else hs)"
    have "Posted j \<in> set (disp_log ?d)" using held_posted [OF r(2), of j] by simp
    then have hs': "\<exists>j. Posted j \<in> set (disp_log ?d) \<and> hs' = job_sinks j" using hs by (auto simp: hs'_def)
    have step: "drain_step env s = (if length (js @ [j]) \<ge> disp_max_batch_size ?d then
        (case flush_batch env (map ev (js @ [j])) hs' (positions (js @ [j])) ?d of
           None \<Rightarrow> None | Some (d, Inr True) \<Rightarrow> Some (Inr ([], hs', [], d)) | Some (d, r) \<Rightarrow> Some (Inl (d, r)))
       else Some (Inr (map ev (js @ [j]), hs', positions (js @ [j]), ?d)))"
      unfolding hs'_def using q r(1) by (simp add: s drain_step_def Let_def positions_snoc del: if_split)
    have len': "length (js @ [j]) \<le> max 1 (disp_max_batch_size ?d)" using len by simp
    show ?thesis
    proof (cases "length (js @ [j]) \<ge> disp_max_batch_size ?d")
      case False
      then have "draining env (map ev (js @ [j]), hs', positions (js @ [j]), ?d)"
        using r(2) hs' unfolding draining_def by (auto intro!: exI [of _ "js @ [j]"])
      then show ?thesis using step False r(3) by auto
    next
      case True
      show ?thesis
      proof (cases "flush_batch env (map ev (js @ [j])) hs' (positions (js @ [j])) ?d")
        case None
        then show ?thesis using step True by simp
      next
        case (Some y)
        obtain d' r' where y: "y = (d', r')" by (cases y)
        have F: "disp_max_batch_size d' = disp_max_batch_size d" "disp_queue d' = q"
          "set (disp_log d) \<subseteq> set (disp_log d')" "if r' = Inr True then holds_jobs env [] d' else stopped env d' r'"
          using flush_outcome [OF r(2) len' hs' Some [unfolded y]] by simp_all
        show ?thesis
        proof (cases "r' = Inr True")
          case ok: True
          have "draining env ([], hs', [], d')" using F hs' ok
            unfolding draining_def by (auto intro!: exI [of _ "[]"])
          then show ?thesis using step True Some y ok r(3) F(2) by auto
        next
          case False
          then have "drain_step env s = Some (Inl (d', r'))"
            using step True Some y by (auto split: sum.splits bool.splits)
          then show ?thesis using F False by (auto simp: drained_def)
        qed
      qed
    qed
  qed
  then show "drain_step env s = Some (Inl x) \<Longrightarrow> drained env x"
    "drain_step env s = Some (Inr s') \<Longrightarrow> draining env s'
      \<and> length (bq_items (disp_queue (snd (snd (snd s'))))) < length (bq_items (disp_queue (snd (snd (snd s)))))"
    by (simp_all add: s)
qed

lemma draining_start: "holds_jobs env [] d \<Longrightarrow> draining env ([], [], [], d)"
  unfolding draining_def by (auto intro!: exI [of _ "[]"])

lemma drain_remaining_outcome:
  assumes "holds_jobs env [] d" "drain_remaining env d = Some x"
  shows "drained env x"
  using assms(2) unfolding drain_remaining_def
  by (rule loop_inv [where I = "draining env"]) (use assms(1) draining_start drain_step_outcome in blast)+

lemma dispatch_fatal:
  "dispatch env evs hs d = Some (d', Inr False) \<Longrightarrow> on_fatal env = Some f \<Longrightarrow> fatal_triggered d'"
  by (induction hs arbitrary: d)
     (auto simp: raise_fatal_def log_action_def split: option.splits sum.splits bool.splits)

lemma deliver_fatal:
  "deliver env evs hs m d = Some (d', Inr False) \<Longrightarrow> on_fatal env = Some f \<Longrightarrow> fatal_triggered d'"
  by (auto simp: deliver_def split: option.splits sum.splits bool.splits dest: dispatch_fatal)

lemma process_once_fatal:
  "process_once env d = Some (d', Inr False) \<Longrightarrow> on_fatal env = Some f \<Longrightarrow> fatal_triggered d'"
  by (auto simp: process_once_def split: option.splits sum.splits bool.splits prod.splits dest: deliver_fatal)

text \<open>The states the worker reaches between two rounds of its loop.\<close>

inductive worker :: "('s, 'w) disp_env \<Rightarrow> ('s, 'w) EventDispatcher \<Rightarrow> ('s, 'w) EventDispatcher \<Rightarrow> bool"
  for env :: "('s, 'w) disp_env" and d0 :: "('s, 'w) EventDispatcher" where
  start: "worker env d0 d0"
| round: "worker env d0 d \<Longrightarrow> process_step env d = Some (Inr d') \<Longrightarrow> worker env d0 d'"

lemma process_step_next:
  assumes "holds_jobs env [] d" "\<forall>i. malloc_ok env i" "process_step env d = Some (Inr d')"
  shows "holds_jobs env [] d'"
proof -
  obtain w go where g: "running env (disp_world d) = (w, go)" by (cases "running env (disp_world d)")
  have "process_once env (d\<lparr>disp_world := w\<rparr>) = Some (d', Inr True)"
    using assms(3) g by (auto simp: process_step_def Let_def split: if_splits option.splits sum.splits bool.splits)
  moreover have "holds_jobs env [] (d\<lparr>disp_world := w\<rparr>)" using assms(1) by (simp add: holds_jobs_def)
  ultimately show ?thesis using process_once_outcome [OF _ assms(2)] by fastforce
qed

lemma worker_holds: "worker env d0 d \<Longrightarrow> holds_jobs env [] d0 \<Longrightarrow> \<forall>i. malloc_ok env i \<Longrightarrow> holds_jobs env [] d"
  by (induction rule: worker.induct) (auto intro: process_step_next)

lemma new_dispatcher_holds:
  assumes "new_EventDispatcher malloc sz timeout backoff ceiling w = Inr d"
  shows "holds_jobs env [] d" "disp_max_batch_size d = sz"
proof -
  obtain q where q: "new_blocking_queue malloc 15 = Inr q" "disp_queue d = q" "disp_log d = []" "\<not> fatal_triggered d"
    "disp_max_batch_size d = sz"
    using assms by (auto simp: new_EventDispatcher_def bindE_Inr_iff)
  then show "holds_jobs env [] d" "disp_max_batch_size d = sz"
    using new_blocking_queue_empty [OF q(1)] by (simp_all add: holds_jobs_def history.start)
qed

lemma process_step_done:
  assumes h: "holds_jobs env [] d" and m: "\<forall>i. malloc_ok env i" and f: "on_fatal env \<noteq> None"
    and r: "process_step env d = Some (Inl x)"
  shows "drained env x"
proof -
  obtain w go where g: "running env (disp_world d) = (w, go)" by (cases "running env (disp_world d)")
  let ?d = "d\<lparr>disp_world := w\<rparr>"
  have h': "holds_jobs env [] ?d" using h by (simp add: holds_jobs_def)
  consider (off) "\<not> go" "after_loop env ?d = Some x"
    | (crash) d' e where "process_once env ?d = Some (d', Inl e)" "x = (d', Inl e)"
    | (fatal) d' where "process_once env ?d = Some (d', Inr False)" "after_loop env d' = Some x"
    using r g by (auto simp: process_step_def Let_def split: if_splits option.splits sum.splits bool.splits)
  then show ?thesis
  proof cases
    case off
    then show ?thesis using drain_remaining_outcome [OF h'] h by (simp add: after_loop_def holds_jobs_def)
  next
    case crash
    then show ?thesis using process_once_outcome [OF h' m crash(1)] by (simp add: drained_def)
  next
    case fatal
    then have "x = (d', Inr False)" using process_once_fatal [OF fatal(1)] f by (auto simp: after_loop_def)
    then show ?thesis using process_once_outcome [OF h' m fatal(1)] by (simp add: drained_def)
  qed
qed

lemma process_jobs_drained:
  assumes "holds_jobs env [] d" "\<forall>i. malloc_ok env i" "on_fatal env \<noteq> None" "process_jobs env d = Some x"
  shows "drained env x"
  using assms(4) unfolding process_jobs_def
  by (rule loop_inv [where I = "holds_jobs env []"])
     (use assms(1-3) process_step_done process_step_next in blast)+

section \<open>Progress\<close>

text \<open>Time passes: the clock does not go back, and a call of a sink takes at least one tick of it.\<close>

definition time_passes :: "('s, 'w) disp_env \<Rightarrow> ('w \<Rightarrow> int) \<Rightarrow> bool" where
  "time_passes env clock \<longleftrightarrow> (\<forall>w. snd (steady_now env w) = clock w \<and> clock w \<le> clock (fst (steady_now env w)))
     \<and> (\<forall>ms w. clock w \<le> clock (sleep_ms env ms w)) \<and> (\<forall>s evs w. clock w < clock (fst (call_batch env s evs w)))"

lemma retry_step_time:
  assumes "time_passes env clock" "retry_step env h evs start (b, d) = Inr (b', d')"
  shows "clock (disp_world d) < clock (disp_world d') \<and> required_retry_ceiling d' = required_retry_ceiling d
     \<and> clock (disp_world d) - start < required_retry_ceiling d * 1000000"
proof -
  obtain d1 f where c: "call_sink env h evs d = (d1, f)" by (cases "call_sink env h evs d")
  obtain d2 now where t: "read_clock env d1 = (d2, now)" by (cases "read_clock env d1")
  have 1: "clock (disp_world d) < clock (disp_world d1)"
    using assms(1) c by (auto simp: time_passes_def call_sink_def log_action_def split: prod.splits)
       (metis fst_conv)
  have 2: "now = clock (disp_world d1)" "clock (disp_world d1) \<le> clock (disp_world d2)"
    using assms(1) t by (auto simp: time_passes_def read_clock_def split: prod.splits) (metis fst_conv snd_conv)+
  have c3: "required_retry_ceiling d2 = required_retry_ceiling d"
    using call_sink_setup [OF c] read_clock_setup [OF t] by simp
  obtain e where d': "\<not> now - start \<ge> required_retry_ceiling d2 * 1000000" "d' = d2\<lparr>disp_world := sleep_ms env e (disp_world d2)\<rparr>"
    using assms(2) c t by (auto simp: retry_step_def Let_def split: option.splits failure.splits if_splits)
  have "clock (disp_world d2) \<le> clock (disp_world d')" using assms(1) by (simp add: time_passes_def d')
  then show ?thesis using 1 2 c3 d' by auto
qed

lemma dispatch_with_retry_returns:
  assumes "time_passes env clock"
  shows "\<exists>x. dispatch_with_retry env h evs d = Some x"
proof -
  obtain d1 start where t: "read_clock env d = (d1, start)" by (cases "read_clock env d")
  let ?m = "\<lambda>(b :: int, d). nat (required_retry_ceiling d * 1000000 - (clock (disp_world d) - start))"
  have "\<exists>x. loop (\<lambda>s. Some (retry_step env h evs start s)) (required_retry_initial_backoff d1, d1) = Some x \<and> True"
  proof (rule loop_total [where I = "\<lambda>_. True" and m = ?m])
    fix s :: "int \<times> ('a, 'b) EventDispatcher"
    obtain b d where s: "s = (b, d)" by (cases s)
    show "(\<exists>x. Some (retry_step env h evs start s) = Some (Inl x) \<and> True) \<or>
       (\<exists>s'. Some (retry_step env h evs start s) = Some (Inr s') \<and> True \<and> ?m s' < ?m s)"
    proof (cases "retry_step env h evs start s")
      case (Inr s')
      obtain b' d' where s': "s' = (b', d')" by (cases s')
      have "?m s' < ?m s" using retry_step_time [OF assms Inr [unfolded s s']] by (simp add: s s')
      then show ?thesis using Inr by simp
    qed simp
  qed simp
  then show ?thesis using t by (simp add: dispatch_with_retry_def)
qed

lemma dispatch_returns:
  assumes "time_passes env clock"
  shows "\<exists>x. dispatch env evs hs d = Some x"
proof (induction hs arbitrary: d)
  case (Cons h hs)
  obtain d1 r where "dispatch_with_retry env h evs d = Some (d1, r)"
    using dispatch_with_retry_returns [OF assms, of h evs d] by auto
  then show ?case using Cons.IH [of d1] by (auto split: sum.splits bool.splits)
qed simp

text \<open>Sinks that take every batch.\<close>

definition sinks_accept :: "('s, 'w) disp_env \<Rightarrow> bool" where
  "sinks_accept env \<longleftrightarrow> (\<forall>s evs w. snd (call_batch env s evs w) = None)"

lemma dispatch_with_retry_accepts:
  assumes "sinks_accept env"
  shows "\<exists>d'. dispatch_with_retry env h evs d = Some (d', Inr True)"
proof -
  obtain d1 start where t: "read_clock env d = (d1, start)" by (cases "read_clock env d")
  obtain d2 where "call_sink env h evs d1 = (d2, None)"
    using assms unfolding call_sink_def sinks_accept_def by (metis (mono_tags, lifting) case_prod_beta)
  then have "retry_step env h evs start (required_retry_initial_backoff d1, d1) = Inl (d2, Inr True)"
    by (simp add: retry_step_def)
  then show ?thesis using t by (simp add: dispatch_with_retry_def loop_simps(2))
qed

lemma deliver_accepts:
  assumes "sinks_accept env"
  shows "\<exists>d'. deliver env evs hs m d = Some (d', Inr True)"
proof -
  have "\<exists>d'. dispatch env evs hs d = Some (d', Inr True)" for d
  proof (induction hs arbitrary: d)
    case (Cons h hs)
    obtain d1 where "dispatch_with_retry env h evs d = Some (d1, Inr True)"
      using dispatch_with_retry_accepts [OF assms] by blast
    then show ?case using Cons.IH [of d1] by simp
  qed simp
  from this [of "log_action (Cut evs hs m) d"] show ?thesis by (auto simp: deliver_def)
qed

lemma drain_step_accepts:
  assumes "sinks_accept env"
  shows "\<exists>y. drain_step env s = Some y \<and> (\<forall>x. y = Inl x \<longrightarrow> draining env s \<longrightarrow> snd x = Inr True)"
proof -
  obtain evs hs m d where s: "s = (evs, hs, m, d)" by (cases s)
  obtain q r where q: "bq_try_dequeue (disp_queue d) = (q, r)" by (cases "bq_try_dequeue (disp_queue d)")
  have fl: "\<exists>d'. flush_batch env evs hs m d = Some (d', Inr True)" for evs hs m d
    using deliver_accepts [OF assms] by (auto simp: flush_batch_def)
  show ?thesis
  proof (cases r)
    case (Inl e)
    then have "\<not> draining env s" using dequeue_holds [OF _ q] by (fastforce simp: draining_def s)
    then show ?thesis using q Inl by (simp add: s drain_step_def)
  next
    case (Inr o')
    show ?thesis
    proof (cases o')
      case None
      obtain d' where "flush_batch env evs hs m (d\<lparr>disp_queue := q\<rparr>) = Some (d', Inr True)" using fl by blast
      then show ?thesis using q Inr None by (simp add: s drain_step_def)
    next
      case (Some j)
      let ?hs = "if hs = [] then job_sinks j else hs"
      obtain d' where "flush_batch env (evs @ [ev j]) ?hs (note_lsn (source_id j) (commit_lsn (ev j)) m) (d\<lparr>disp_queue := q\<rparr>)
          = Some (d', Inr True)" using fl by blast
      then show ?thesis using q Inr Some by (simp add: s drain_step_def Let_def del: if_split split: if_split_asm)
    qed
  qed
qed

lemma drain_remaining_accepts:
  assumes "sinks_accept env" "holds_jobs env [] d"
  shows "\<exists>d'. drain_remaining env d = Some (d', Inr True) \<and> holds_jobs env [] d' \<and> bq_items (disp_queue d') = []"
proof -
  have "\<exists>x. loop (drain_step env) ([], [], [], d) = Some x \<and> drained env x \<and> snd x = Inr True"
  proof (rule loop_total [where I = "draining env" and m = "\<lambda>s. length (bq_items (disp_queue (snd (snd (snd s)))))"])
    fix s assume I: "draining env s"
    obtain y where y: "drain_step env s = Some y" "\<forall>x. y = Inl x \<longrightarrow> draining env s \<longrightarrow> snd x = Inr True"
      using drain_step_accepts [OF assms(1)] by blast
    show "(\<exists>x. drain_step env s = Some (Inl x) \<and> drained env x \<and> snd x = Inr True) \<or> (\<exists>s'. drain_step env s = Some (Inr s')
        \<and> draining env s' \<and> length (bq_items (disp_queue (snd (snd (snd s'))))) < length (bq_items (disp_queue (snd (snd (snd s))))))"
      using y I drain_step_outcome [OF I] by (cases y) auto
  qed (rule draining_start [OF assms(2)])
  then show ?thesis unfolding drain_remaining_def drained_def by auto
qed

section \<open>Positions\<close>

lemma note_lsn_map: "map_of (note_lsn s v m) = (map_of m)(s \<mapsto> max (case map_of m s of None \<Rightarrow> 0 | Some l \<Rightarrow> l) v)"
  by (induction s v m rule: note_lsn.induct) (auto simp: fun_eq_iff)

lemma note_lsn_keys: "set (map fst (note_lsn s v m)) = insert s (set (map fst m))"
  "distinct (map fst m) \<Longrightarrow> distinct (map fst (note_lsn s v m))"
  by (induction s v m rule: note_lsn.induct) auto

text \<open>The confirmed position of a source is that of one of its events in the batch, and none is larger.\<close>

definition top_position :: "nat \<Rightarrow> 's EventJob list \<Rightarrow> u64 option \<Rightarrow> bool" where
  "top_position s js p \<longleftrightarrow>
     (case p of
        None \<Rightarrow> \<forall>j \<in> set js. source_id j \<noteq> s
      | Some l \<Rightarrow> (\<exists>j \<in> set js. source_id j = s \<and> commit_lsn (ev j) = l)
          \<and> (\<forall>j \<in> set js. source_id j = s \<longrightarrow> commit_lsn (ev j) \<le> l))"

lemma top_position_snoc:
  assumes "top_position s js p"
  shows "top_position s (js @ [j])
    (if source_id j = s then Some (max (case p of None \<Rightarrow> 0 | Some l \<Rightarrow> l) (commit_lsn (ev j))) else p)"
proof (cases p)
  case None
  then show ?thesis using assms by (auto simp: top_position_def max_def)
next
  case (Some l)
  then show ?thesis using assms
    by (cases "source_id j = s"; cases "l \<le> commit_lsn (ev j)") (auto simp: top_position_def max_def intro: order_trans)
qed

lemma positions_top: "distinct (map fst (positions js)) \<and> (\<forall>s. top_position s js (map_of (positions js) s))"
proof (induction js rule: rev_induct)
  case (snoc j js)
  have "top_position s (js @ [j]) (map_of (positions (js @ [j])) s)" for s
    using top_position_snoc [of s js "map_of (positions js) s" j] snoc
    by (cases "source_id j = s") (auto simp: positions_snoc note_lsn_map)
  then show ?case using snoc by (simp add: positions_snoc note_lsn_keys(2))
qed (simp add: top_position_def)

lemma positions_max:
  assumes "(s, l) \<in> set (positions js)"
  shows "(\<exists>j \<in> set js. source_id j = s \<and> commit_lsn (ev j) = l)" "\<forall>j \<in> set js. source_id j = s \<longrightarrow> commit_lsn (ev j) \<le> l"
proof -
  have "map_of (positions js) s = Some l" using positions_top [of js] assms by simp
  then have "top_position s js (Some l)" using positions_top [of js] by metis
  then show "(\<exists>j \<in> set js. source_id j = s \<and> commit_lsn (ev j) = l)" "\<forall>j \<in> set js. source_id j = s \<longrightarrow> commit_lsn (ev j) \<le> l"
    by (simp_all add: top_position_def)
qed

section \<open>Properties\<close>

lemma history_batches:
  "history env limit l q \<Longrightarrow> Cut evs hs m \<in> set l \<Longrightarrow> evs \<noteq> [] \<and> length evs \<le> max 1 limit"
proof (induction rule: history.induct)
  case (batch l js q j calls)
  have "Cut evs hs m \<notin> set calls" using batch(5) by (auto simp: dispatched_def)
  moreover have "Cut evs hs m \<notin> set (confirmations env (positions js))" by (auto simp: confirmations_def)
  ultimately show ?case using batch by auto
qed auto

text \<open>
  C5. The dispatcher neither loses nor reorders events. At every round of the worker the events
  that were posted are, in the order of posting, the events of the batches that were handed to
  the sinks followed by those still in the queue; every batch is non-empty and within the
  configured size.
\<close>

theorem worker_in_order:
  assumes "new_EventDispatcher malloc sz timeout backoff ceiling w = Inr d0" "worker env d0 d" "\<forall>i. malloc_ok env i"
  shows "map ev (posted (disp_log d)) = cut_events (disp_log d) @ map ev (bq_items (disp_queue d))
     \<and> (\<forall>evs hs m. Cut evs hs m \<in> set (disp_log d) \<longrightarrow> evs \<noteq> [] \<and> length evs \<le> max 1 (disp_max_batch_size d))"
proof -
  have "holds_jobs env [] d" using worker_holds [OF assms(2) new_dispatcher_holds(1) [OF assms(1)] assms(3)] .
  then have h: "history env (disp_max_batch_size d) (disp_log d) (bq_items (disp_queue d))" by (simp add: holds_jobs_def)
  then show ?thesis using history_jobs [OF h] history_batches [OF h] by auto
qed

text \<open>
  C3. A position is confirmed to its source only after the sinks have the batch: before every
  confirmation in the history there is the batch with that position, and between the two every
  required sink of the batch has returned from a call with it without an exception.
\<close>

theorem confirmed_after_accepted:
  fixes env :: "('s, 'w) disp_env"
  assumes "new_EventDispatcher malloc sz timeout backoff ceiling w = Inr d0" "worker env d0 d" "\<forall>i. malloc_ok env i"
    and "\<And>m. set (map_order env m) = set m" "disp_log d = a @ Confirmed s lsn # b"
  shows "\<exists>a' evs hs m calls cs. a = a' @ Cut evs hs m # calls @ cs \<and> (s, lsn) \<in> set m
     \<and> (\<forall>h \<in> set hs. required h \<longrightarrow> Called h evs None \<in> set calls)"
proof -
  have "holds_jobs env [] d" using worker_holds [OF assms(2) new_dispatcher_holds(1) [OF assms(1)] assms(3)] .
  then have "history env (disp_max_batch_size d) (disp_log d) (bq_items (disp_queue d))" by (simp add: holds_jobs_def)
  from history_confirmed [OF this assms(5), unfolded assms(4)] obtain a' calls cs and js :: "'s EventJob list" and j :: "'s EventJob" where
    "a = a' @ Cut (map ev js) (job_sinks j) (positions js) # calls @ cs"
    "dispatched (map ev js) (job_sinks j) (Inr True) calls []" "(s, lsn) \<in> set (positions js)"
    by blast
  then show ?thesis unfolding dispatched_def by (metis (full_types))
qed

lemma covers_earlier:
  fixes env :: "('s, 'w) disp_env"
  assumes "new_EventDispatcher malloc sz timeout backoff ceiling w = Inr d0" "worker env d0 d" "\<forall>i. malloc_ok env i"
    and "\<And>m. set (map_order env m) = set m" "disp_log d = a @ Confirmed s lsn # b"
    and sorted: "sorted (map (\<lambda>j. commit_lsn (ev j)) (filter (\<lambda>j. source_id j = s) (posted (disp_log d))))"
    and j: "j \<in> set (posted (disp_log d))" "source_id j = s" "commit_lsn (ev j) < lsn"
  shows "ev j \<in> set (cut_events a)"
proof -
  have "holds_jobs env [] d" using worker_holds [OF assms(2) new_dispatcher_holds(1) [OF assms(1)] assms(3)] .
  then have "history env (disp_max_batch_size d) (disp_log d) (bq_items (disp_queue d))" by (simp add: holds_jobs_def)
  from history_confirmed [OF this assms(5), unfolded assms(4)] obtain a' js q' and j0 :: "'s EventJob" and calls cs where
    a: "a = a' @ Cut (map ev js) (job_sinks j0) (positions js) # calls @ cs" and h: "history env (disp_max_batch_size d) a' (js @ q')"
    and p: "(s, lsn) \<in> set (positions js)" by blast
  obtain ts where ts: "posted a' = ts @ js @ q'" "map ev ts = cut_events a'" using history_jobs [OF h] by auto
  have log: "posted (disp_log d) = ts @ js @ (q' @ posted (calls @ cs @ Confirmed s lsn # b))"
    using assms(5) a ts(1) by simp
  obtain k where k: "k \<in> set js" "source_id k = s" "commit_lsn (ev k) = lsn" using positions_max(1) [OF p] by blast
  have "j \<in> set ts \<union> set js"
  proof (rule ccontr)
    assume "j \<notin> set ts \<union> set js"
    then have "j \<in> set (q' @ posted (calls @ cs @ Confirmed s lsn # b))" using j(1) log by auto
    then have "commit_lsn (ev k) \<le> commit_lsn (ev j)"
      using sorted k j(2) unfolding log by (auto simp: sorted_append)
    then show False using k(3) j(3) by simp
  qed
  moreover have "set (map ev ts) \<union> set (map ev js) \<subseteq> set (cut_events a)"
    unfolding ts(2) by (auto simp: a)
  ultimately show ?thesis by auto
qed

text \<open>
  C2. A confirmed position covers everything before it. When the events of a source are posted
  with non-decreasing positions, then at the time a position is confirmed every event of that
  source with a smaller position has been handed to the sinks, so restarting the stream there
  skips nothing.
\<close>

theorem confirmed_covers_earlier:
  fixes env :: "('s, 'w) disp_env"
  assumes "new_EventDispatcher malloc sz timeout backoff ceiling w = Inr d0" "worker env d0 d" "\<forall>i. malloc_ok env i"
    and "\<And>m. set (map_order env m) = set m" "disp_log d = a @ Confirmed s lsn # b"
    and sorted: "sorted (map (\<lambda>j. commit_lsn (ev j)) (filter (\<lambda>j. source_id j = s) (posted (disp_log d))))"
    and j: "j \<in> set (posted (disp_log d))" "source_id j = s" "commit_lsn (ev j) < lsn"
  shows "ev j \<in> set (cut_events a)"
  using assms by (rule covers_earlier)

text \<open>
  C12. When the worker ends with success, every event that was ever posted has been handed to the
  sinks, in order, and the queue is empty. When it does not, it stopped inside a batch that it
  did not confirm and confirmed nothing afterwards.
\<close>

theorem process_jobs_complete:
  fixes env :: "('s, 'w) disp_env"
  assumes "new_EventDispatcher malloc sz timeout backoff ceiling w = Inr d0" "worker env d0 d" "\<forall>i. malloc_ok env i"
    and "on_fatal env \<noteq> None" "process_jobs env d = Some (d', r)"
  shows "if r = Inr True then cut_events (disp_log d') = map ev (posted (disp_log d')) \<and> bq_items (disp_queue d') = []
     else (\<exists>l evs hs m rest. disp_log d' = l @ Cut evs hs m # rest \<and> (\<forall>s lsn. Confirmed s lsn \<notin> set rest))"
proof -
  have "holds_jobs env [] d" using worker_holds [OF assms(2) new_dispatcher_holds(1) [OF assms(1)] assms(3)] .
  then have D: "drained env (d', r)" using process_jobs_drained [OF _ assms(3-5)] by blast
  show ?thesis
  proof (cases "r = Inr True")
    case True
    then have h: "history env (disp_max_batch_size d') (disp_log d') []" "bq_items (disp_queue d') = []"
      using D by (auto simp: drained_def holds_jobs_def)
    show ?thesis using history_jobs [OF h(1)] h(2) True by auto
  next
    case False
    then have "stopped env d' r" using D by (simp add: drained_def)
    then obtain l calls fin and js :: "'s EventJob list" and j :: "'s EventJob" where "disp_log d' = l @ Cut (map ev js) (job_sinks j) (positions js) # calls @ fin"
      "dispatched (map ev js) (job_sinks j) r calls fin" unfolding stopped_def by blast
    then have "disp_log d' = l @ Cut (map ev js) (job_sinks j) (positions js) # (calls @ fin)"
      "\<forall>s lsn. Confirmed s lsn \<notin> set (calls @ fin)" using quiet_calls(3) by blast+
    then show ?thesis unfolding if_not_P [OF False] by blast
  qed
qed

text \<open>
  C23. Shutting down delivers what is left: once the running flag is down, a worker whose sinks
  take their batches ends, with an empty queue and every posted event handed to the sinks.
\<close>

theorem shutdown_delivers_all:
  assumes "new_EventDispatcher malloc sz timeout backoff ceiling w = Inr d0" "worker env d0 d" "\<forall>i. malloc_ok env i"
    and "sinks_accept env" "\<not> snd (running env (disp_world d))"
  shows "\<exists>d'. process_jobs env d = Some (d', Inr True) \<and> bq_items (disp_queue d') = []
     \<and> cut_events (disp_log d') = map ev (posted (disp_log d'))"
proof -
  let ?d = "d\<lparr>disp_world := fst (running env (disp_world d))\<rparr>"
  have "holds_jobs env [] d" using worker_holds [OF assms(2) new_dispatcher_holds(1) [OF assms(1)] assms(3)] .
  then have h: "holds_jobs env [] ?d" by (simp add: holds_jobs_def)
  obtain d' where d': "drain_remaining env ?d = Some (d', Inr True)" "holds_jobs env [] d'" "bq_items (disp_queue d') = []"
    using drain_remaining_accepts [OF assms(4) h] by blast
  have "process_step env d = Some (Inl (d', Inr True))"
    using d'(1) h assms(5) by (auto simp: process_step_def Let_def after_loop_def holds_jobs_def split: prod.splits)
  then have "process_jobs env d = Some (d', Inr True)" by (simp add: process_jobs_def loop_simps(2))
  moreover have "history env (disp_max_batch_size d') (disp_log d') []" using d' by (simp add: holds_jobs_def)
  ultimately show ?thesis using history_jobs d'(3) by fastforce
qed

text \<open>
  C25. A stalled sink cannot hang the worker: as long as time passes, dispatching a batch ends,
  whatever the sinks do, with success or after the retry limit.
\<close>

theorem dispatch_always_returns:
  assumes "time_passes env clock"
  shows "\<exists>d' r. dispatch env evs hs d = Some (d', r)"
  using dispatch_returns [OF assms, of evs hs d] by auto

section \<open>What the callbacks do to the world\<close>

text \<open>
  A part \<open>view\<close> of the world that only the confirmation callback changes, by \<open>g\<close>: it follows the
  confirmations in the history.
\<close>

fun replay :: "(nat \<Rightarrow> u64 \<Rightarrow> 'v \<Rightarrow> 'v) \<Rightarrow> 's action list \<Rightarrow> 'v \<Rightarrow> 'v" where
  "replay g [] v = v"
| "replay g (Confirmed s lsn # l) v = replay g l (g s lsn v)"
| "replay g (_ # l) v = replay g l v"

lemma replay_append [simp]: "replay g (l @ l') v = replay g l' (replay g l v)"
  by (induction g l v rule: replay.induct) auto

definition view_laws :: "('s, 'w) disp_env \<Rightarrow> ('w \<Rightarrow> 'v) \<Rightarrow> (nat \<Rightarrow> u64 \<Rightarrow> 'v \<Rightarrow> 'v) \<Rightarrow> bool" where
  "view_laws env view g \<longleftrightarrow>
     (\<forall>s evs w. view (fst (call_batch env s evs w)) = view w) \<and> (\<forall>w. view (fst (steady_now env w)) = view w) \<and>
     (\<forall>ms w. view (sleep_ms env ms w) = view w) \<and> (\<forall>f w. on_fatal env = Some f \<longrightarrow> view (f w) = view w) \<and>
     (\<forall>f i lsn w. on_confirmed env = Some f \<longrightarrow> view (f i lsn w) = g i lsn (view w))"

definition tracks :: "('w \<Rightarrow> 'v) \<Rightarrow> (nat \<Rightarrow> u64 \<Rightarrow> 'v \<Rightarrow> 'v) \<Rightarrow> ('s, 'w) EventDispatcher \<Rightarrow> ('s, 'w) EventDispatcher \<Rightarrow> bool" where
  "tracks view g d d' \<longleftrightarrow> (\<exists>l. disp_log d' = disp_log d @ l \<and> view (disp_world d') = replay g l (view (disp_world d)))"

lemma tracks_refl [simp]: "disp_log d' = disp_log d \<Longrightarrow> view (disp_world d') = view (disp_world d) \<Longrightarrow> tracks view g d d'"
  by (simp add: tracks_def exI [of _ "[]"])

lemma tracks_trans: "tracks view g d d1 \<Longrightarrow> tracks view g d1 d2 \<Longrightarrow> tracks view g d d2"
  unfolding tracks_def by force

lemma read_clock_tracks: "view_laws env view g \<Longrightarrow> read_clock env d = (d', t) \<Longrightarrow> tracks view g d d'"
  by (auto simp: read_clock_def view_laws_def split: prod.splits dest: spec [of _ "disp_world d"])

lemma call_sink_tracks: "view_laws env view g \<Longrightarrow> call_sink env h evs d = (d', r) \<Longrightarrow> tracks view g d d'"
  unfolding view_laws_def tracks_def
  by (auto simp: call_sink_def log_action_def split: prod.splits) (metis fst_conv)

lemma retry_step_tracks:
  assumes "view_laws env view g"
  shows "case retry_step env h evs start (b, d) of Inl (d', r) \<Rightarrow> tracks view g d d' | Inr (b', d') \<Rightarrow> tracks view g d d'"
proof -
  obtain d1 f where c: "call_sink env h evs d = (d1, f)" by (cases "call_sink env h evs d")
  obtain d2 now where t: "read_clock env d1 = (d2, now)" by (cases "read_clock env d1")
  have "tracks view g d d1" "tracks view g d d2"
    using call_sink_tracks [OF assms c] read_clock_tracks [OF assms t] tracks_trans by blast+
  moreover from this(2) have "tracks view g d (d2\<lparr>disp_world := sleep_ms env ms (disp_world d2)\<rparr>)" for ms
    by (rule tracks_trans) (use assms in \<open>simp add: view_laws_def\<close>)
  ultimately show ?thesis
    by (auto simp: retry_step_def Let_def c t split: option.splits failure.splits)
qed

lemma dispatch_with_retry_tracks:
  assumes "view_laws env view g" "dispatch_with_retry env h evs d = Some (d', r)"
  shows "tracks view g d d'"
proof -
  obtain d1 t where t: "read_clock env d = (d1, t)" by (cases "read_clock env d")
  have "loop (\<lambda>s. Some (retry_step env h evs t s)) (required_retry_initial_backoff d1, d1) = Some (d', r)"
    using assms(2) t by (simp add: dispatch_with_retry_def)
  then have "tracks view g d (fst (d', r))"
  proof (rule loop_inv [where I = "\<lambda>(b, x). tracks view g d x" and Q = "\<lambda>x. tracks view g d (fst x)"])
    show "case (required_retry_initial_backoff d1, d1) of (b, x) \<Rightarrow> tracks view g d x" using read_clock_tracks [OF assms(1) t] by simp
  next
    fix a x assume "case a of (b, x) \<Rightarrow> tracks view g d x" "Some (retry_step env h evs t a) = Some (Inl x)"
    then show "tracks view g d (fst x)" using retry_step_tracks [OF assms(1), where h = h and evs = evs and start = t and b = "fst a" and d = "snd a"] tracks_trans
      by (cases a; cases x) auto
  next
    fix a a' assume "case a of (b, x) \<Rightarrow> tracks view g d x" "Some (retry_step env h evs t a) = Some (Inr a')"
    then show "case a' of (b, x) \<Rightarrow> tracks view g d x" using retry_step_tracks [OF assms(1), where h = h and evs = evs and start = t and b = "fst a" and d = "snd a"] tracks_trans
      by (cases a; cases a') auto
  qed
  then show ?thesis by simp
qed

lemma raise_fatal_tracks: "view_laws env view g \<Longrightarrow> tracks view g d (raise_fatal env d)"
  by (auto simp: raise_fatal_def log_action_def view_laws_def tracks_def split: option.splits)

lemma dispatch_tracks: "view_laws env view g \<Longrightarrow> dispatch env evs hs d = Some (d', r) \<Longrightarrow> tracks view g d d'"
proof (induction hs arbitrary: d)
  case (Cons h hs)
  obtain d1 y where y: "dispatch_with_retry env h evs d = Some (d1, y)" using Cons.prems(2) by (cases "dispatch_with_retry env h evs d") auto
  have d1: "tracks view g d d1" by (rule dispatch_with_retry_tracks [OF Cons.prems(1) y])
  show ?case
  proof (cases y)
    case (Inl e)
    then show ?thesis using Cons.prems(2) y d1 by simp
  next
    case (Inr ok)
    then show ?thesis
      using Cons.prems y d1 Cons.IH [OF Cons.prems(1), of d1] raise_fatal_tracks [OF Cons.prems(1), of d1] tracks_trans
      by (cases ok) auto
  qed
qed simp

lemma confirm_each_tracks:
  "view_laws env view g \<Longrightarrow> on_confirmed env = Some f \<Longrightarrow> tracks view g d (confirm_each f m d)"
proof (induction f m d rule: confirm_each.induct)
  case (2 f s lsn m d)
  let ?d = "log_action (Confirmed s lsn) (d\<lparr>disp_world := f s lsn (disp_world d)\<rparr>)"
  have "tracks view g d ?d" using 2 by (simp add: log_action_def view_laws_def tracks_def)
  then show ?case using 2 tracks_trans by simp
qed simp

lemma deliver_tracks:
  assumes "view_laws env view g" "deliver env evs hs m d = Some (d', r)"
  shows "tracks view g d d'"
proof -
  let ?d = "log_action (Cut evs hs m) d"
  have "tracks view g d ?d" by (simp add: log_action_def tracks_def)
  moreover obtain d1 y where d1: "dispatch env evs hs ?d = Some (d1, y)" using assms(2) by (cases "dispatch env evs hs ?d") (auto simp: deliver_def)
  moreover have "tracks view g ?d d1" by (rule dispatch_tracks [OF assms(1) d1])
  ultimately have "tracks view g d d1" using tracks_trans by blast
  moreover from this have "tracks view g d (notify_confirmed env m d1)"
    by (rule tracks_trans) (use confirm_each_tracks [OF assms(1)] in \<open>auto simp: notify_confirmed_def split: option.splits\<close>)
  ultimately show ?thesis using assms(2) d1 by (auto simp: deliver_def split: sum.splits bool.splits)
qed

lemma flush_batch_tracks: "view_laws env view g \<Longrightarrow> flush_batch env evs hs m d = Some (d', r) \<Longrightarrow> tracks view g d d'"
  using deliver_tracks by (auto simp: flush_batch_def split: if_splits)

lemma drain_step_tracks:
  assumes "view_laws env view g"
  shows "case drain_step env (evs, hs, m, d) of
     Some (Inl (d', r)) \<Rightarrow> tracks view g d d' | Some (Inr (evs', hs', m', d')) \<Rightarrow> tracks view g d d' | None \<Rightarrow> True"
proof -
  obtain q y where q: "bq_try_dequeue (disp_queue d) = (q, y)" by (cases "bq_try_dequeue (disp_queue d)")
  have d: "tracks view g d (d\<lparr>disp_queue := q\<rparr>)" by simp
  have fl: "tracks view g d d'" if "flush_batch env e h n (d\<lparr>disp_queue := q\<rparr>) = Some (d', r)" for e h n d' r
    using tracks_trans [OF d flush_batch_tracks [OF assms that]] .
  show ?thesis
  proof (cases y)
    case (Inl e)
    then show ?thesis using d by (simp add: drain_step_def q)
  next
    case (Inr oj)
    then show ?thesis using d fl
      by (cases oj) (auto simp: drain_step_def q Let_def split: option.splits sum.splits bool.splits)
  qed
qed

lemma drain_remaining_tracks:
  assumes "view_laws env view g" "drain_remaining env d = Some (d', r)"
  shows "tracks view g d d'"
proof -
  have "loop (drain_step env) ([], [], [], d) = Some (d', r)" using assms(2) by (simp add: drain_remaining_def)
  then have "tracks view g d (fst (d', r))"
  proof (rule loop_inv [where I = "\<lambda>(evs, hs, m, x). tracks view g d x" and Q = "\<lambda>x. tracks view g d (fst x)"])
    show "case ([], [], [], d) of (evs, hs, m, x) \<Rightarrow> tracks view g d x" by simp
  next
    fix a x assume a: "case a of (evs, hs, m, x) \<Rightarrow> tracks view g d x" "drain_step env a = Some (Inl x)"
    obtain evs hs m y where "a = (evs, hs, m, y)" by (cases a)
    then show "tracks view g d (fst x)" using a drain_step_tracks [OF assms(1), where evs = evs and hs = hs and m = m and d = y] tracks_trans by (cases x) auto
  next
    fix a a' assume a: "case a of (evs, hs, m, x) \<Rightarrow> tracks view g d x" "drain_step env a = Some (Inr a')"
    obtain evs hs m y where "a = (evs, hs, m, y)" by (cases a)
    then show "case a' of (evs, hs, m, x) \<Rightarrow> tracks view g d x" using a drain_step_tracks [OF assms(1), where evs = evs and hs = hs and m = m and d = y] tracks_trans by (cases a') auto
  qed
  then show ?thesis by simp
qed

section \<open>Rounds only add to the history\<close>

lemma deliver_extends: "deliver env evs hs m d = Some (d', r) \<Longrightarrow> \<exists>l. disp_log d' = disp_log d @ l"
  using deliver_tracks [of env "\<lambda>_. ()" "\<lambda>_ _ _. ()"] by (auto simp: view_laws_def tracks_def)

lemma wait_job_extends: "wait_job env ms d = Some (d', r) \<Longrightarrow> \<exists>l. disp_log d' = disp_log d @ l"
  by (auto simp: wait_job_def)

lemma read_clock_extends: "read_clock env d = (d', t) \<Longrightarrow> disp_log d' = disp_log d"
  by (auto simp: read_clock_def split: prod.splits)

lemma fill_step_extends:
  "case fill_step env deadline (evs, m, d) of
     Some (Inl (d', r)) \<Rightarrow> \<exists>l. disp_log d' = disp_log d @ l | Some (Inr (evs', m', d')) \<Rightarrow> \<exists>l. disp_log d' = disp_log d @ l | None \<Rightarrow> True"
  by (auto simp: fill_step_def split: option.splits prod.splits sum.splits dest!: read_clock_extends dest: wait_job_extends)

lemma fill_batch_extends:
  assumes "fill_batch env deadline evs m d = Some (d', r)"
  shows "\<exists>l. disp_log d' = disp_log d @ l"
proof -
  have "loop (fill_step env deadline) (evs, m, d) = Some (d', r)" using assms by (simp add: fill_batch_def)
  then have "\<exists>l. disp_log (fst (d', r)) = disp_log d @ l"
  proof (rule loop_inv [where I = "\<lambda>(e, n, x). \<exists>l. disp_log x = disp_log d @ l" and Q = "\<lambda>y. \<exists>l. disp_log (fst y) = disp_log d @ l"])
    show "case (evs, m, d) of (e, n, x) \<Rightarrow> \<exists>l. disp_log x = disp_log d @ l" by simp
  next
    fix a y assume a: "case a of (e, n, x) \<Rightarrow> \<exists>l. disp_log x = disp_log d @ l" "fill_step env deadline a = Some (Inl y)"
    obtain e n x where x: "a = (e, n, x)" by (cases a)
    show "\<exists>l. disp_log (fst y) = disp_log d @ l" using a fill_step_extends [where env = env and deadline = deadline and evs = e and m = n and d = x] by (cases y) (auto simp: x)
  next
    fix a a' assume a: "case a of (e, n, x) \<Rightarrow> \<exists>l. disp_log x = disp_log d @ l" "fill_step env deadline a = Some (Inr a')"
    obtain e n x where x: "a = (e, n, x)" by (cases a)
    show "case a' of (e, n, x) \<Rightarrow> \<exists>l. disp_log x = disp_log d @ l" using a fill_step_extends [where env = env and deadline = deadline and evs = e and m = n and d = x] by (cases a') (auto simp: x)
  qed
  then show ?thesis by simp
qed

lemma process_step_extends:
  assumes "process_step env d = Some (Inr d')"
  shows "\<exists>l. disp_log d' = disp_log d @ l"
proof -
  obtain w where "process_once env (d\<lparr>disp_world := w\<rparr>) = Some (d', Inr True)"
    using assms by (auto simp: process_step_def Let_def split: prod.splits if_splits option.splits sum.splits bool.splits)
  then show ?thesis unfolding process_once_def
    by (auto split: option.splits prod.splits sum.splits dest!: wait_job_extends read_clock_extends fill_batch_extends deliver_extends)
qed

text \<open>Every batch of a history was taken by its required sinks.\<close>

lemma history_accepted:
  "history env limit l q \<Longrightarrow> Cut evs hs m \<in> set l \<Longrightarrow> h \<in> set hs \<Longrightarrow> required h \<Longrightarrow> Called h evs None \<in> set l"
proof (induction rule: history.induct)
  case (batch l js q j calls)
  have "Cut evs hs m \<notin> set calls" using batch(5) by (auto simp: dispatched_def)
  moreover have "Cut evs hs m \<notin> set (confirmations env (positions js))" by (auto simp: confirmations_def)
  ultimately show ?case using batch by (auto simp: dispatched_def)
qed auto

section \<open>A sample run\<close>

text \<open>One required sink that takes everything, one source that posts two events, a clock that stands still.\<close>

definition sample_event :: "u64 \<Rightarrow> ChangeEvent" where
  "sample_event l = (new_event Insert)\<lparr>table_name := ''items'', commit_lsn := l\<rparr>"

definition sample_job :: "u64 \<Rightarrow> unit EventJob" where
  "sample_job l = \<lparr>ev = sample_event l, source_id = 1, job_sinks = [\<lparr>sink = (), required = True\<rparr>]\<rparr>"

definition sample_env :: "(unit, nat) disp_env" where
  "sample_env = \<lparr>call_batch = (\<lambda>_ _ w. (w, None)), steady_now = (\<lambda>w. (w, 0)), sleep_ms = (\<lambda>_ w. w),
     posting = (\<lambda>w. (w + 1, if w = 0 then [sample_job 5, sample_job 7] else [])), running = (\<lambda>w. (w, w = 0)),
     malloc_ok = (\<lambda>_. True), on_confirmed = Some (\<lambda>_ _ w. w), on_fatal = Some (\<lambda>w. w), map_order = (\<lambda>m. m)\<rparr>"

definition sample_start :: "(unit, nat) EventDispatcher" where
  "sample_start = \<lparr>disp_queue = \<lparr>inner = \<lparr>blocks = [(make_block 16)\<lparr>b_next := 0\<rparr>], frontBlock = 0, tailBlock = 0,
     largestBlockSize = 16\<rparr>, sema = \<lparr>m_count = 0, m_sema = 0\<rparr>\<rparr>, disp_max_batch_size = 8, disp_batch_timeout = 50,
     required_retry_initial_backoff = 500, required_retry_ceiling = 60000, fatal_triggered = False, disp_world = 0,
     disp_log = []\<rparr>"

lemma sample_new: "new_EventDispatcher (\<lambda>_. True) 8 50 default_backoff default_ceiling 0 = Inr sample_start"
proof -
  obtain k where k: "unat (ceilToPow2 16) = 2 ^ k" "16 \<le> (2::nat) ^ k" "\<forall>j. 16 \<le> (2::nat) ^ j \<longrightarrow> k \<le> j"
    using ceilToPow2_least [of 16] by auto
  have "(2::nat) ^ 3 < 2 ^ k" using k(2) by simp
  then have "3 < k" by (rule power_less_imp_less_exp [rotated]) simp
  moreover have "k \<le> 4" using k(3) [rule_format, of 4] by simp
  ultimately have "k = 4" by simp
  then show ?thesis using k(1)
    by (simp add: new_EventDispatcher_def new_blocking_queue_def new_queue_def MAX_BLOCK_SIZE_def sample_start_def
        default_backoff_def default_ceiling_def)
qed

definition sample_end :: "(unit, nat) EventDispatcher" where
  "sample_end = (case process_step sample_env sample_start of Some (Inr d) \<Rightarrow> d | _ \<Rightarrow> sample_start)"

definition sample_sink :: "unit SinkHandle" where
  "sample_sink = \<lparr>sink = (), required = True\<rparr>"

definition sample_log :: "unit action list" where
  "sample_log = [Posted (sample_job 5), Posted (sample_job 7), Cut [sample_event 5, sample_event 7] [sample_sink] [(1, 7)],
     Called sample_sink [sample_event 5, sample_event 7] None]"

lemma sample_step: "process_step sample_env sample_start = Some (Inr sample_end)"
  by code_simp

lemma sample_end_log: "disp_log sample_end = sample_log @ Confirmed 1 7 # []" "disp_world sample_end = 4"
  by code_simp+

lemma sample_worker: "worker sample_env sample_start sample_end"
  by (rule worker.round [OF worker.start sample_step])

lemma sample_malloc: "\<forall>i. malloc_ok sample_env i"
  by (simp add: sample_env_def)

lemma sample_order: "set (map_order sample_env m) = set m"
  by (simp add: sample_env_def)

theorem worker_in_order_witness:
  "map ev (posted (disp_log sample_end)) = cut_events (disp_log sample_end) @ map ev (bq_items (disp_queue sample_end))
   \<and> cut_events (disp_log sample_end) = [sample_event 5, sample_event 7]"
  using worker_in_order [OF sample_new sample_worker sample_malloc]
  by (simp add: sample_end_log sample_log_def cut_events_def)

theorem confirmed_after_accepted_witness:
  "\<exists>a' evs hs m calls cs. sample_log = a' @ Cut evs hs m # calls @ cs \<and> (1, 7) \<in> set m"
  using confirmed_after_accepted [OF sample_new sample_worker sample_malloc sample_order sample_end_log(1)] by blast

theorem confirmed_covers_earlier_witness: "sample_event 5 \<in> set (cut_events sample_log)"
proof -
  have "ev (sample_job 5) \<in> set (cut_events sample_log)"
    by (rule confirmed_covers_earlier [OF sample_new sample_worker sample_malloc sample_order sample_end_log(1)])
       (simp_all add: sample_end_log sample_log_def sample_job_def sample_event_def posted_def)
  then show ?thesis by (simp add: sample_job_def)
qed

theorem shutdown_delivers_all_witness:
  "\<exists>d'. process_jobs sample_env sample_end = Some (d', Inr True) \<and> bq_items (disp_queue d') = []
     \<and> cut_events (disp_log d') = map ev (posted (disp_log d'))"
  by (rule shutdown_delivers_all [OF sample_new sample_worker sample_malloc])
     (simp_all add: sinks_accept_def sample_env_def sample_end_log)

definition sample_final :: "(unit, nat) EventDispatcher" where
  "sample_final = (case process_jobs sample_env sample_end of Some (d, _) \<Rightarrow> d | None \<Rightarrow> sample_end)"

lemma sample_finish: "process_jobs sample_env sample_end = Some (sample_final, Inr True)"
  by code_simp

theorem process_jobs_complete_witness:
  "cut_events (disp_log sample_final) = map ev (posted (disp_log sample_final)) \<and> bq_items (disp_queue sample_final) = []"
  using process_jobs_complete [OF sample_new sample_worker sample_malloc _ sample_finish] by (simp add: sample_env_def)

text \<open>A sink that always fails, and a clock that ticks with every call and every pause.\<close>

definition failing_env :: "(unit, nat) disp_env" where
  "failing_env = sample_env\<lparr>call_batch := (\<lambda>_ _ w. (w + 1, Some (Throw ''down''))), steady_now := (\<lambda>w. (w, int w)),
     sleep_ms := (\<lambda>ms w. w + nat ms * 1000000)\<rparr>"

theorem dispatch_always_returns_witness:
  "\<exists>d' r. dispatch failing_env [sample_event 5] [sample_sink] sample_start = Some (d', r)"
  by (rule dispatch_always_returns [where clock = int])
     (simp add: time_passes_def failing_env_def sample_env_def)

end
