(* ===== verification/Backfill_Store.thy ===== *)
theory Backfill_Store
  imports C_Library "HOL-Library.Multiset"
begin

text \<open>
  The staging store of \<^verbatim>\<open>src/src/backfill_store.cpp\<close>: one SQLite file per source
  with the rows that still have to reach the sinks. The database is a record of its two tables;
  the statements of the source are the constructors of \<open>sql\<close> and \<open>run_sql\<close> is their meaning.
  SQLite itself is the parameter \<open>sqlite\<close>: every call may fail, a failed statement changes
  nothing, and the order in which a query without \<^verbatim>\<open>ORDER BY\<close> visits rows is left open. The
  file is shared between processes; a statement is one atomic step on it.
\<close>

section \<open>Database\<close>

record BackfillRow =
  br_table :: string
  br_id :: string
  br_data :: string
  br_status :: string

record BackfillTable =
  bt_table :: string
  bt_status :: string
  bt_count :: "int option"

record BackfillDb =
  backfill_rows :: "BackfillRow list"
  backfill_tables :: "BackfillTable list"

abbreviation br_key :: "BackfillRow \<Rightarrow> string \<times> string" where
  "br_key r \<equiv> (br_table r, br_id r)"

abbreviation pending_row :: "BackfillRow \<Rightarrow> bool" where
  "pending_row r \<equiv> br_status r = ''pending''"

abbreviation claimed_row :: "BackfillRow \<Rightarrow> bool" where
  "claimed_row r \<equiv> br_status r = ''claimed''"

datatype sql =
    CreateRows | CreateTables | DeleteRows | DeleteTables | ReleaseClaims
  | InsertRow string string string
  | StartTable string
  | CompleteTable string int
  | SelectStatus string
  | AnyTable
  | CountRows string
  | AnyPending
  | SelectData string string
  | UpdateData string string string
  | ClaimRows int
  | DeleteRow string string

datatype sql_value = SText string | SInt int

text \<open>A negative \<^verbatim>\<open>LIMIT\<close> is no limit.\<close>

definition sql_limit :: "int \<Rightarrow> 'a list \<Rightarrow> 'a list" where
  "sql_limit n xs = (if n < 0 then xs else take (nat n) xs)"

text \<open>
  The new database, the result rows and the number of changed rows. \<open>scan\<close> is the order in which
  the rows are visited; a row is identified by its primary key.
\<close>

fun run_sql ::
  "(BackfillRow list \<Rightarrow> BackfillRow list) \<Rightarrow> sql \<Rightarrow> BackfillDb \<Rightarrow> BackfillDb \<times> sql_value list list \<times> nat" where
  "run_sql scan CreateRows db = (db, [], 0)"
| "run_sql scan CreateTables db = (db, [], 0)"
| "run_sql scan DeleteRows db = (db\<lparr>backfill_rows := []\<rparr>, [], length (backfill_rows db))"
| "run_sql scan DeleteTables db = (db\<lparr>backfill_tables := []\<rparr>, [], length (backfill_tables db))"
| "run_sql scan ReleaseClaims db =
     (db\<lparr>backfill_rows := map (\<lambda>r. if claimed_row r then r\<lparr>br_status := ''pending''\<rparr> else r) (backfill_rows db)\<rparr>,
      [], length (filter claimed_row (backfill_rows db)))"
| "run_sql scan (InsertRow t i v) db =
     (if (t, i) \<in> br_key ` set (backfill_rows db) then (db, [], 0)
      else (db\<lparr>backfill_rows := backfill_rows db @
                 [\<lparr>br_table = t, br_id = i, br_data = v, br_status = ''pending''\<rparr>]\<rparr>, [], 1))"
| "run_sql scan (StartTable t) db =
     (if t \<in> bt_table ` set (backfill_tables db) then (db, [], 0)
      else (db\<lparr>backfill_tables := backfill_tables db @
                 [\<lparr>bt_table = t, bt_status = ''in_progress'', bt_count = None\<rparr>]\<rparr>, [], 1))"
| "run_sql scan (CompleteTable t n) db =
     (if t \<in> bt_table ` set (backfill_tables db)
      then (db\<lparr>backfill_tables := map (\<lambda>b. if bt_table b = t then b\<lparr>bt_status := ''complete'', bt_count := Some n\<rparr> else b)
                 (backfill_tables db)\<rparr>, [], 1)
      else (db\<lparr>backfill_tables := backfill_tables db @
                 [\<lparr>bt_table = t, bt_status = ''complete'', bt_count = Some n\<rparr>]\<rparr>, [], 1))"
| "run_sql scan (SelectStatus t) db =
     (db, map (\<lambda>b. [SText (bt_status b)]) (filter (\<lambda>b. bt_table b = t) (backfill_tables db)), 0)"
| "run_sql scan AnyTable db = (db, [[SInt (if backfill_tables db = [] then 0 else 1)]], 0)"
| "run_sql scan (CountRows t) db =
     (db, [[SInt (int (length (filter (\<lambda>r. br_table r = t) (backfill_rows db))))]], 0)"
| "run_sql scan AnyPending db = (db, [[SInt (if filter pending_row (backfill_rows db) = [] then 0 else 1)]], 0)"
| "run_sql scan (SelectData t i) db =
     (db, map (\<lambda>r. [SText (br_data r)]) (filter (\<lambda>r. br_key r = (t, i)) (backfill_rows db)), 0)"
| "run_sql scan (UpdateData v t i) db =
     (db\<lparr>backfill_rows := map (\<lambda>r. if br_key r = (t, i) then r\<lparr>br_data := v\<rparr> else r) (backfill_rows db)\<rparr>,
      [], length (filter (\<lambda>r. br_key r = (t, i)) (backfill_rows db)))"
| "run_sql scan (ClaimRows n) db =
     (let picked = sql_limit n (filter pending_row (scan (backfill_rows db))) in
      (db\<lparr>backfill_rows := map (\<lambda>r. if br_key r \<in> br_key ` set picked then r\<lparr>br_status := ''claimed''\<rparr> else r) (backfill_rows db)\<rparr>,
       map (\<lambda>r. [SText (br_table r), SText (br_id r), SText (br_data r)]) picked, length picked))"
| "run_sql scan (DeleteRow t i) db =
     (db\<lparr>backfill_rows := filter (\<lambda>r. br_key r \<noteq> (t, i)) (backfill_rows db)\<rparr>,
      [], length (filter (\<lambda>r. br_key r = (t, i)) (backfill_rows db)))"

section \<open>Library calls\<close>

record 'w sqlite =
  sq_open :: "string \<Rightarrow> 'w \<Rightarrow> 'w \<times> string option"
  sq_exec :: "sql \<Rightarrow> 'w \<Rightarrow> 'w \<times> string option option"
  sq_prepare :: "sql \<Rightarrow> 'w \<Rightarrow> 'w \<times> string option"
  sq_step :: "sql \<Rightarrow> 'w \<Rightarrow> 'w \<times> string option"
  sq_scan :: "'w \<Rightarrow> BackfillRow list \<Rightarrow> BackfillRow list"

text \<open>An operation on the shared file and the rest of the world.\<close>

type_synonym ('w, 'a) store_op = "(BackfillDb \<times> 'w, 'a) op"

text \<open>The error message of \<^verbatim>\<open>sqlite3_exec\<close> may be missing.\<close>

definition exec_or_throw :: "'w sqlite \<Rightarrow> sql \<Rightarrow> ('w, unit) store_op" where
  "exec_or_throw sq q = (\<lambda>(db, w).
     case sq_exec sq q w of
       (w', None) \<Rightarrow> ((fst (run_sql (sq_scan sq w') q db), w'), Inr ())
     | (w', Some err) \<Rightarrow>
         ((db, w'), Inl (Throw (''BackfillStore: '' @ (case err of None \<Rightarrow> ''unknown sqlite error'' | Some m \<Rightarrow> m)))))"

definition prepare_or_throw :: "'w sqlite \<Rightarrow> sql \<Rightarrow> string \<Rightarrow> ('w, unit) store_op" where
  "prepare_or_throw sq q who = (\<lambda>(db, w).
     case sq_prepare sq q w of
       (w', None) \<Rightarrow> ((db, w'), Inr ())
     | (w', Some m) \<Rightarrow> ((db, w'), Inl (Throw (''BackfillStore: '' @ who @ '' prepare failed: '' @ m))))"

text \<open>Stepping a prepared statement until it is done, with the check of its return code.\<close>

definition step_or_throw :: "'w sqlite \<Rightarrow> sql \<Rightarrow> string \<Rightarrow> ('w, sql_value list list \<times> nat) store_op" where
  "step_or_throw sq q who = (\<lambda>(db, w).
     case sq_step sq q w of
       (w', None) \<Rightarrow> (case run_sql (sq_scan sq w') q db of (db', rs, n) \<Rightarrow> ((db', w'), Inr (rs, n)))
     | (w', Some m) \<Rightarrow> ((db, w'), Inl (Throw (''BackfillStore: '' @ who @ '' failed: '' @ m))))"

definition statement :: "'w sqlite \<Rightarrow> sql \<Rightarrow> string \<Rightarrow> ('w, sql_value list list \<times> nat) store_op" where
  "statement sq q who = bindS (prepare_or_throw sq q who) (\<lambda>_. step_or_throw sq q who)"

fun column_text :: "nat \<Rightarrow> sql_value list \<Rightarrow> string" where
  "column_text n row = (case row ! n of SText s \<Rightarrow> c_str s | SInt i \<Rightarrow> [])"

fun column_int :: "nat \<Rightarrow> sql_value list \<Rightarrow> int" where
  "column_int n row = (case row ! n of SInt i \<Rightarrow> to_i32 i | SText s \<Rightarrow> 0)"

section \<open>Operations\<close>

definition store_open :: "'w sqlite \<Rightarrow> string \<Rightarrow> ('w, unit) store_op" where
  "store_open sq path = (\<lambda>(db, w).
     case sq_open sq (c_str path) w of
       (w', Some err) \<Rightarrow>
         ((db, w'), Inl (Throw (''BackfillStore: failed to open '' @ squote path @ '': '' @ err)))
     | (w', None) \<Rightarrow> bindS (exec_or_throw sq CreateRows) (\<lambda>_. exec_or_throw sq CreateTables) (db, w'))"

definition store_reset :: "'w sqlite \<Rightarrow> ('w, unit) store_op" where
  "store_reset sq = bindS (exec_or_throw sq DeleteRows) (\<lambda>_. exec_or_throw sq DeleteTables)"

definition reset_stale_claims :: "'w sqlite \<Rightarrow> ('w, unit) store_op" where
  "reset_stale_claims sq = exec_or_throw sq ReleaseClaims"

definition insert_row :: "'w sqlite \<Rightarrow> string \<Rightarrow> string \<Rightarrow> string \<Rightarrow> ('w, unit) store_op" where
  "insert_row sq t i v =
     bindS (statement sq (InsertRow (c_str t) (c_str i) (c_str v)) ''insert_row'') (\<lambda>_. returnS ())"

definition mark_table_dump_started :: "'w sqlite \<Rightarrow> string \<Rightarrow> ('w, unit) store_op" where
  "mark_table_dump_started sq t =
     bindS (statement sq (StartTable (c_str t)) ''mark_table_dump_started'') (\<lambda>_. returnS ())"

definition mark_table_dumped :: "'w sqlite \<Rightarrow> string \<Rightarrow> int \<Rightarrow> ('w, unit) store_op" where
  "mark_table_dumped sq t n =
     bindS (statement sq (CompleteTable (c_str t) n) ''mark_table_dumped'') (\<lambda>_. returnS ())"

definition is_table_dumped :: "'w sqlite \<Rightarrow> string \<Rightarrow> ('w, bool) store_op" where
  "is_table_dumped sq t =
     bindS (statement sq (SelectStatus (c_str t)) ''is_table_dumped'') (\<lambda>(rs, _).
       returnS (case rs of row # _ \<Rightarrow> column_text 0 row = ''complete'' | [] \<Rightarrow> False))"

text \<open>The queries whose result always has one row; without a row the code reports a failed step.\<close>

definition first_int :: "string \<Rightarrow> sql_value list list \<times> nat \<Rightarrow> ('w, int) store_op" where
  "first_int who = (\<lambda>(rs, _) s.
     case rs of row # _ \<Rightarrow> (s, Inr (column_int 0 row))
     | [] \<Rightarrow> (s, Inl (Throw (''BackfillStore: '' @ who @ '' failed: not an error''))))"

definition has_any_dump_state :: "'w sqlite \<Rightarrow> ('w, bool) store_op" where
  "has_any_dump_state sq =
     bindS (bindS (statement sq AnyTable ''has_any_dump_state'') (first_int ''has_any_dump_state'')) (\<lambda>n. returnS (n \<noteq> 0))"

definition count_rows_for_table :: "'w sqlite \<Rightarrow> string \<Rightarrow> ('w, int) store_op" where
  "count_rows_for_table sq t =
     bindS (statement sq (CountRows (c_str t)) ''count_rows_for_table'') (first_int ''count_rows_for_table'')"

definition has_pending :: "'w sqlite \<Rightarrow> ('w, bool) store_op" where
  "has_pending sq = bindS (bindS (statement sq AnyPending ''has_pending'') (first_int ''has_pending'')) (\<lambda>n. returnS (n \<noteq> 0))"

definition get_row_data :: "'w sqlite \<Rightarrow> string \<Rightarrow> string \<Rightarrow> ('w, string option) store_op" where
  "get_row_data sq t i =
     bindS (statement sq (SelectData (c_str t) (c_str i)) ''get_row_data'') (\<lambda>(rs, _).
       returnS (case rs of row # _ \<Rightarrow> Some (column_text 0 row) | [] \<Rightarrow> None))"

definition update_row_data :: "'w sqlite \<Rightarrow> string \<Rightarrow> string \<Rightarrow> string \<Rightarrow> ('w, bool) store_op" where
  "update_row_data sq t i v =
     bindS (statement sq (UpdateData (c_str v) (c_str t) (c_str i)) ''update_row_data'') (\<lambda>(_, n). returnS (n > 0))"

record ClaimedRow =
  cr_table :: string
  cr_id :: string
  cr_data :: string

definition read_claimed :: "sql_value list \<Rightarrow> ClaimedRow" where
  "read_claimed row = \<lparr>cr_table = column_text 0 row, cr_id = column_text 1 row, cr_data = column_text 2 row\<rparr>"

text \<open>The limit is converted to a signed 64-bit number.\<close>

definition claim_pending :: "'w sqlite \<Rightarrow> u64 \<Rightarrow> ('w, ClaimedRow list) store_op" where
  "claim_pending sq limit =
     bindS (statement sq (ClaimRows (sint limit)) ''claim_pending'') (\<lambda>(rs, _). returnS (map read_claimed rs))"

definition mark_done :: "'w sqlite \<Rightarrow> string \<Rightarrow> string \<Rightarrow> ('w, unit) store_op" where
  "mark_done sq t i = bindS (statement sq (DeleteRow (c_str t) (c_str i)) ''mark_done'') (\<lambda>_. returnS ())"

section \<open>What the store holds\<close>

text \<open>The staged rows by table and id: their data and whether a worker has claimed them.\<close>

definition staged :: "BackfillDb \<Rightarrow> string \<times> string \<rightharpoonup> string \<times> bool" where
  "staged db = map_of (map (\<lambda>r. (br_key r, br_data r, claimed_row r)) (backfill_rows db))"

definition pending_keys :: "('k \<rightharpoonup> 'd \<times> bool) \<Rightarrow> 'k set" where
  "pending_keys m = {k. \<exists>d. m k = Some (d, False)}"

definition clean_row :: "BackfillRow \<Rightarrow> bool" where
  "clean_row r \<longleftrightarrow> c_str (br_table r) = br_table r \<and> c_str (br_id r) = br_id r \<and> c_str (br_data r) = br_data r
     \<and> (pending_row r \<or> claimed_row r)"

definition store_inv :: "BackfillDb \<Rightarrow> bool" where
  "store_inv db \<longleftrightarrow> distinct (map br_key (backfill_rows db)) \<and> (\<forall>r \<in> set (backfill_rows db). clean_row r)
     \<and> distinct (map bt_table (backfill_tables db))
     \<and> (\<forall>b \<in> set (backfill_tables db). bt_status b = ''in_progress'' \<or> bt_status b = ''complete'')"

text \<open>A scan visits every row once.\<close>

definition scans_all :: "'w sqlite \<Rightarrow> bool" where
  "scans_all sq \<longleftrightarrow> (\<forall>w xs. mset (sq_scan sq w xs) = mset xs)"

lemma statement_cases:
  obtains (failed) w' e where "statement sq q who (db, w) = ((db, w'), Inl (Throw e))"
    | (ran) w' where "statement sq q who (db, w)
        = ((fst (run_sql (sq_scan sq w') q db), w'), Inr (snd (run_sql (sq_scan sq w') q db)))"
proof -
  obtain w1 p where p: "sq_prepare sq q w = (w1, p)" by (cases "sq_prepare sq q w")
  obtain w2 t where t: "sq_step sq q w1 = (w2, t)" by (cases "sq_step sq q w1")
  show thesis
  proof (cases p)
    case (Some m)
    then show thesis using p by (intro failed) (simp add: statement_def prepare_or_throw_def bindS_def)
  next
    case None
    then have st: "statement sq q who (db, w) = step_or_throw sq q who (db, w1)"
      using p by (simp add: statement_def prepare_or_throw_def bindS_def)
    show thesis
    proof (cases t)
      case (Some m)
      then show thesis using t by (intro failed [of w2]) (simp add: st step_or_throw_def)
    next
      case None
      then show thesis using t by (intro ran [of w2]) (simp add: st step_or_throw_def split: prod.splits)
    qed
  qed
qed

lemma exec_cases:
  obtains (failed) w' e where "exec_or_throw sq q (db, w) = ((db, w'), Inl (Throw e))"
    | (ran) w' where "exec_or_throw sq q (db, w) = ((fst (run_sql (sq_scan sq w') q db), w'), Inr ())"
proof -
  obtain w1 p where p: "sq_exec sq q w = (w1, p)" by (cases "sq_exec sq q w")
  show thesis
  proof (cases p)
    case (Some m)
    then show thesis using p by (intro failed [of w1]) (simp add: exec_or_throw_def)
  next
    case None
    then show thesis using p by (intro ran [of w1]) (simp add: exec_or_throw_def)
  qed
qed

lemma staged_map:
  assumes "\<And>r. br_key (h r) = br_key r"
  shows "staged (db\<lparr>backfill_rows := map h (backfill_rows db)\<rparr>) k =
    map_option (\<lambda>r. (br_data (h r), claimed_row (h r))) (map_of (map (\<lambda>r. (br_key r, r)) (backfill_rows db)) k)"
proof -
  have "map_of (map (\<lambda>r. (br_key r, br_data r, claimed_row r)) (map h rs)) k =
      map_option (\<lambda>r. (br_data (h r), claimed_row (h r))) (map_of (map (\<lambda>r. (br_key r, r)) rs) k)" for rs
    using assms by (induction rs) auto
  then show ?thesis by (simp add: staged_def)
qed

lemma staged_alt: "staged db k = map_option (\<lambda>r. (br_data r, claimed_row r)) (map_of (map (\<lambda>r. (br_key r, r)) (backfill_rows db)) k)"
  using staged_map [of "\<lambda>r. r" db k] by simp

lemma row_lookup:
  assumes "store_inv db"
  shows "map_of (map (\<lambda>r. (br_key r, r)) (backfill_rows db)) k = Some r \<longleftrightarrow> r \<in> set (backfill_rows db) \<and> br_key r = k"
  using assms by (subst map_of_eq_Some_iff) (auto simp: store_inv_def comp_def)

lemma dom_staged: "dom (staged db) = br_key ` set (backfill_rows db)"
  by (auto simp: staged_def dom_map_of_conv_image_fst image_image)

lemma staged_None: "staged db k = None \<longleftrightarrow> k \<notin> br_key ` set (backfill_rows db)"
  unfolding dom_staged [symmetric] domIff not_not ..

lemma staged_Some:
  assumes "store_inv db"
  shows "staged db k = Some (d, c) \<longleftrightarrow> (\<exists>r \<in> set (backfill_rows db). br_key r = k \<and> br_data r = d \<and> claimed_row r = c)"
  using row_lookup [OF assms] by (auto simp: staged_alt map_option_eq_Some)

lemma store_inv_map:
  assumes "store_inv db" "\<And>r. br_key (h r) = br_key r" "\<And>r. clean_row r \<Longrightarrow> clean_row (h r)"
  shows "store_inv (db\<lparr>backfill_rows := map h (backfill_rows db)\<rparr>)"
proof -
  have "map br_key (map h (backfill_rows db)) = map br_key (backfill_rows db)" using assms(2) by simp
  then show ?thesis using assms(1,3) by (simp add: store_inv_def del: map_map)
qed

lemma pending_count:
  assumes "store_inv db"
  shows "card (pending_keys (staged db)) = length (filter pending_row (backfill_rows db))"
proof -
  have "pending_keys (staged db) = br_key ` set (filter pending_row (backfill_rows db))"
  proof (rule set_eqI)
    fix k
    have "(\<exists>r \<in> set (backfill_rows db). br_key r = k \<and> \<not> claimed_row r) \<longleftrightarrow>
        (\<exists>r \<in> set (backfill_rows db). br_key r = k \<and> pending_row r)"
      using assms by (intro bex_cong refl) (auto simp: store_inv_def clean_row_def)
    moreover have "k \<in> pending_keys (staged db) \<longleftrightarrow> (\<exists>r \<in> set (backfill_rows db). br_key r = k \<and> \<not> claimed_row r)"
      unfolding pending_keys_def mem_Collect_eq staged_Some [OF assms] by blast
    moreover have "k \<in> br_key ` set (filter pending_row (backfill_rows db)) \<longleftrightarrow>
        (\<exists>r \<in> set (backfill_rows db). br_key r = k \<and> pending_row r)"
      by (cases k) (simp add: image_iff Bex_def conj_ac eq_commute)
    ultimately show "k \<in> pending_keys (staged db) \<longleftrightarrow> k \<in> br_key ` set (filter pending_row (backfill_rows db))"
      by (simp only:)
  qed
  moreover have "distinct (map br_key (filter pending_row (backfill_rows db)))"
    using assms by (simp add: store_inv_def distinct_map_filter)
  ultimately show ?thesis using distinct_card [of "map br_key (filter pending_row (backfill_rows db))"] by simp
qed

section \<open>The effect of each statement\<close>

lemma run_insert:
  assumes "store_inv db" "c_str t = t" "c_str i = i" "c_str v = v"
  shows "store_inv (fst (run_sql scan (InsertRow t i v) db))"
    "staged (fst (run_sql scan (InsertRow t i v) db)) = (if staged db (t, i) = None then (staged db)((t, i) \<mapsto> (v, False)) else staged db)"
proof -
  note n = staged_None [of db "(t, i)"]
  show "store_inv (fst (run_sql scan (InsertRow t i v) db))"
    using assms by (auto simp: store_inv_def clean_row_def)
  show "staged (fst (run_sql scan (InsertRow t i v) db)) = (if staged db (t, i) = None then (staged db)((t, i) \<mapsto> (v, False)) else staged db)"
  proof (cases "staged db (t, i) = None")
    case True
    then have "(t, i) \<notin> dom (map_of (map (\<lambda>r. (br_key r, br_data r, claimed_row r)) (backfill_rows db)))"
      by (simp add: staged_def domIff)
    then show ?thesis using True n by (auto simp: staged_def fun_eq_iff map_add_def split: option.splits)
  next
    case False
    then show ?thesis using n by (simp del: not_None_eq)
  qed
qed

lemma run_update:
  assumes "store_inv db" "c_str v = v"
  shows "store_inv (fst (run_sql scan (UpdateData v t i) db))"
    "staged (fst (run_sql scan (UpdateData v t i) db)) = (staged db)((t, i) := map_option (\<lambda>(_, c). (v, c)) (staged db (t, i)))"
    "0 < snd (snd (run_sql scan (UpdateData v t i) db)) \<longleftrightarrow> staged db (t, i) \<noteq> None"
proof -
  show "store_inv (fst (run_sql scan (UpdateData v t i) db))"
    using assms by simp (rule store_inv_map; auto simp: clean_row_def)
  show "staged (fst (run_sql scan (UpdateData v t i) db)) = (staged db)((t, i) := map_option (\<lambda>(_, c). (v, c)) (staged db (t, i)))"
  proof
    fix k
    let ?h = "\<lambda>r. if br_key r = (t, i) then r\<lparr>br_data := v\<rparr> else r"
    let ?r = "map_of (map (\<lambda>r. (br_key r, r)) (backfill_rows db))"
    have key: "\<And>r. ?r k = Some r \<Longrightarrow> br_key r = k" using row_lookup [OF assms(1)] by simp
    have "map_option (\<lambda>r. (br_data (?h r), claimed_row (?h r))) (?r k)
        = ((staged db)((t, i) := map_option (\<lambda>(_, c). (v, c)) (staged db (t, i)))) k"
    proof (cases "?r k")
      case None
      then show ?thesis by (auto simp: staged_alt)
    next
      case (Some r)
      then show ?thesis using key [OF Some] by (auto simp: staged_alt)
    qed
    then show "staged (fst (run_sql scan (UpdateData v t i) db)) k =
        ((staged db)((t, i) := map_option (\<lambda>(_, c). (v, c)) (staged db (t, i)))) k"
      using staged_map [of ?h db k] by simp
  qed
  show "0 < snd (snd (run_sql scan (UpdateData v t i) db)) \<longleftrightarrow> staged db (t, i) \<noteq> None"
    unfolding staged_None by (auto simp: filter_empty_conv image_iff)
qed

lemma run_release:
  assumes "store_inv db"
  shows "store_inv (fst (run_sql scan ReleaseClaims db))"
    "staged (fst (run_sql scan ReleaseClaims db)) = (\<lambda>k. map_option (\<lambda>(d, _). (d, False)) (staged db k))"
proof -
  show "store_inv (fst (run_sql scan ReleaseClaims db))"
    using assms by simp (rule store_inv_map; auto simp: clean_row_def)
  show "staged (fst (run_sql scan ReleaseClaims db)) = (\<lambda>k. map_option (\<lambda>(d, _). (d, False)) (staged db k))"
  proof
    fix k
    let ?h = "\<lambda>r. if claimed_row r then r\<lparr>br_status := ''pending''\<rparr> else r"
    have "map_option (\<lambda>r. (br_data (?h r), claimed_row (?h r))) (map_of (map (\<lambda>r. (br_key r, r)) (backfill_rows db)) k)
        = map_option (\<lambda>(d, _). (d, False)) (staged db k)"
      by (cases "map_of (map (\<lambda>r. (br_key r, r)) (backfill_rows db)) k") (simp_all add: staged_alt)
    then show "staged (fst (run_sql scan ReleaseClaims db)) k = map_option (\<lambda>(d, _). (d, False)) (staged db k)"
      using staged_map [of ?h db k] by simp
  qed
qed

lemma run_delete:
  assumes "store_inv db"
  shows "store_inv (fst (run_sql scan (DeleteRow t i) db))" "staged (fst (run_sql scan (DeleteRow t i) db)) = (staged db)((t, i) := None)"
proof -
  show "store_inv (fst (run_sql scan (DeleteRow t i) db))" using assms by (auto simp: store_inv_def distinct_map_filter)
  have "map_of (map (\<lambda>r. (br_key r, g r)) (filter (\<lambda>r. br_key r \<noteq> (t, i)) rs)) = (map_of (map (\<lambda>r. (br_key r, g r)) rs))((t, i) := None)"
    for rs and g :: "BackfillRow \<Rightarrow> string \<times> bool"
    by (induction rs) auto
  then show "staged (fst (run_sql scan (DeleteRow t i) db)) = (staged db)((t, i) := None)" by (simp add: staged_def)
qed

lemma run_select:
  assumes "store_inv db"
  shows "case fst (snd (run_sql scan (SelectData t i) db)) of
      [] \<Rightarrow> staged db (t, i) = None | row # _ \<Rightarrow> \<exists>c. staged db (t, i) = Some (column_text 0 row, c)"
proof (cases "filter (\<lambda>r. br_key r = (t, i)) (backfill_rows db)")
  case Nil
  then have "staged db (t, i) = None" unfolding staged_None by (auto simp: filter_empty_conv)
  then show ?thesis using Nil by simp
next
  case (Cons r rs)
  then have "r \<in> set (backfill_rows db)" "br_key r = (t, i)" by (auto dest: filter_eq_ConsD)
  then have "staged db (t, i) = Some (br_data r, claimed_row r)" "clean_row r"
    using assms by (auto simp: staged_Some [OF assms] store_inv_def)
  then show ?thesis using Cons by (simp add: clean_row_def)
qed

abbreviation cr_key :: "ClaimedRow \<Rightarrow> string \<times> string" where
  "cr_key c \<equiv> (cr_table c, cr_id c)"

definition claims :: "'k set \<Rightarrow> ('k \<rightharpoonup> 'd \<times> bool) \<Rightarrow> ('k \<rightharpoonup> 'd \<times> bool)" where
  "claims K m = (\<lambda>k. if k \<in> K then map_option (\<lambda>(d, _). (d, True)) (m k) else m k)"

text \<open>The rows a claim may return: distinct pending ones, as many as there are up to the limit.\<close>

definition claimable :: "u64 \<Rightarrow> (string \<times> string \<rightharpoonup> string \<times> bool) \<Rightarrow> ClaimedRow list \<Rightarrow> bool" where
  "claimable n m cs \<longleftrightarrow> distinct (map cr_key cs) \<and> (\<forall>c \<in> set cs. m (cr_key c) = Some (cr_data c, False))
     \<and> length cs = (if sint n < 0 then card (pending_keys m) else min (nat (sint n)) (card (pending_keys m)))"

lemma run_claim:
  fixes n :: u64
  assumes inv: "store_inv db" and scan: "mset (scan (backfill_rows db)) = mset (backfill_rows db)"
  defines "cs \<equiv> map read_claimed (fst (snd (run_sql scan (ClaimRows (sint n)) db)))"
  shows "store_inv (fst (run_sql scan (ClaimRows (sint n)) db))" "claimable n (staged db) cs"
    "staged (fst (run_sql scan (ClaimRows (sint n)) db)) = claims (set (map cr_key cs)) (staged db)"
proof -
  define all where "all = filter pending_row (scan (backfill_rows db))"
  define picked where "picked = sql_limit (sint n) all"
  have sub: "set picked \<subseteq> set all"
    using set_take_subset [of "nat (sint n)" all] by (auto simp: picked_def sql_limit_def)
  have all: "set all = {r \<in> set (backfill_rows db). pending_row r}"
    using mset_eq_setD [OF scan] by (simp add: all_def)
  have "distinct (map br_key (scan (backfill_rows db)))"
    using inv scan by (simp add: store_inv_def) (metis mset_eq_imp_distinct_iff mset_map)
  then have da: "distinct (map br_key all)" by (simp add: all_def distinct_map_filter)
  have dp: "distinct (map br_key picked)"
    using da distinct_take [of "map br_key all" "nat (sint n)"] by (auto simp: picked_def sql_limit_def take_map)
  have clean: "clean_row r" if "r \<in> set picked" for r using that sub all inv by (auto simp: store_inv_def)
  have len: "length all = card (pending_keys (staged db))"
    using pending_count [OF inv] scan by (simp add: all_def) (metis mset_filter size_mset)
  have cs: "cs = map (\<lambda>r. \<lparr>cr_table = br_table r, cr_id = br_id r, cr_data = br_data r\<rparr>) picked"
    using clean by (simp add: cs_def Let_def picked_def [symmetric] all_def [symmetric] read_claimed_def clean_row_def)
  have keys: "map cr_key cs = map br_key picked" by (simp add: cs)
  show "store_inv (fst (run_sql scan (ClaimRows (sint n)) db))"
    using inv by (simp add: Let_def) (rule store_inv_map; auto simp: clean_row_def)
  have "\<forall>r \<in> set picked. staged db (br_key r) = Some (br_data r, False)"
  proof
    fix r assume "r \<in> set picked"
    then have "r \<in> set (backfill_rows db)" "\<not> claimed_row r" using sub all by auto
    then show "staged db (br_key r) = Some (br_data r, False)"
      unfolding staged_Some [OF inv] by (intro bexI [of _ r]) simp_all
  qed
  moreover have "length picked = (if sint n < 0 then length all else min (nat (sint n)) (length all))"
    by (simp add: picked_def sql_limit_def min.commute)
  ultimately show "claimable n (staged db) cs" using dp unfolding claimable_def keys by (simp add: cs len)
  let ?h = "\<lambda>r. if br_key r \<in> br_key ` set picked then r\<lparr>br_status := ''claimed''\<rparr> else r"
  show "staged (fst (run_sql scan (ClaimRows (sint n)) db)) = claims (set (map cr_key cs)) (staged db)"
  proof
    fix k
    have "map_option (\<lambda>r. (br_data (?h r), claimed_row (?h r))) (map_of (map (\<lambda>r. (br_key r, r)) (backfill_rows db)) k)
        = claims (br_key ` set picked) (staged db) k"
    proof (cases "map_of (map (\<lambda>r. (br_key r, r)) (backfill_rows db)) k")
      case (Some r)
      then have "br_key r = k" using row_lookup [OF inv] by simp
      then show ?thesis using Some by (simp add: claims_def staged_alt)
    qed (simp add: claims_def staged_alt)
    then show "staged (fst (run_sql scan (ClaimRows (sint n)) db)) k = claims (set (map cr_key cs)) (staged db) k"
      using staged_map [of ?h db k] by (simp add: keys Let_def picked_def [symmetric] all_def [symmetric] del: if_split)
  qed
qed

section \<open>The contract\<close>

text \<open>
  What the store promises its clients. A call that throws leaves the staged rows as they were; what
  the clients build on that is proved once, here: \<open>remove_all\<close> is how a worker clears a delivered
  batch, \<open>insert_mono\<close> how a dump stages a row.
\<close>

locale row_store =
  fixes ok :: "'s \<Rightarrow> bool" and view :: "'s \<Rightarrow> string \<times> string \<rightharpoonup> string \<times> bool"
    and insert_op :: "string \<Rightarrow> string \<Rightarrow> string \<Rightarrow> ('s, unit) op"
    and get_op :: "string \<Rightarrow> string \<Rightarrow> ('s, string option) op"
    and update_op :: "string \<Rightarrow> string \<Rightarrow> string \<Rightarrow> ('s, bool) op"
    and remove_op :: "string \<Rightarrow> string \<Rightarrow> ('s, unit) op"
    and claim_op :: "u64 \<Rightarrow> ('s, ClaimedRow list) op"
    and release_op :: "('s, unit) op"
  assumes view_finite: "ok s \<Longrightarrow> finite (dom (view s))"
    and insert_law: "ok s \<Longrightarrow> insert_op t i v s = (s', r) \<Longrightarrow> ok s' \<and> (case r of Inl e \<Rightarrow> e \<noteq> OutOfBounds \<and> view s' = view s
      | Inr _ \<Rightarrow> view s' = (if view s (c_str t, c_str i) = None then (view s)((c_str t, c_str i) \<mapsto> (c_str v, False)) else view s))"
    and get_law: "ok s \<Longrightarrow> get_op t i s = (s', rg) \<Longrightarrow> ok s' \<and> view s' = view s
      \<and> (case rg of Inl e \<Rightarrow> e \<noteq> OutOfBounds | Inr x \<Rightarrow> x = map_option fst (view s (c_str t, c_str i)))"
    and update_law: "ok s \<Longrightarrow> update_op t i v s = (s', ru) \<Longrightarrow> ok s' \<and> (case ru of Inl e \<Rightarrow> e \<noteq> OutOfBounds \<and> view s' = view s
      | Inr b \<Rightarrow> b = (view s (c_str t, c_str i) \<noteq> None)
          \<and> view s' = (view s)((c_str t, c_str i) := map_option (\<lambda>(_, c). (c_str v, c)) (view s (c_str t, c_str i))))"
    and remove_law: "ok s \<Longrightarrow> remove_op t i s = (s', r) \<Longrightarrow> ok s' \<and> (case r of Inl e \<Rightarrow> e \<noteq> OutOfBounds \<and> view s' = view s
      | Inr _ \<Rightarrow> view s' = (view s)((c_str t, c_str i) := None))"
    and claim_law: "ok s \<Longrightarrow> claim_op n s = (s', rc) \<Longrightarrow> ok s' \<and> (case rc of Inl e \<Rightarrow> e \<noteq> OutOfBounds \<and> view s' = view s
      | Inr cs \<Rightarrow> claimable n (view s) cs \<and> view s' = claims (set (map cr_key cs)) (view s)
          \<and> (\<forall>c \<in> set cs. c_str (cr_table c) = cr_table c \<and> c_str (cr_id c) = cr_id c))"
    and release_law: "ok s \<Longrightarrow> release_op s = (s', r) \<Longrightarrow> ok s' \<and> (case r of Inl e \<Rightarrow> e \<noteq> OutOfBounds \<and> view s' = view s
      | Inr _ \<Rightarrow> view s' = (\<lambda>k. map_option (\<lambda>(d, _). (d, False)) (view s k)))"
begin

lemma remove_all:
  assumes "ok s" "forS (\<lambda>c. remove_op (cr_table c) (cr_id c)) cs s = (s', r)"
    and "\<forall>c \<in> set cs. c_str (cr_table c) = cr_table c \<and> c_str (cr_id c) = cr_id c"
  shows "ok s' \<and> (\<exists>n \<le> length cs. view s' = view s |` (- set (map cr_key (take n cs))) \<and> (r = Inr () \<longrightarrow> n = length cs))
     \<and> r \<noteq> Inl OutOfBounds"
  using assms
proof (induction cs arbitrary: s)
  case (Cons c cs)
  have "bindS (remove_op (cr_table c) (cr_id c)) (\<lambda>_. forS (\<lambda>c. remove_op (cr_table c) (cr_id c)) cs) s = (s', r)"
    using Cons.prems(2) by simp
  then show ?case
  proof (cases rule: bindS_cases)
    case (stop e)
    then show ?thesis using remove_law [OF Cons.prems(1) stop(1)] by (auto intro!: exI [of _ 0])
  next
    case (step s1 u)
    have s1: "ok s1" "view s1 = (view s)(cr_key c := None)"
      using remove_law [OF Cons.prems(1) step(1)] Cons.prems(3) by simp_all
    obtain n where n: "ok s'" "n \<le> length cs" "view s' = view s1 |` (- set (map cr_key (take n cs)))"
      "r = Inr () \<longrightarrow> n = length cs" "r \<noteq> Inl OutOfBounds"
      using Cons.IH [OF s1(1) step(2)] Cons.prems(3) by auto
    have "view s' = view s |` (- set (map cr_key (take (Suc n) (c # cs))))"
      unfolding n(3) s1(2) by (auto simp: restrict_map_def fun_eq_iff)
    then show ?thesis using n by (intro conjI exI [of _ "Suc n"]) auto
  qed
qed auto

lemma insert_mono:
  assumes "ok s" "insert_op t i v s = (s', r)"
  shows "ok s'" "view s \<subseteq>\<^sub>m view s'" "r = Inr () \<Longrightarrow> (c_str t, c_str i) \<in> dom (view s')"
    "view s' k = Some y \<Longrightarrow> view s k = None \<Longrightarrow> k = (c_str t, c_str i) \<and> y = (c_str v, False)" "r \<noteq> Inl OutOfBounds"
  using insert_law [OF assms] by (auto simp: map_le_def split: sum.splits if_splits)

end

text \<open>The SQLite store keeps the contract.\<close>

lemma statement_result:
  assumes "bindS (statement sq q who) f (db, w) = (s', r)"
  shows "(\<exists>w' e. s' = (db, w') \<and> r = Inl (Throw e)) \<or>
    (\<exists>w'. f (snd (run_sql (sq_scan sq w') q db)) (fst (run_sql (sq_scan sq w') q db), w') = (s', r))"
proof (rule statement_cases [where sq = sq and q = q and who = who and db = db and w = w])
  fix w' e assume "statement sq q who (db, w) = ((db, w'), Inl (Throw e))"
  then have "s' = (db, w')" "r = Inl (Throw e)" using assms by auto
  then show ?thesis by blast
next
  fix w'
  assume "statement sq q who (db, w) = ((fst (run_sql (sq_scan sq w') q db), w'), Inr (snd (run_sql (sq_scan sq w') q db)))"
  then show ?thesis using assms by (intro disjI2 exI [of _ w']) (simp del: run_sql.simps)
qed

definition store_ok :: "'w sqlite \<Rightarrow> BackfillDb \<times> 'w \<Rightarrow> bool" where
  "store_ok sq s \<longleftrightarrow> store_inv (fst s) \<and> scans_all sq"

definition store_view :: "BackfillDb \<times> 'w \<Rightarrow> string \<times> string \<rightharpoonup> string \<times> bool" where
  "store_view s = staged (fst s)"

lemmas store_defs = store_ok_def store_view_def

lemma insert_row_law:
  assumes "store_ok sq s" "insert_row sq t i v s = (s', r)"
  shows "store_ok sq s' \<and> (case r of Inl e \<Rightarrow> e \<noteq> OutOfBounds \<and> store_view s' = store_view s
      | Inr _ \<Rightarrow> store_view s' = (if store_view s (c_str t, c_str i) = None
          then (store_view s)((c_str t, c_str i) \<mapsto> (c_str v, False)) else store_view s))"
proof -
  obtain db w where s: "s = (db, w)" by (cases s)
  note ins = run_insert [where db = db and t = "c_str t" and i = "c_str i" and v = "c_str v"]
  show ?thesis using statement_result [OF assms(2) [unfolded insert_row_def s]] assms(1) ins
    by (auto simp: s store_defs simp del: run_sql.simps)
qed

lemma get_row_data_law:
  assumes "store_ok sq s" "get_row_data sq t i s = (s', r)"
  shows "store_ok sq s' \<and> store_view s' = store_view s
      \<and> (case r of Inl e \<Rightarrow> e \<noteq> OutOfBounds | Inr x \<Rightarrow> x = map_option fst (store_view s (c_str t, c_str i)))"
proof -
  obtain db w where s: "s = (db, w)" by (cases s)
  have sel: "fst (run_sql scan (SelectData (c_str t) (c_str i)) db) = db" for scan by simp
  have inv: "store_inv db" using assms(1) by (simp add: s store_defs)
  show ?thesis using statement_result [OF assms(2) [unfolded get_row_data_def s]]
  proof (elim disjE exE conjE)
    fix w'
    let ?q = "run_sql (sq_scan sq w') (SelectData (c_str t) (c_str i)) db"
    assume "(case snd ?q of (rs, _) \<Rightarrow> returnS (case rs of [] \<Rightarrow> None | row # _ \<Rightarrow> Some (column_text 0 row))) (fst ?q, w') = (s', r)"
    then have "s' = (db, w')" "r = Inr (case fst (snd ?q) of [] \<Rightarrow> None | row # _ \<Rightarrow> Some (column_text 0 row))"
      unfolding sel by (simp_all add: case_prod_beta del: run_sql.simps column_text.simps)
    then show ?thesis using run_select [OF inv, where scan = "sq_scan sq w'" and t = "c_str t" and i = "c_str i"] assms(1)
      by (auto simp: s store_defs split: list.splits simp del: run_sql.simps column_text.simps)
  qed (use assms(1) in \<open>simp add: s store_defs\<close>)
qed

lemma update_row_data_law:
  assumes "store_ok sq s" "update_row_data sq t i v s = (s', r)"
  shows "store_ok sq s' \<and> (case r of Inl e \<Rightarrow> e \<noteq> OutOfBounds \<and> store_view s' = store_view s
      | Inr b \<Rightarrow> b = (store_view s (c_str t, c_str i) \<noteq> None) \<and> store_view s' = (store_view s)((c_str t, c_str i) :=
          map_option (\<lambda>(_, c). (c_str v, c)) (store_view s (c_str t, c_str i))))"
proof -
  obtain db w where s: "s = (db, w)" by (cases s)
  note upd = run_update [where db = db and v = "c_str v" and t = "c_str t" and i = "c_str i"]
  show ?thesis using statement_result [OF assms(2) [unfolded update_row_data_def s]] assms(1) upd
    by (auto simp: s store_defs case_prod_beta simp del: run_sql.simps not_None_eq)
qed

lemma mark_done_law:
  assumes "store_ok sq s" "mark_done sq t i s = (s', r)"
  shows "store_ok sq s' \<and> (case r of Inl e \<Rightarrow> e \<noteq> OutOfBounds \<and> store_view s' = store_view s
      | Inr _ \<Rightarrow> store_view s' = (store_view s)((c_str t, c_str i) := None))"
proof -
  obtain db w where s: "s = (db, w)" by (cases s)
  note del = run_delete [where db = db and t = "c_str t" and i = "c_str i"]
  show ?thesis using statement_result [OF assms(2) [unfolded mark_done_def s]] assms(1) del
    by (auto simp: s store_defs simp del: run_sql.simps)
qed

lemma reset_stale_claims_law:
  assumes "store_ok sq s" "reset_stale_claims sq s = (s', r)"
  shows "store_ok sq s' \<and> (case r of Inl e \<Rightarrow> e \<noteq> OutOfBounds \<and> store_view s' = store_view s
      | Inr _ \<Rightarrow> store_view s' = (\<lambda>k. map_option (\<lambda>(d, _). (d, False)) (store_view s k)))"
proof -
  obtain db w where s: "s = (db, w)" by (cases s)
  have inv: "store_inv db" "scans_all sq" using assms(1) by (simp_all add: s store_defs)
  show ?thesis
  proof (rule exec_cases [where sq = sq and q = ReleaseClaims and db = db and w = w])
    fix w' e assume "exec_or_throw sq ReleaseClaims (db, w) = ((db, w'), Inl (Throw e))"
    then show ?thesis using assms inv by (auto simp: s store_defs reset_stale_claims_def)
  next
    fix w' assume "exec_or_throw sq ReleaseClaims (db, w) = ((fst (run_sql (sq_scan sq w') ReleaseClaims db), w'), Inr ())"
    then show ?thesis using assms(2) inv run_release [OF inv(1)]
      by (auto simp: s store_defs reset_stale_claims_def simp del: run_sql.simps)
  qed
qed

lemma claim_pending_law:
  assumes "store_ok sq s" "claim_pending sq n s = (s', r)"
  shows "store_ok sq s' \<and> (case r of Inl e \<Rightarrow> e \<noteq> OutOfBounds \<and> store_view s' = store_view s
      | Inr cs \<Rightarrow> claimable n (store_view s) cs \<and> store_view s' = claims (set (map cr_key cs)) (store_view s)
          \<and> (\<forall>c \<in> set cs. c_str (cr_table c) = cr_table c \<and> c_str (cr_id c) = cr_id c))"
proof -
  obtain db w where s: "s = (db, w)" by (cases s)
  have inv: "store_inv db" and sc: "\<And>w'. mset (sq_scan sq w' (backfill_rows db)) = mset (backfill_rows db)"
    using assms(1) by (auto simp: s store_defs scans_all_def)
  note clm = run_claim [where scan = "sq_scan sq w'" and n = n for w', OF inv sc]
  have cl: "c_str (cr_table (read_claimed row)) = cr_table (read_claimed row)" "c_str (cr_id (read_claimed row)) = cr_id (read_claimed row)" for row
    by (auto simp: read_claimed_def split: sql_value.splits) (simp add: c_str_def)+
  show ?thesis using statement_result [OF assms(2) [unfolded claim_pending_def s]] assms(1) clm cl
    by (auto simp: s store_defs case_prod_beta simp del: run_sql.simps not_None_eq)
qed

interpretation bf: row_store "store_ok sq" store_view "insert_row sq" "get_row_data sq" "update_row_data sq"
  "mark_done sq" "claim_pending sq" "reset_stale_claims sq" for sq
  by unfold_locales
     (simp add: store_defs dom_staged, erule (1) insert_row_law, erule (1) get_row_data_law, erule (1) update_row_data_law,
      erule (1) mark_done_law, erule (1) claim_pending_law, erule (1) reset_stale_claims_law)

section \<open>The table markers\<close>

definition dumped :: "BackfillDb \<Rightarrow> string \<Rightarrow> bool" where
  "dumped db t \<longleftrightarrow> (\<exists>b \<in> set (backfill_tables db). bt_table b = t \<and> bt_status b = ''complete'')"

lemma is_table_dumped_law:
  assumes "store_ok sq s" "is_table_dumped sq t s = (s', r)"
  shows "fst s' = fst s \<and> (case r of Inl e \<Rightarrow> e \<noteq> OutOfBounds | Inr b \<Rightarrow> b = dumped (fst s) (c_str t))"
proof -
  obtain db w where s: "s = (db, w)" by (cases s)
  have inv: "store_inv db" using assms(1) by (simp add: s store_defs)
  have status: "c_str (bt_status b) = bt_status b" if "b \<in> set (backfill_tables db)" for b
    using inv that by (auto simp: store_inv_def c_str_def)
  have inj: "inj_on bt_table (set (backfill_tables db))" using inv by (simp add: store_inv_def distinct_map)
  have one: "(case map (\<lambda>b. [SText (bt_status b)]) (filter (\<lambda>b. bt_table b = t) (backfill_tables db)) of
        [] \<Rightarrow> False | row # _ \<Rightarrow> column_text 0 row = ''complete'') = dumped db t" for t
  proof (cases "filter (\<lambda>b. bt_table b = t) (backfill_tables db)")
    case Nil
    then show ?thesis by (auto simp: dumped_def filter_empty_conv)
  next
    case (Cons b bs)
    then have b: "b \<in> set (backfill_tables db)" "bt_table b = t" by (auto dest: filter_eq_ConsD)
    have "b' = b" if "b' \<in> set (backfill_tables db)" "bt_table b' = t" for b'
      using inj_onD [OF inj _ that(1) b(1)] b(2) that(2) by simp
    then have "dumped db t = (bt_status b = ''complete'')" using b unfolding dumped_def by blast
    then show ?thesis using status [OF b(1)] Cons by simp
  qed
  show ?thesis using statement_result [OF assms(2) [unfolded is_table_dumped_def s]] one [of "c_str t"]
    by (auto simp: s simp del: column_text.simps)
qed

lemma count_rows_law:
  assumes "count_rows_for_table sq t s = (s', r)"
  shows "fst s' = fst s \<and> r \<noteq> Inl OutOfBounds"
proof -
  obtain db w where s: "s = (db, w)" by (cases s)
  show ?thesis using statement_result [OF assms [unfolded count_rows_for_table_def s]]
    by (auto simp: s first_int_def)
qed

lemma mark_started_law:
  assumes "store_ok sq s" "mark_table_dump_started sq t s = (s', r)"
  shows "store_ok sq s' \<and> store_view s' = store_view s \<and> dumped (fst s') = dumped (fst s) \<and> r \<noteq> Inl OutOfBounds"
proof -
  obtain db w where s: "s = (db, w)" by (cases s)
  show ?thesis using statement_result [OF assms(2) [unfolded mark_table_dump_started_def s]] assms(1)
    by (auto simp: s store_defs store_inv_def dumped_def staged_def fun_eq_iff split: if_splits)
qed

lemma mark_dumped_law:
  assumes "store_ok sq s" "mark_table_dumped sq t n s = (s', r)"
  shows "store_ok sq s' \<and> store_view s' = store_view s \<and> r \<noteq> Inl OutOfBounds
     \<and> dumped (fst s') = (if r = Inr () then (\<lambda>t'. t' = c_str t \<or> dumped (fst s) t') else dumped (fst s))"
proof -
  obtain db w where s: "s = (db, w)" by (cases s)
  let ?h = "\<lambda>b. if bt_table b = c_str t then b\<lparr>bt_status := ''complete'', bt_count := Some n\<rparr> else b"
  have inv: "store_inv db" using assms(1) by (simp add: s store_defs)
  have keys: "map bt_table (map ?h (backfill_tables db)) = map bt_table (backfill_tables db)" by simp
  define db' where "db' = fst (run_sql id (CompleteTable (c_str t) n) db)"
  have run: "fst (run_sql scan (CompleteTable (c_str t) n) db) = db'" for scan by (simp add: db'_def)
  have rows: "backfill_rows db' = backfill_rows db" by (simp add: db'_def)
  have inv': "store_inv db'"
    using inv keys by (auto simp: db'_def store_inv_def simp del: map_map split: if_splits)
  have "dumped db' = (\<lambda>t'. t' = c_str t \<or> dumped db t')"
  proof (cases "c_str t \<in> bt_table ` set (backfill_tables db)")
    case True
    then have "dumped db' t' \<longleftrightarrow> (\<exists>b \<in> set (backfill_tables db). bt_table (?h b) = t' \<and> bt_status (?h b) = ''complete'')" for t'
      by (simp add: db'_def dumped_def del: if_image_distrib)
    moreover have "(\<exists>b \<in> set (backfill_tables db). bt_table (?h b) = t' \<and> bt_status (?h b) = ''complete'') \<longleftrightarrow> t' = c_str t \<or> dumped db t'" for t'
      using True by (cases "t' = c_str t") (auto simp: dumped_def)
    ultimately show ?thesis by (simp add: fun_eq_iff)
  qed (auto simp: db'_def dumped_def fun_eq_iff)
  then show ?thesis using statement_result [OF assms(2) [unfolded mark_table_dumped_def s]] assms(1) inv' rows
    by (auto simp: s store_defs staged_def run simp del: run_sql.simps)
qed

lemma insert_row_tables:
  assumes "insert_row sq t i v s = (s', r)"
  shows "dumped (fst s') = dumped (fst s)"
proof -
  obtain db w where s: "s = (db, w)" by (cases s)
  show ?thesis using statement_result [OF assms [unfolded insert_row_def s]]
    by (auto simp: s dumped_def split: if_splits)
qed

text \<open>A library whose calls succeed, for the sample runs.\<close>

definition quiet_sqlite :: "'w sqlite" where
  "quiet_sqlite = \<lparr>sq_open = (\<lambda>_ w. (w, None)), sq_exec = (\<lambda>_ w. (w, None)), sq_prepare = (\<lambda>_ w. (w, None)),
     sq_step = (\<lambda>_ w. (w, None)), sq_scan = (\<lambda>_ rs. rs)\<rparr>"

definition empty_db :: BackfillDb where
  "empty_db = \<lparr>backfill_rows = [], backfill_tables = []\<rparr>"

lemma quiet_scans: "scans_all quiet_sqlite"
  by (simp add: scans_all_def quiet_sqlite_def)

lemma empty_inv: "store_inv empty_db"
  by (simp add: store_inv_def empty_db_def)

end
