(* ===== verification/Backfill_Util.thy ===== *)
theory Backfill_Util
  imports Backfill_Store Table_Mapping Json_Library
begin

text \<open>
  The dump of the mapped tables and the reconciliation with live events:
  \<^verbatim>\<open>src/src/backfill_util.cpp\<close>. The connection to the source database is the parameter
  \<open>libpq_src\<close>; a reply carries its rows with \<open>None\<close> for SQL nulls. The JSON serialiser and parser
  are the ones of \<open>json_lib\<close>.
\<close>

section \<open>State and libraries\<close>

datatype pg_reply = Tuples "string option list list" | CopyBoth | OtherReply string

record 'w libpq_src =
  src_connect :: "string \<Rightarrow> 'w \<Rightarrow> 'w \<times> string option"
  src_exec :: "string \<Rightarrow> 'w \<Rightarrow> 'w \<times> pg_reply"
  src_error :: "'w \<Rightarrow> string"
  make_dirs :: "string \<Rightarrow> 'w \<Rightarrow> 'w \<times> string option"

record BackfillUtil =
  bu_conninfo :: string
  bu_mappings :: "TableMapping list"
  bu_store_path :: string
  bu_last_error :: string

definition new_BackfillUtil :: "string \<Rightarrow> TableMapping list \<Rightarrow> string \<Rightarrow> BackfillUtil" where
  "new_BackfillUtil ci tms path = \<lparr>bu_conninfo = ci, bu_mappings = tms, bu_store_path = path, bu_last_error = []\<rparr>"

definition liftE :: "'a result \<Rightarrow> ('s, 'a) op" where
  "liftE r s = (s, r)"

lemma bindS_liftE [simp]: "bindS (liftE (Inr x)) f s = f x s" "bindS (liftE (Inl e)) f s = (s, Inl e)"
  by (simp_all add: bindS_def liftE_def)

text \<open>\<^verbatim>\<open>std::filesystem::path::parent_path\<close> of a POSIX path.\<close>

definition parent_path :: "string \<Rightarrow> string" where
  "parent_path p =
     (let dir = rev (dropWhile (\<lambda>c. c \<noteq> CHR ''/'') (rev p));
          stripped = rev (dropWhile (\<lambda>c. c = CHR ''/'') (rev dir))
      in if stripped = [] then take 1 dir else stripped)"

definition util_open :: "'w sqlite \<Rightarrow> 'w libpq_src \<Rightarrow> BackfillUtil \<Rightarrow> ('w, unit) store_op" where
  "util_open sq pq u = (\<lambda>(db, w).
     if parent_path (bu_store_path u) \<noteq> [] then
       (case make_dirs pq (parent_path (bu_store_path u)) w of
          (w', Some e) \<Rightarrow> ((db, w'), Inl (Throw e))
        | (w', None) \<Rightarrow> store_open sq (bu_store_path u) (db, w'))
     else store_open sq (bu_store_path u) (db, w))"

definition set_table_mappings :: "TableMapping list \<Rightarrow> BackfillUtil \<Rightarrow> BackfillUtil" where
  "set_table_mappings tms u = u\<lparr>bu_mappings := tms\<rparr>"

definition util_reset :: "'w sqlite \<Rightarrow> ('w, unit) store_op" where
  "util_reset sq = store_reset sq"

definition util_reset_stale_claims :: "'w sqlite \<Rightarrow> ('w, unit) store_op" where
  "util_reset_stale_claims sq = reset_stale_claims sq"

definition has_prior_dump_state :: "'w sqlite \<Rightarrow> ('w, bool) store_op" where
  "has_prior_dump_state sq = has_any_dump_state sq"

definition has_pending_work :: "'w sqlite \<Rightarrow> ('w, bool) store_op" where
  "has_pending_work sq = has_pending sq"

section \<open>Columns and rows\<close>

definition find_mapping :: "TableMapping list \<Rightarrow> string \<Rightarrow> TableMapping option" where
  "find_mapping tms t = find (\<lambda>tm. source_table tm = t) tms"

fun column_value :: "ColumnValue list \<Rightarrow> string \<Rightarrow> string" where
  "column_value [] n = []"
| "column_value (col # cols) n =
     (if cv_name col = n then (if is_null col \<or> is_unchanged_toast col then [] else text_value col)
      else column_value cols n)"

definition get_column :: "DecodedRow \<Rightarrow> string \<Rightarrow> string" where
  "get_column row n = column_value (columns row) n"

text \<open>\<^verbatim>\<open>j[key] = v\<close>: null becomes an object, any other non-object throws.\<close>

fun json_assign :: "string \<Rightarrow> json \<Rightarrow> json \<Rightarrow> json result" where
  "json_assign k v JNull = Inr (JObj [(k, v)])"
| "json_assign k v (JObj ob) = Inr (JObj (obj_set k v ob))"
| "json_assign k v j = Inl (Throw (''[json.exception.type_error.305] cannot use operator[] with a string argument with '' @ json_type_name j))"

fun set_json_columns :: "ColumnValue list \<Rightarrow> string \<Rightarrow> json \<Rightarrow> json result" where
  "set_json_columns [] n j = Inr j"
| "set_json_columns (col # cols) n j =
     (if cv_name col \<noteq> n then set_json_columns cols n j
      else if is_unchanged_toast col then Inr j
      else json_assign n (if is_null col then JNull else JStr (text_value col)) j)"

definition set_json_column :: "DecodedRow \<Rightarrow> string \<Rightarrow> json \<Rightarrow> json result" where
  "set_json_column row n j = set_json_columns (columns row) n j"

text \<open>The columns of a row that the backfill keeps: id, text and metadata.\<close>

definition select_cols :: "TableMapping \<Rightarrow> string list" where
  "select_cols tm = [id_source tm, embed_source tm] @ map source_column (metadata_columns tm)"

fun set_all_columns :: "DecodedRow \<Rightarrow> string list \<Rightarrow> json \<Rightarrow> json result" where
  "set_all_columns row [] j = Inr j"
| "set_all_columns row (n # ns) j = bindE (set_json_column row n j) (set_all_columns row ns)"

definition merge_known_columns :: "DecodedRow \<Rightarrow> TableMapping \<Rightarrow> json \<Rightarrow> json result" where
  "merge_known_columns row tm j =
     bindE (set_json_column row (id_source tm) j) (\<lambda>j1.
     bindE (set_json_column row (embed_source tm) j1) (\<lambda>j2.
     set_all_columns row (map source_column (metadata_columns tm)) j2))"

section \<open>The dump\<close>

text \<open>One row of a reply: its JSON object and the text of its id column.\<close>

fun dump_columns :: "string \<Rightarrow> string list \<Rightarrow> string option list \<Rightarrow> json \<Rightarrow> string \<Rightarrow> (json \<times> string) result" where
  "dump_columns ids cols [] j i = Inr (j, i)"
| "dump_columns ids [] (v # vs) j i = Inl OutOfBounds"
| "dump_columns ids (c # cols) (v # vs) j i =
     (case v of
        None \<Rightarrow> bindE (json_assign c JNull j) (\<lambda>j'. dump_columns ids cols vs j' i)
      | Some x \<Rightarrow> bindE (json_assign c (JStr x) j) (\<lambda>j'. dump_columns ids cols vs j' (if c = ids then x else i)))"

definition dump_row :: "'w sqlite \<Rightarrow> json_lib \<Rightarrow> TableMapping \<Rightarrow> string option list \<Rightarrow> ('w, unit) store_op" where
  "dump_row sq jl tm vals =
     bindS (liftE (dump_columns (id_source tm) (select_cols tm) vals JNull [])) (\<lambda>(j, row_id).
       if row_id = [] then returnS ()
       else bindS (liftE (j_dump jl j)) (\<lambda>text. insert_row sq (source_table tm) row_id text))"

definition select_sql :: "TableMapping \<Rightarrow> string" where
  "select_sql tm = ''SELECT '' @ join '', '' (select_cols tm) @ '' FROM '' @ source_table tm"

text \<open>The query of a table and the staging of its rows; the answer is the error that ends the dump, if any.\<close>

definition dump_query :: "'w sqlite \<Rightarrow> 'w libpq_src \<Rightarrow> json_lib \<Rightarrow> TableMapping \<Rightarrow> ('w, string option) store_op" where
  "dump_query sq pq jl tm = (\<lambda>(db, w).
     case src_exec pq (c_str (select_sql tm)) w of
       (w', Tuples rows) \<Rightarrow>
         bindS (forS (dump_row sq jl tm) rows) (\<lambda>_.
           bindS (mark_table_dumped sq (source_table tm) (int (length rows))) (\<lambda>_. returnS None)) (db, w')
     | (w', _) \<Rightarrow>
         ((db, w'), Inr (Some (''backfill dump failed for '' @ squote (source_table tm) @ '': '' @ src_error pq w'))))"

text \<open>The body of the loop over the mappings.\<close>

definition dump_table :: "'w sqlite \<Rightarrow> 'w libpq_src \<Rightarrow> json_lib \<Rightarrow> TableMapping \<Rightarrow> ('w, string option) store_op" where
  "dump_table sq pq jl tm =
     bindS (is_table_dumped sq (source_table tm)) (\<lambda>finished.
       if finished then returnS None
       else
         bindS (count_rows_for_table sq (source_table tm)) (\<lambda>_.
         bindS (mark_table_dump_started sq (source_table tm)) (\<lambda>_.
         dump_query sq pq jl tm)))"

fun dump_tables :: "'w sqlite \<Rightarrow> 'w libpq_src \<Rightarrow> json_lib \<Rightarrow> TableMapping list \<Rightarrow> ('w, string option) store_op" where
  "dump_tables sq pq jl [] s = (s, Inr None)"
| "dump_tables sq pq jl (tm # tms) s =
     bindS (dump_table sq pq jl tm) (\<lambda>err. case err of None \<Rightarrow> dump_tables sq pq jl tms | Some e \<Rightarrow> returnS (Some e)) s"

definition dump_all :: "'w sqlite \<Rightarrow> 'w libpq_src \<Rightarrow> json_lib \<Rightarrow> BackfillUtil \<Rightarrow> ('w, BackfillUtil \<times> bool) store_op" where
  "dump_all sq pq jl u = (\<lambda>(db, w).
     case src_connect pq (c_str (bu_conninfo u)) w of
       (w', Some err) \<Rightarrow> ((db, w'), Inr (u\<lparr>bu_last_error := err\<rparr>, False))
     | (w', None) \<Rightarrow>
         bindS (dump_tables sq pq jl (bu_mappings u)) (\<lambda>err.
           returnS (case err of None \<Rightarrow> (u, True) | Some e \<Rightarrow> (u\<lparr>bu_last_error := e\<rparr>, False))) (db, w'))"

section \<open>Live events\<close>

definition absorb_event :: "'w sqlite \<Rightarrow> json_lib \<Rightarrow> BackfillUtil \<Rightarrow> ChangeEvent \<Rightarrow> ('w, bool) store_op" where
  "absorb_event sq jl u e =
     (if op e \<noteq> Update \<and> op e \<noteq> Delete then returnS False
      else case find_mapping (bu_mappings u) (table_name e) of
        None \<Rightarrow> returnS False
      | Some tm \<Rightarrow>
          if op e = Delete then
            (case old_row e of
               None \<Rightarrow> returnS False
             | Some row \<Rightarrow>
                 let row_id = get_column row (id_source tm) in
                 if row_id \<noteq> [] then bindS (mark_done sq (source_table tm) row_id) (\<lambda>_. returnS False)
                 else returnS False)
          else
            (case new_row e of
               None \<Rightarrow> returnS False
             | Some row \<Rightarrow>
                 let row_id = get_column row (id_source tm) in
                 if row_id = [] then returnS False
                 else bindS (get_row_data sq (source_table tm) row_id) (\<lambda>existing.
                   case existing of
                     None \<Rightarrow> returnS False
                   | Some data \<Rightarrow>
                       bindS (liftE (bindE (j_parse jl data) (merge_known_columns row tm))) (\<lambda>merged.
                       bindS (liftE (j_dump jl merged)) (\<lambda>text.
                       bindS (update_row_data sq (source_table tm) row_id text) (\<lambda>_. returnS True))))))"

section \<open>What a dump stages\<close>

text \<open>Every row of a reply that has an id is in the store.\<close>

definition rows_staged :: "TableMapping \<Rightarrow> string option list list \<Rightarrow> (string \<times> string \<rightharpoonup> string \<times> bool) \<Rightarrow> bool" where
  "rows_staged tm rows m \<longleftrightarrow> (\<forall>vals \<in> set rows. \<forall>j i.
     dump_columns (id_source tm) (select_cols tm) vals JNull [] = Inr (j, i) \<longrightarrow> i \<noteq> [] \<longrightarrow> (c_str (source_table tm), c_str i) \<in> dom m)"

lemma rows_staged_mono: "rows_staged tm rows m \<Longrightarrow> m \<subseteq>\<^sub>m m' \<Longrightarrow> rows_staged tm rows m'"
  unfolding rows_staged_def using map_le_implies_dom_le by blast

text \<open>The store only grows, and the markers stay.\<close>

definition grown :: "'w sqlite \<Rightarrow> BackfillDb \<times> 'w \<Rightarrow> BackfillDb \<times> 'w \<Rightarrow> bool" where
  "grown sq s s' \<longleftrightarrow> store_ok sq s' \<and> store_view s \<subseteq>\<^sub>m store_view s'"

lemma grown_trans: "grown sq a b \<Longrightarrow> grown sq b c \<Longrightarrow> grown sq a c"
  unfolding grown_def using map_le_trans by blast

lemma dump_row_law:
  assumes ok: "store_ok sq s" and run: "dump_row sq jl tm vals s = (s', r)"
  shows "grown sq s s' \<and> dumped (fst s') = dumped (fst s) \<and> (r = Inr () \<longrightarrow> rows_staged tm [vals] (store_view s'))"
proof -
  obtain db w where s: "s = (db, w)" by (cases s)
  have refl: "grown sq s s" using ok by (simp add: grown_def)
  show ?thesis
  proof (cases "dump_columns (id_source tm) (select_cols tm) vals JNull []")
    case (Inl e)
    then have "s' = s" "r = Inl e" using run by (simp_all add: dump_row_def liftE_def bindS_def)
    then show ?thesis using refl by simp
  next
    case (Inr ji)
    obtain j i where ji: "ji = (j, i)" by (cases ji)
    show ?thesis
    proof (cases "i = []")
      case True
      then have "s' = s" using run Inr ji by (simp add: dump_row_def liftE_def bindS_def)
      then show ?thesis using refl Inr ji True by (simp add: rows_staged_def)
    next
      case False
      show ?thesis
      proof (cases "j_dump jl j")
        case (Inl e)
        then have "s' = s" "r = Inl e" using run Inr ji False by (simp_all add: dump_row_def liftE_def bindS_def)
        then show ?thesis using refl by simp
      next
        case dmp: (Inr data)
        then have ins: "insert_row sq (source_table tm) i data s = (s', r)"
          using run Inr ji False by (simp add: dump_row_def liftE_def bindS_def)
        then show ?thesis using bf.insert_mono [OF ok ins] insert_row_tables [OF ins] Inr ji
          by (simp add: grown_def rows_staged_def)
      qed
    qed
  qed
qed

lemma dump_rows_law:
  assumes "store_ok sq s" "forS (dump_row sq jl tm) rows s = (s', r)"
  shows "grown sq s s' \<and> dumped (fst s') = dumped (fst s) \<and> (r = Inr () \<longrightarrow> rows_staged tm rows (store_view s'))"
  using assms
proof (induction rows arbitrary: s)
  case Nil
  then show ?case by (simp add: grown_def rows_staged_def)
next
  case (Cons vals rows)
  have "bindS (dump_row sq jl tm vals) (\<lambda>_. forS (dump_row sq jl tm) rows) s = (s', r)" using Cons.prems(2) by simp
  then show ?case
  proof (cases rule: bindS_cases)
    case (stop e)
    then show ?thesis using dump_row_law [OF Cons.prems(1) stop(1)] by simp
  next
    case (step s1 u)
    note one = dump_row_law [OF Cons.prems(1) step(1)]
    have ok1: "store_ok sq s1" using one by (simp add: grown_def)
    note rest = Cons.IH [OF ok1 step(2)]
    have "rows_staged tm [vals] (store_view s')"
      using one rest rows_staged_mono by (auto simp: grown_def)
    then have "r = Inr () \<longrightarrow> rows_staged tm (vals # rows) (store_view s')"
      using rest by (simp add: rows_staged_def)
    then show ?thesis using one rest grown_trans by metis
  qed
qed

text \<open>
  A table is marked complete only after all rows of a query of it are in the store.
\<close>

definition dumped_well :: "'w libpq_src \<Rightarrow> TableMapping list \<Rightarrow> BackfillDb \<times> 'w \<Rightarrow> BackfillDb \<times> 'w \<Rightarrow> bool" where
  "dumped_well pq tms s s' \<longleftrightarrow> (\<forall>t. dumped (fst s) t \<longrightarrow> dumped (fst s') t) \<and> (\<forall>t. dumped (fst s') t \<longrightarrow> \<not> dumped (fst s) t \<longrightarrow>
     (\<exists>tm \<in> set tms. t = c_str (source_table tm) \<and> (\<exists>w1 w2 rows. src_exec pq (c_str (select_sql tm)) w1 = (w2, Tuples rows)
        \<and> rows_staged tm rows (store_view s'))))"

lemma dump_query_law:
  assumes ok: "store_ok sq s" and run: "dump_query sq pq jl tm s = (s', r)"
  shows "grown sq s s' \<and> dumped_well pq [tm] s s' \<and> (r = Inr None \<longrightarrow> dumped (fst s') (c_str (source_table tm)))"
proof -
  obtain db w where s: "s = (db, w)" by (cases s)
  obtain w' reply where q: "src_exec pq (c_str (select_sql tm)) w = (w', reply)" by (cases "src_exec pq (c_str (select_sql tm)) w")
  have ok': "store_ok sq (db, w')" using ok by (simp add: s store_defs)
  show ?thesis
  proof (cases "\<exists>rows. reply = Tuples rows")
    case False
    then have "s' = (db, w') \<and> (\<exists>e. r = Inr (Some e))" using run q by (cases reply) (auto simp: dump_query_def s)
    then show ?thesis using ok' by (auto simp: s grown_def dumped_well_def store_view_def)
  next
    case True
    then obtain rows where Tuples: "reply = Tuples rows" by blast
    then have "bindS (forS (dump_row sq jl tm) rows) (\<lambda>_.
           bindS (mark_table_dumped sq (source_table tm) (int (length rows))) (\<lambda>_. returnS None)) (db, w') = (s', r)"
      using run q by (simp add: dump_query_def s)
    then show ?thesis
    proof (cases rule: bindS_cases)
      case (stop e)
      then show ?thesis using dump_rows_law [OF ok' stop(1)] by (simp add: grown_def dumped_well_def s store_view_def)
    next
      case (step s1 u)
      note rows = dump_rows_law [OF ok' step(1)]
      have ok1: "store_ok sq s1" using rows by (simp add: grown_def)
      from step(2) show ?thesis
      proof (cases rule: bindS_cases)
        case (stop e)
        then show ?thesis using mark_dumped_law [OF ok1 stop(1)] rows
          by (simp add: grown_def dumped_well_def s store_view_def)
      next
        case step2: (step s2 u')
        have m: "store_ok sq s'" "store_view s' = store_view s1" "dumped (fst s') = (\<lambda>t. t = c_str (source_table tm) \<or> dumped (fst s1) t)"
          using mark_dumped_law [OF ok1 step2(1)] step2(2) by simp_all
        have "rows_staged tm rows (store_view s')" using rows m(2) by simp
        then have "dumped_well pq [tm] s s'" unfolding dumped_well_def m(3) using rows q Tuples by (auto simp: s)
        then show ?thesis using m rows by (simp add: grown_def s store_view_def)
      qed
    qed
  qed
qed

lemma dump_table_law:
  assumes ok: "store_ok sq s" and run: "dump_table sq pq jl tm s = (s', r)"
  shows "grown sq s s' \<and> dumped_well pq [tm] s s' \<and> (r = Inr None \<longrightarrow> dumped (fst s') (c_str (source_table tm)))"
proof -
  let ?t = "source_table tm"
  have same: "grown sq s s2 \<and> dumped_well pq [tm] s s2" if "fst s2 = fst s" for s2
    using that ok by (simp add: dumped_well_def grown_def store_defs)
  from run show ?thesis unfolding dump_table_def
  proof (cases rule: bindS_cases)
    case (stop e)
    then show ?thesis using is_table_dumped_law [OF ok stop(1)] same by simp
  next
    case (step s1 fin)
    have s1: "fst s1 = fst s" "fin = dumped (fst s) (c_str ?t)" using is_table_dumped_law [OF ok step(1)] by simp_all
    show ?thesis
    proof (cases fin)
      case True
      then show ?thesis using step(2) s1 same by simp
    next
      case False
      then have "bindS (count_rows_for_table sq ?t) (\<lambda>_. bindS (mark_table_dump_started sq ?t) (\<lambda>_. dump_query sq pq jl tm)) s1 = (s', r)"
        using step(2) by simp
      then show ?thesis
      proof (cases rule: bindS_cases)
        case (stop e)
        then show ?thesis using count_rows_law [OF stop(1)] s1(1) same by simp
      next
        case step2: (step s2 n)
        have s2: "fst s2 = fst s" using count_rows_law [OF step2(1)] s1(1) by simp
        then have ok2: "store_ok sq s2" using ok by (simp add: store_ok_def)
        from step2(2) show ?thesis
        proof (cases rule: bindS_cases)
          case (stop e)
          then show ?thesis using mark_started_law [OF ok2 stop(1)] s2 by (simp add: dumped_well_def grown_def store_view_def)
        next
          case step3: (step s3 u)
          have s3: "store_ok sq s3" "store_view s3 = store_view s" "dumped (fst s3) = dumped (fst s)"
            using mark_started_law [OF ok2 step3(1)] s2 by (simp_all add: store_view_def)
          show ?thesis using dump_query_law [OF s3(1) step3(2)] s3 by (simp add: dumped_well_def grown_def)
        qed
      qed
    qed
  qed
qed

lemma dumped_well_Cons:
  assumes "dumped_well pq [tm] s s1" "dumped_well pq tms s1 s'" "store_view s1 \<subseteq>\<^sub>m store_view s'"
  shows "dumped_well pq (tm # tms) s s'"
  unfolding dumped_well_def
proof (intro conjI allI impI)
  fix t assume "dumped (fst s) t"
  then show "dumped (fst s') t" using assms(1,2) by (simp add: dumped_well_def)
next
  fix t assume t: "dumped (fst s') t" "\<not> dumped (fst s) t"
  show "\<exists>tm' \<in> set (tm # tms). t = c_str (source_table tm') \<and> (\<exists>w1 w2 rows.
      src_exec pq (c_str (select_sql tm')) w1 = (w2, Tuples rows) \<and> rows_staged tm' rows (store_view s'))"
  proof (cases "dumped (fst s1) t")
    case True
    then obtain w1 w2 rows where "t = c_str (source_table tm)" "src_exec pq (c_str (select_sql tm)) w1 = (w2, Tuples rows)"
      "rows_staged tm rows (store_view s1)" using assms(1) t(2) by (auto simp: dumped_well_def)
    then have "t = c_str (source_table tm) \<and> (\<exists>w1 w2 rows.
      src_exec pq (c_str (select_sql tm)) w1 = (w2, Tuples rows) \<and> rows_staged tm rows (store_view s'))"
      using rows_staged_mono [OF _ assms(3)] by blast
    then show ?thesis by (intro bexI [of _ tm]) auto
  next
    case False
    then obtain tm' where "tm' \<in> set tms" "t = c_str (source_table tm') \<and> (\<exists>w1 w2 rows.
      src_exec pq (c_str (select_sql tm')) w1 = (w2, Tuples rows) \<and> rows_staged tm' rows (store_view s'))"
      using assms(2) t(1) unfolding dumped_well_def by blast
    then show ?thesis by (intro bexI [of _ tm']) auto
  qed
qed

lemma dump_tables_law:
  assumes "store_ok sq s" "dump_tables sq pq jl tms s = (s', r)"
  shows "grown sq s s' \<and> dumped_well pq tms s s' \<and> (r = Inr None \<longrightarrow> (\<forall>tm \<in> set tms. dumped (fst s') (c_str (source_table tm))))"
  using assms
proof (induction tms arbitrary: s)
  case Nil
  then show ?case by (simp add: grown_def dumped_well_def)
next
  case (Cons tm tms)
  have "bindS (dump_table sq pq jl tm) (\<lambda>err. case err of None \<Rightarrow> dump_tables sq pq jl tms | Some e \<Rightarrow> returnS (Some e)) s = (s', r)"
    using Cons.prems(2) by simp
  then show ?case
  proof (cases rule: bindS_cases)
    case (stop e)
    have "dumped_well pq (tm # tms) s s'"
      by (rule dumped_well_Cons [of pq tm s s']) (use dump_table_law [OF Cons.prems(1) stop(1)] in \<open>simp_all add: dumped_well_def\<close>)
    then show ?thesis using dump_table_law [OF Cons.prems(1) stop(1)] stop(2) by simp
  next
    case (step s1 err)
    note one = dump_table_law [OF Cons.prems(1) step(1)]
    show ?thesis
    proof (cases err)
      case (Some e)
      then have s': "s' = s1" "r = Inr (Some e)" using step(2) by simp_all
      have "dumped_well pq (tm # tms) s s1"
        by (rule dumped_well_Cons [of pq tm s s1]) (use one in \<open>simp_all add: dumped_well_def\<close>)
      then show ?thesis using one s' by simp
    next
      case None
      have ok1: "store_ok sq s1" using one by (simp add: grown_def)
      have "dump_tables sq pq jl tms s1 = (s', r)" using step(2) None by simp
      note rest = Cons.IH [OF ok1 this]
      have "dumped (fst s1) (c_str (source_table tm))" using one None by simp
      moreover have "dumped (fst s1) t \<longrightarrow> dumped (fst s') t" for t using rest unfolding dumped_well_def by blast
      moreover have "dumped_well pq (tm # tms) s s'"
        by (rule dumped_well_Cons [of pq tm s s1]) (use one rest in \<open>simp_all add: grown_def\<close>)
      moreover have "grown sq s s'" using one rest grown_trans by blast
      ultimately show ?thesis using rest by simp
    qed
  qed
qed

section \<open>What an update merges\<close>

text \<open>The value of a column after an update: the new one when it is known, the old one otherwise.\<close>

definition updated_value :: "DecodedRow \<Rightarrow> string \<Rightarrow> json option \<Rightarrow> json option" where
  "updated_value row n old =
     (case find (\<lambda>c. cv_name c = n) (columns row) of
        None \<Rightarrow> old
      | Some c \<Rightarrow> if is_unchanged_toast c then old else Some (if is_null c then JNull else JStr (text_value c)))"

lemma updated_value_idem [simp]: "updated_value row n (updated_value row n x) = updated_value row n x"
  by (auto simp: updated_value_def split: option.splits)

text \<open>Objects of texts and nulls, which is what the dump writes.\<close>

definition flat :: "(string \<times> json) list \<Rightarrow> bool" where
  "flat ob \<longleftrightarrow> distinct (map fst ob) \<and> (\<forall>v \<in> snd ` set ob. v = JNull \<or> (\<exists>s. v = JStr s))"

lemma values_obj_set: "snd ` set (obj_set k v ob) \<subseteq> insert v (snd ` set ob)"
  by (induction k v ob rule: obj_set.induct) auto

lemma flat_obj_set: "flat ob \<Longrightarrow> v = JNull \<or> (\<exists>s. v = JStr s) \<Longrightarrow> flat (obj_set k v ob)"
  using values_obj_set [of k v ob] unfolding flat_def by (intro conjI distinct_obj_set) blast+

lemma set_json_columns_obj:
  "\<exists>ob'. set_json_columns cols n (JObj ob) = Inr (JObj ob') \<and> (flat ob \<longrightarrow> flat ob')
     \<and> map_of ob' = (map_of ob)(n := (case find (\<lambda>c. cv_name c = n) cols of
          None \<Rightarrow> map_of ob n
        | Some c \<Rightarrow> if is_unchanged_toast c then map_of ob n else Some (if is_null c then JNull else JStr (text_value c))))"
  by (induction cols) (auto simp: flat_obj_set)

lemma set_json_column_obj:
  "\<exists>ob'. set_json_column row n (JObj ob) = Inr (JObj ob') \<and> (flat ob \<longrightarrow> flat ob')
     \<and> map_of ob' = (map_of ob)(n := updated_value row n (map_of ob n))"
  using set_json_columns_obj [of "columns row" n ob] by (simp add: set_json_column_def updated_value_def)

lemma set_all_columns_obj:
  "\<exists>ob'. set_all_columns row ns (JObj ob) = Inr (JObj ob') \<and> (flat ob \<longrightarrow> flat ob')
     \<and> map_of ob' = (\<lambda>n. if n \<in> set ns then updated_value row n (map_of ob n) else map_of ob n)"
proof (induction ns arbitrary: ob)
  case (Cons n ns)
  obtain ob1 where 1: "set_json_column row n (JObj ob) = Inr (JObj ob1)" "flat ob \<longrightarrow> flat ob1"
    "map_of ob1 = (map_of ob)(n := updated_value row n (map_of ob n))" using set_json_column_obj by blast
  obtain ob2 where 2: "set_all_columns row ns (JObj ob1) = Inr (JObj ob2)" "flat ob1 \<longrightarrow> flat ob2"
    "map_of ob2 = (\<lambda>n. if n \<in> set ns then updated_value row n (map_of ob1 n) else map_of ob1 n)" using Cons by blast
  have "map_of ob2 = (\<lambda>m. if m \<in> set (n # ns) then updated_value row m (map_of ob m) else map_of ob m)"
    unfolding 2(3) 1(3) by (auto simp: fun_eq_iff)
  then show ?case using 1 2 by (intro exI [of _ ob2]) simp
qed auto

lemma merge_known_columns_alt: "merge_known_columns row tm j = set_all_columns row (select_cols tm) j"
  by (cases "set_json_column row (id_source tm) j") (simp_all add: merge_known_columns_def select_cols_def)

lemma merge_known_columns_obj:
  "\<exists>ob'. merge_known_columns row tm (JObj ob) = Inr (JObj ob') \<and> (flat ob \<longrightarrow> flat ob')
     \<and> map_of ob' = (\<lambda>n. if n \<in> set (select_cols tm) then updated_value row n (map_of ob n) else map_of ob n)"
  unfolding merge_known_columns_alt by (rule set_all_columns_obj)

lemma absorb_update_result:
  assumes "store_inv db" "scans_all sq" "op e = Update" "find_mapping (bu_mappings u) (table_name e) = Some tm"
    and "new_row e = Some row" "get_column row (id_source tm) \<noteq> []"
    and staged: "staged db (c_str (source_table tm), c_str (get_column row (id_source tm))) = Some (data, c)"
    and parse: "j_parse jl data = Inr (JObj ob)"
    and run: "absorb_event sq jl u e (db, w) = ((db', w'), r)"
  shows "(case r of
       Inl f \<Rightarrow> staged db' = staged db
     | Inr absorbed \<Rightarrow> absorbed \<and> (\<exists>ob' text. j_dump jl (JObj ob') = Inr text \<and> (flat ob \<longrightarrow> flat ob')
          \<and> staged db' = (staged db)((c_str (source_table tm), c_str (get_column row (id_source tm))) \<mapsto> (c_str text, c))
          \<and> map_of ob' = (\<lambda>n. if n \<in> set (select_cols tm) then updated_value row n (map_of ob n) else map_of ob n)))"
proof -
  let ?i = "get_column row (id_source tm)"
  obtain ob' where ob': "merge_known_columns row tm (JObj ob) = Inr (JObj ob')" "flat ob \<longrightarrow> flat ob'"
    "map_of ob' = (\<lambda>n. if n \<in> set (select_cols tm) then updated_value row n (map_of ob n) else map_of ob n)"
    using merge_known_columns_obj by blast
  have ok: "store_ok sq (db, w)" using assms(1,2) by (simp add: store_ok_def)
  have "bindS (get_row_data sq (source_table tm) ?i) (\<lambda>existing. case existing of None \<Rightarrow> returnS False | Some data \<Rightarrow>
      bindS (liftE (bindE (j_parse jl data) (merge_known_columns row tm))) (\<lambda>merged. bindS (liftE (j_dump jl merged))
        (\<lambda>text. bindS (update_row_data sq (source_table tm) ?i text) (\<lambda>_. returnS True)))) (db, w) = ((db', w'), r)"
    using run assms(3-6) by (simp add: absorb_event_def Let_def)
  then show ?thesis
  proof (cases rule: bindS_cases)
    case (stop f)
    then show ?thesis using bf.get_law [OF ok stop(1)] by (simp add: store_view_def)
  next
    case (step s1 x)
    have s1: "store_ok sq s1" "store_view s1 = staged db" "x = Some data"
      using bf.get_law [OF ok step(1)] staged by (simp_all add: store_view_def)
    show ?thesis
    proof (cases "j_dump jl (JObj ob')")
      case (Inl f)
      then have "s1 = (db', w')" "r = Inl f" using step(2) s1(3) parse ob'(1) by simp_all
      then show ?thesis using s1 by (simp add: store_view_def)
    next
      case dmp: (Inr t)
      then have "bindS (update_row_data sq (source_table tm) ?i t) (\<lambda>_. returnS True) s1 = ((db', w'), r)"
        using step(2) s1(3) parse ob'(1) by simp
      then show ?thesis
      proof (cases rule: bindS_cases)
        case (stop f)
        then show ?thesis using bf.update_law [OF s1(1) stop(1)] s1(2) by (simp add: store_view_def)
      next
        case step2: (step s2 b)
        then have "staged db' = (staged db)((c_str (source_table tm), c_str ?i) \<mapsto> (c_str t, c))" "r = Inr True"
          using bf.update_law [OF s1(1) step2(1)] s1(2) staged by (auto simp: store_view_def)
        then show ?thesis using ob' dmp by auto
      qed
    qed
  qed
qed

section \<open>Properties\<close>

lemma dump_all_law:
  assumes "store_inv db" "scans_all sq" "dump_all sq pq jl u (db, w) = ((db', w'), r)"
  shows "store_inv db' \<and> staged db \<subseteq>\<^sub>m staged db'
     \<and> (\<forall>t. dumped db' t \<longrightarrow> dumped db t \<or> (\<exists>tm \<in> set (bu_mappings u). t = c_str (source_table tm)
          \<and> (\<exists>w1 w2 rows. src_exec pq (c_str (select_sql tm)) w1 = (w2, Tuples rows) \<and> rows_staged tm rows (staged db'))))
     \<and> (\<forall>u'. r = Inr (u', True) \<longrightarrow> (\<forall>tm \<in> set (bu_mappings u). dumped db' (c_str (source_table tm))))"
proof -
  obtain w1 e where c: "src_connect pq (c_str (bu_conninfo u)) w = (w1, e)" by (cases "src_connect pq (c_str (bu_conninfo u)) w")
  have ok: "store_ok sq (db, w1)" using assms by (simp add: store_ok_def)
  show ?thesis
  proof (cases e)
    case (Some err)
    then have "db' = db" "\<nexists>u'. r = Inr (u', True)" using assms(3) c by (auto simp: dump_all_def)
    then show ?thesis using assms(1) by auto
  next
    case None
    obtain s1 r1 where d: "dump_tables sq pq jl (bu_mappings u) (db, w1) = (s1, r1)"
      by (cases "dump_tables sq pq jl (bu_mappings u) (db, w1)")
    have "fst s1 = db'" "(\<exists>u'. r = Inr (u', True)) \<longrightarrow> r1 = Inr None"
      using assms(3) c None d by (auto simp: dump_all_def bindS_def split: sum.splits option.splits)
    then show ?thesis using dump_tables_law [OF ok d]
      unfolding grown_def dumped_well_def store_ok_def store_view_def by auto
  qed
qed

text \<open>
  C22. The dump is safe to interrupt. Whatever happens during it, no staged row is lost or
  overwritten and a table is marked complete only when every row with an id that the source
  returned for it is in the store, so a later run takes up the other tables again. When the dump
  reports success, every mapped table is complete.
\<close>

theorem dump_all_complete:
  assumes "store_inv db" "scans_all sq" "dump_all sq pq jl u (db, w) = ((db', w'), r)"
  shows "store_inv db' \<and> staged db \<subseteq>\<^sub>m staged db'
     \<and> (\<forall>t. dumped db' t \<longrightarrow> dumped db t \<or> (\<exists>tm \<in> set (bu_mappings u). t = c_str (source_table tm)
          \<and> (\<exists>w1 w2 rows. src_exec pq (c_str (select_sql tm)) w1 = (w2, Tuples rows) \<and> rows_staged tm rows (staged db'))))
     \<and> (\<forall>u'. r = Inr (u', True) \<longrightarrow> (\<forall>tm \<in> set (bu_mappings u). dumped db' (c_str (source_table tm))))"
  using assms by (rule dump_all_law)

text \<open>
  An update of a staged row is merged into it. Unless the call throws, which leaves the store
  alone, the event is held back from the sinks, the staged object has the new value of every
  mapped column that the update carries and its old value where the update leaves the column
  out, and no other row changes.
\<close>

theorem absorb_update_merges:
  assumes "store_inv db" "scans_all sq" "op e = Update" "find_mapping (bu_mappings u) (table_name e) = Some tm"
    and "new_row e = Some row" "get_column row (id_source tm) \<noteq> []"
    and staged: "staged db (c_str (source_table tm), c_str (get_column row (id_source tm))) = Some (data, c)"
    and parse: "j_parse jl data = Inr (JObj ob)"
    and run: "absorb_event sq jl u e (db, w) = ((db', w'), r)"
  shows "(case r of
       Inl f \<Rightarrow> staged db' = staged db
     | Inr absorbed \<Rightarrow> absorbed \<and> (\<exists>ob' text. j_dump jl (JObj ob') = Inr text \<and> (flat ob \<longrightarrow> flat ob')
          \<and> staged db' = (staged db)((c_str (source_table tm), c_str (get_column row (id_source tm))) \<mapsto> (c_str text, c))
          \<and> map_of ob' = (\<lambda>n. if n \<in> set (select_cols tm) then updated_value row n (map_of ob n) else map_of ob n)))"
  using absorb_update_result [OF assms] .

section \<open>A sample dump\<close>

text \<open>
  A table with one row, an update of its text, and a JSON library that knows the objects of the
  run.
\<close>

definition bf_mapping :: TableMapping where
  "bf_mapping = empty_mapping\<lparr>source_table := ''items'', id_source := ''id'', embed_source := ''body''\<rparr>"

definition bf_util :: BackfillUtil where
  "bf_util = new_BackfillUtil ''host=db'' [bf_mapping] ''state/items.db''"

definition bf_object :: "string \<Rightarrow> (string \<times> json) list" where
  "bf_object b = [(''id'', JStr ''7''), (''body'', JStr b)]"

definition bf_json :: json_lib where
  "bf_json = \<lparr>j_dump = (\<lambda>j. if j = JObj (bf_object ''old'') then Inr ''A'' else if j = JObj (bf_object ''new'') then Inr ''B'' else Inl (Throw ''dump'')),
     j_parse = (\<lambda>t. if t = ''A'' then Inr (JObj (bf_object ''old'')) else if t = ''B'' then Inr (JObj (bf_object ''new'')) else Inl (Throw ''parse'')),
     j_get_int = (\<lambda>_. Inl (Throw ''int'')), j_get_size = (\<lambda>_. Inl (Throw ''size'')), j_get_floats = (\<lambda>_. Inl (Throw ''floats''))\<rparr>"

definition bf_source :: "unit libpq_src" where
  "bf_source = \<lparr>src_connect = (\<lambda>_ w. (w, None)), src_exec = (\<lambda>_ w. (w, Tuples [[Some ''7'', Some ''old''], [None, Some ''x'']])),
     src_error = (\<lambda>_. []), make_dirs = (\<lambda>_ w. (w, None))\<rparr>"

definition bf_row :: "string \<Rightarrow> BackfillRow" where
  "bf_row t = \<lparr>br_table = ''items'', br_id = ''7'', br_data = t, br_status = ''pending''\<rparr>"

definition bf_dumped :: "string \<Rightarrow> BackfillDb" where
  "bf_dumped t = \<lparr>backfill_rows = [bf_row t], backfill_tables = [\<lparr>bt_table = ''items'', bt_status = ''complete'', bt_count = Some 2\<rparr>]\<rparr>"

lemma bf_dump_run: "dump_all quiet_sqlite bf_source bf_json bf_util (empty_db, ()) = ((bf_dumped ''A'', ()), Inr (bf_util, True))"
  by code_simp

theorem dump_all_complete_witness:
  "store_inv (bf_dumped ''A'') \<and> dumped (bf_dumped ''A'') ''items'' \<and> dom (staged (bf_dumped ''A'')) = {(''items'', ''7'')}"
proof -
  have "source_table bf_mapping = ''items''" "bu_mappings bf_util = [bf_mapping]" "c_str ''items'' = ''items''" by code_simp+
  moreover have "dom (staged (bf_dumped ''A'')) = {(''items'', ''7'')}" by (simp add: dom_staged bf_dumped_def bf_row_def)
  ultimately show ?thesis using dump_all_complete [OF empty_inv quiet_scans bf_dump_run] by simp
qed

definition bf_update :: ChangeEvent where
  "bf_update = (new_event Update)\<lparr>table_name := ''items'', new_row := Some \<lparr>row_schema = [], row_table = ''items'', row_kind = UpdateNew,
     columns = [\<lparr>cv_name = ''id'', is_null = False, is_unchanged_toast = False, text_value = ''7''\<rparr>,
                \<lparr>cv_name = ''body'', is_null = False, is_unchanged_toast = False, text_value = ''new''\<rparr>]\<rparr>\<rparr>"

lemma bf_absorb_run: "absorb_event quiet_sqlite bf_json bf_util bf_update (bf_dumped ''A'', ()) = ((bf_dumped ''B'', ()), Inr True)"
  by code_simp

lemma bf_dumped_inv: "store_inv (bf_dumped ''A'')"
  by (simp add: store_inv_def bf_dumped_def bf_row_def clean_row_def c_str_def)

theorem absorb_update_merges_witness:
  "\<exists>ob' text. j_dump bf_json (JObj ob') = Inr text \<and> staged (bf_dumped ''B'') = (staged (bf_dumped ''A''))((''items'', ''7'') \<mapsto> (c_str text, False))
     \<and> map_of ob' ''body'' = Some (JStr ''new'')"
proof -
  define row where "row = the (new_row bf_update)"
  have ev: "op bf_update = Update" "find_mapping (bu_mappings bf_util) (table_name bf_update) = Some bf_mapping"
    "new_row bf_update = Some row" by (simp_all add: bf_update_def bf_util_def new_BackfillUtil_def find_mapping_def bf_mapping_def row_def)
  have id: "get_column row (id_source bf_mapping) = ''7''" by (simp add: row_def bf_update_def get_column_def bf_mapping_def)
  have st: "staged (bf_dumped ''A'') (c_str (source_table bf_mapping), c_str (get_column row (id_source bf_mapping))) = Some (''A'', False)"
    unfolding id by (simp add: staged_def bf_dumped_def bf_row_def bf_mapping_def c_str_def)
  have parse: "j_parse bf_json ''A'' = Inr (JObj (bf_object ''old''))" by (simp add: bf_json_def)
  have key: "c_str (source_table bf_mapping) = ''items''" "c_str ''7'' = ''7''" by (simp_all add: bf_mapping_def c_str_def)
  have "updated_value row ''body'' x = Some (JStr ''new'')" for x by (simp add: row_def bf_update_def updated_value_def)
  moreover have "''body'' \<in> set (select_cols bf_mapping)" by (simp add: select_cols_def bf_mapping_def)
  moreover obtain ob' t where "j_dump bf_json (JObj ob') = Inr t"
    "staged (bf_dumped ''B'') = (staged (bf_dumped ''A''))((''items'', ''7'') \<mapsto> (c_str t, False))"
    "map_of ob' = (\<lambda>n. if n \<in> set (select_cols bf_mapping) then updated_value row n (map_of (bf_object ''old'') n) else map_of (bf_object ''old'') n)"
    using absorb_update_merges [OF bf_dumped_inv quiet_scans ev _ st parse bf_absorb_run] id key by auto
  ultimately show ?thesis by (intro exI [of _ ob'] exI [of _ t]) simp
qed

end
