(* ===== verification/Backfill_Worker.thy ===== *)
theory Backfill_Worker
  imports Backfill_Util App_Config
begin

text \<open>
  The process that drains a staging store: \<^verbatim>\<open>src/src/backfill_worker.cpp\<close>. It loads the
  configuration, builds the sinks, and then claims rows, hands them to the sinks as inserts and
  removes them from the store until nothing is pending. The virtual methods
  \<^verbatim>\<open>create_sink\<close> and \<^verbatim>\<open>call_batch\<close> and the provider factory are parameters.
\<close>

section \<open>Operations\<close>

record ('s, 'p, 'w) worker_env =
  wk_parse_file :: "string \<Rightarrow> string + toml_table"
  wk_provider :: "EmbeddingConfig \<Rightarrow> 'w \<Rightarrow> 'w \<times> 'p result"
  wk_create_sink :: "SinkConfiguration \<Rightarrow> 'p option \<Rightarrow> 'w \<Rightarrow> 'w \<times> 's result"
  wk_call_batch :: "'s \<Rightarrow> ChangeEvent list \<Rightarrow> 'w \<Rightarrow> 'w \<times> failure option"

record BackfillWorker =
  config_path :: string
  wk_store_path :: string
  claim_batch_size :: u64
  wk_last_error :: string

definition new_BackfillWorker :: "string \<Rightarrow> string \<Rightarrow> u64 \<Rightarrow> BackfillWorker" where
  "new_BackfillWorker cfg store n = \<lparr>config_path = cfg, wk_store_path = store, claim_batch_size = n, wk_last_error = []\<rparr>"

text \<open>An operation of the outside world that leaves the store alone.\<close>

definition outside :: "('w \<Rightarrow> 'w \<times> 'a result) \<Rightarrow> ('w, 'a) store_op" where
  "outside f = (\<lambda>(db, w). case f w of (w', r) \<Rightarrow> ((db, w'), r))"

fun column_of :: "string \<times> json \<Rightarrow> ColumnValue result" where
  "column_of (k, v) =
     (if v = JNull then Inr \<lparr>cv_name = k, is_null = True, is_unchanged_toast = False, text_value = []\<rparr>
      else bindE (json_get_string v) (\<lambda>t. Inr \<lparr>cv_name = k, is_null = False, is_unchanged_toast = False, text_value = t\<rparr>))"

fun mapE :: "('a \<Rightarrow> 'b result) \<Rightarrow> 'a list \<Rightarrow> 'b list result" where
  "mapE f [] = Inr []"
| "mapE f (x # xs) = bindE (f x) (\<lambda>y. bindE (mapE f xs) (\<lambda>ys. Inr (y # ys)))"

text \<open>Iterating over the members; a key is there only for the members of an object.\<close>

fun json_columns :: "json \<Rightarrow> ColumnValue list result" where
  "json_columns (JObj ob) = mapE column_of ob"
| "json_columns JNull = Inr []"
| "json_columns (JArr []) = Inr []"
| "json_columns _ = Inl (Throw ''[json.exception.invalid_iterator.207] cannot use key() for non-object iterators'')"

definition to_change_event :: "json_lib \<Rightarrow> ClaimedRow \<Rightarrow> ChangeEvent result" where
  "to_change_event jl row =
     bindE (j_parse jl (cr_data row)) (\<lambda>j.
     bindE (json_columns j) (\<lambda>cols.
       Inr ((new_event Insert)\<lparr>table_name := cr_table row,
         new_row := Some \<lparr>row_schema = [], row_table = cr_table row, row_kind = TupleInsert, columns = cols\<rparr>\<rparr>)))"

definition call_sinks :: "('s, 'p, 'w) worker_env \<Rightarrow> 's list \<Rightarrow> ChangeEvent list \<Rightarrow> ('w, unit) store_op" where
  "call_sinks env sks evs =
     forS (\<lambda>sk. outside (\<lambda>w. case wk_call_batch env sk evs w of (w', None) \<Rightarrow> (w', Inr ()) | (w', Some e) \<Rightarrow> (w', Inl e))) sks"

definition mark_all_done :: "'w sqlite \<Rightarrow> ClaimedRow list \<Rightarrow> ('w, unit) store_op" where
  "mark_all_done sq = forS (\<lambda>row. mark_done sq (cr_table row) (cr_id row))"

text \<open>The second \<^verbatim>\<open>try\<close> block of the loop.\<close>

definition worker_batch ::
  "'w sqlite \<Rightarrow> json_lib \<Rightarrow> ('s, 'p, 'w) worker_env \<Rightarrow> 's list \<Rightarrow> ClaimedRow list \<Rightarrow> ('w, unit) store_op" where
  "worker_batch sq jl env sks claimed =
     bindS (liftE (mapE (to_change_event jl) claimed)) (\<lambda>evs.
     bindS (call_sinks env sks evs) (\<lambda>_. mark_all_done sq claimed))"

definition worker_step ::
  "'w sqlite \<Rightarrow> json_lib \<Rightarrow> ('s, 'p, 'w) worker_env \<Rightarrow> 's list \<Rightarrow> BackfillWorker \<Rightarrow> BackfillDb \<times> 'w \<Rightarrow>
     ((BackfillDb \<times> 'w) \<times> (BackfillWorker \<times> bool) result) + BackfillDb \<times> 'w" where
  "worker_step sq jl env sks wk s =
     (case claim_pending sq (claim_batch_size wk) s of
        (s', Inl (Throw e)) \<Rightarrow> Inl (s', Inr (wk\<lparr>wk_last_error := ''claim_pending failed: '' @ e\<rparr>, False))
      | (s', Inl OutOfBounds) \<Rightarrow> Inl (s', Inl OutOfBounds)
      | (s', Inr claimed) \<Rightarrow>
          if claimed = [] then Inl (s', Inr (wk, True))
          else (case worker_batch sq jl env sks claimed s' of
             (s'', Inl (Throw e)) \<Rightarrow> Inl (s'', Inr (wk\<lparr>wk_last_error := ''batch processing failed: '' @ e\<rparr>, False))
           | (s'', Inl OutOfBounds) \<Rightarrow> Inl (s'', Inl OutOfBounds)
           | (s'', Inr _) \<Rightarrow> Inr s''))"

definition worker_loop ::
  "'w sqlite \<Rightarrow> json_lib \<Rightarrow> ('s, 'p, 'w) worker_env \<Rightarrow> 's list \<Rightarrow> BackfillWorker \<Rightarrow> BackfillDb \<times> 'w \<Rightarrow>
     ((BackfillDb \<times> 'w) \<times> (BackfillWorker \<times> bool) result) option" where
  "worker_loop sq jl env sks wk s = loop (\<lambda>s. Some (worker_step sq jl env sks wk s)) s"

fun create_sinks ::
  "('s, 'p, 'w) worker_env \<Rightarrow> 'p option \<Rightarrow> SinkConfiguration list \<Rightarrow> ('w, 's list) store_op" where
  "create_sinks env p [] s = (s, Inr [])"
| "create_sinks env p (c # cs) s =
     bindS (outside (wk_create_sink env c (if needs_embedding_provider c then p else None))) (\<lambda>sk.
     bindS (create_sinks env p cs) (\<lambda>sks. returnS (sk # sks))) s"

definition worker_sinks :: "('s, 'p, 'w) worker_env \<Rightarrow> AppConfig \<Rightarrow> ('w, 's list) store_op" where
  "worker_sinks env cfg =
     bindS (if any_sink_needs_provider cfg then bindS (outside (wk_provider env (embedding cfg))) (\<lambda>p. returnS (Some p))
            else returnS None) (\<lambda>p. create_sinks env p (sinks cfg))"

text \<open>An exception of the set-up ends the run with its message.\<close>

definition run_failed :: "string \<Rightarrow> BackfillWorker \<Rightarrow> failure \<Rightarrow> (BackfillWorker \<times> bool) result" where
  "run_failed what wk f =
     (case f of Throw e \<Rightarrow> Inr (wk\<lparr>wk_last_error := what @ e\<rparr>, False) | OutOfBounds \<Rightarrow> Inl OutOfBounds)"

definition worker_run ::
  "'w sqlite \<Rightarrow> json_lib \<Rightarrow> ('s, 'p, 'w) worker_env \<Rightarrow> BackfillWorker \<Rightarrow> BackfillDb \<times> 'w \<Rightarrow>
     ((BackfillDb \<times> 'w) \<times> (BackfillWorker \<times> bool) result) option" where
  "worker_run sq jl env wk s =
     (case load_config (wk_parse_file env) (config_path wk) of
        Inl f \<Rightarrow> Some (s, run_failed ''config load failed: '' wk f)
      | Inr cfg \<Rightarrow>
          (case worker_sinks env cfg s of
             (s1, Inl f) \<Rightarrow> Some (s1, run_failed ''sink init failed: '' wk f)
           | (s1, Inr sks) \<Rightarrow>
               (case store_open sq (wk_store_path wk) s1 of
                  (s2, Inl f) \<Rightarrow> Some (s2, run_failed ''store open failed: '' wk f)
                | (s2, Inr _) \<Rightarrow> worker_loop sq jl env sks wk s2)))"

section \<open>One batch\<close>

lemma call_sinks_db: "call_sinks env sks evs s = (s', r) \<Longrightarrow> fst s' = fst s"
  unfolding call_sinks_def
  by (erule forS_inv [where I = "\<lambda>s'. fst s' = fst s", rotated 2])
     (auto simp: outside_def split: prod.splits option.splits)

definition keys_of :: "ClaimedRow list \<Rightarrow> (string \<times> string) set" where
  "keys_of cs = set (map cr_key cs)"

definition clean_claims :: "ClaimedRow list \<Rightarrow> bool" where
  "clean_claims cs \<longleftrightarrow> (\<forall>c \<in> set cs. c_str (cr_table c) = cr_table c \<and> c_str (cr_id c) = cr_id c)"

lemma mark_all_done_law:
  assumes "store_ok sq s" "mark_all_done sq cs s = (s', r)" "clean_claims cs"
  obtains K where "store_ok sq s'" "K \<subseteq> keys_of cs" "store_view s' = store_view s |` (- K)" "r = Inr () \<Longrightarrow> K = keys_of cs"
    "r \<noteq> Inl OutOfBounds"
proof -
  obtain n where n: "store_ok sq s'" "n \<le> length cs" "store_view s' = store_view s |` (- set (map cr_key (take n cs)))"
    "r = Inr () \<longrightarrow> n = length cs" "r \<noteq> Inl OutOfBounds"
    using bf.remove_all [OF assms(1) assms(2) [unfolded mark_all_done_def]] assms(3) unfolding clean_claims_def by blast
  have "set (map cr_key (take n cs)) \<subseteq> keys_of cs" unfolding keys_of_def take_map [symmetric] by (rule set_take_subset)
  then show thesis using that [OF n(1) _ n(3)] n by (simp add: keys_of_def)
qed

lemma restrict_UNIV [simp]: "m |` UNIV = m"
  by (simp add: restrict_map_def)

text \<open>A batch removes rows of its own only, all of them when it succeeds, and none before every sink took it.\<close>

lemma worker_batch_law:
  assumes "store_ok sq s" "worker_batch sq jl env sks cs s = (s', r)" "clean_claims cs"
  obtains K where "store_ok sq s'" "K \<subseteq> keys_of cs" "store_view s' = store_view s |` (- K)" "r = Inr () \<Longrightarrow> K = keys_of cs"
    "K \<noteq> {} \<or> r = Inr () \<Longrightarrow> \<exists>evs s1. mapE (to_change_event jl) cs = Inr evs \<and> call_sinks env sks evs s = (s1, Inr ())"
proof (cases "mapE (to_change_event jl) cs")
  case (Inl e)
  then have "s' = s" "r = Inl e" using assms(2) by (simp_all add: worker_batch_def)
  then show thesis using that [of "{}"] assms(1) by simp
next
  case (Inr evs)
  then have "bindS (call_sinks env sks evs) (\<lambda>_. mark_all_done sq cs) s = (s', r)" using assms(2) by (simp add: worker_batch_def)
  then show thesis
  proof (cases rule: bindS_cases)
    case (stop e)
    have "fst s' = fst s" using call_sinks_db [OF stop(1)] .
    then show thesis using that [of "{}"] assms(1) stop(2) by (simp add: store_ok_def store_view_def)
  next
    case (step s1 u)
    have v: "store_view s1 = store_view s" "store_ok sq s1"
      using call_sinks_db [OF step(1)] assms(1) by (simp_all add: store_ok_def store_view_def)
    show thesis
    proof (rule mark_all_done_law [OF v(2) step(2) assms(3)])
      fix K assume "store_ok sq s'" "K \<subseteq> keys_of cs" "store_view s' = store_view s1 |` (- K)" "r = Inr () \<Longrightarrow> K = keys_of cs"
      then show thesis using that [of K] v(1) step(1) Inr by auto
    qed
  qed
qed

lemma restrict_claims: "(claims K m) |` (- K) = m |` (- K)"
  by (auto simp: claims_def restrict_map_def fun_eq_iff)

lemma pending_restrict: "pending_keys (m |` (- K)) = pending_keys m - K"
  by (auto simp: pending_keys_def restrict_map_def)

lemma pending_claims: "pending_keys (claims K m) = pending_keys m - K"
  by (auto simp: pending_keys_def claims_def)

lemma pending_finite: "finite (dom m) \<Longrightarrow> finite (pending_keys m)"
  by (rule finite_subset [of _ "dom m"]) (auto simp: pending_keys_def)

lemma claimable_keys:
  assumes "claimable n m cs"
  shows "keys_of cs \<subseteq> pending_keys m" "cs = [] \<Longrightarrow> n \<noteq> 0 \<Longrightarrow> finite (dom m) \<Longrightarrow> pending_keys m = {}"
proof -
  show "keys_of cs \<subseteq> pending_keys m" using assms by (auto simp: claimable_def keys_of_def pending_keys_def)
  assume "cs = []" "n \<noteq> 0" "finite (dom m)"
  moreover have "sint n \<noteq> 0" using \<open>n \<noteq> 0\<close> by (metis signed_0 sint_word_ariths(1) signed_eq_0_iff)
  ultimately have "card (pending_keys m) = 0" using assms by (auto simp: claimable_def split: if_splits)
  then show "pending_keys m = {}" using pending_finite [OF \<open>finite (dom m)\<close>] by simp
qed

text \<open>One round of the loop: it ends with success only when nothing is pending.\<close>

lemma worker_step_law:
  assumes ok: "store_ok sq s"
  shows "case worker_step sq jl env sks wk s of
      Inl (s', r) \<Rightarrow> store_ok sq s' \<and> (if \<exists>wk'. r = Inr (wk', True)
        then store_view s' = store_view s \<and> (claim_batch_size wk \<noteq> 0 \<longrightarrow> pending_keys (store_view s) = {})
        else \<exists>K L. K \<subseteq> L \<and> L \<subseteq> pending_keys (store_view s) \<and> store_view s' = (claims L (store_view s)) |` (- K))
    | Inr s' \<Rightarrow> store_ok sq s' \<and> (\<exists>K. K \<noteq> {} \<and> K \<subseteq> pending_keys (store_view s) \<and> store_view s' = store_view s |` (- K))"
proof -
  obtain s1 c where c: "claim_pending sq (claim_batch_size wk) s = (s1, c)" by (cases "claim_pending sq (claim_batch_size wk) s")
  note law = bf.claim_law [OF ok c]
  have none: "claims {} m = m" for m :: "string \<times> string \<rightharpoonup> string \<times> bool" by (simp add: claims_def)
  show ?thesis
  proof (cases c)
    case (Inl e)
    then obtain m where "e = Throw m" using law by (cases e) auto
    then show ?thesis using c Inl law by (auto simp: worker_step_def none intro!: exI [of _ "{}"])
  next
    case (Inr cs)
    have cs: "store_ok sq s1" "claimable (claim_batch_size wk) (store_view s) cs" "store_view s1 = claims (keys_of cs) (store_view s)"
      "clean_claims cs" using law Inr by (auto simp: keys_of_def clean_claims_def)
    have fin: "finite (dom (store_view s))" using bf.view_finite [OF ok] .
    show ?thesis
    proof (cases "cs = []")
      case True
      then show ?thesis using c Inr cs claimable_keys(2) [OF cs(2) True _ fin]
        by (auto simp: worker_step_def keys_of_def none)
    next
      case False
      obtain s2 b where b: "worker_batch sq jl env sks cs s1 = (s2, b)" by (cases "worker_batch sq jl env sks cs s1")
      from worker_batch_law [OF cs(1) b cs(4)] obtain K where K: "store_ok sq s2" "K \<subseteq> keys_of cs"
        "store_view s2 = store_view s1 |` (- K)" "b = Inr () \<longrightarrow> K = keys_of cs" by metis
      note sub = claimable_keys(1) [OF cs(2)]
      show ?thesis
      proof (cases "b = Inr ()")
        case True
        have "keys_of cs \<noteq> {}" using False by (simp add: keys_of_def)
        then show ?thesis using c Inr False b True K sub cs(3) by (auto simp: worker_step_def restrict_claims)
      next
        case fail: False
        then obtain f where f: "b = Inl f" by (cases b) auto
        obtain r where r: "worker_step sq jl env sks wk s = Inl (s2, r)" "\<nexists>wk'. r = Inr (wk', True)"
        proof (cases f)
          case (Throw m)
          then show thesis using that c Inr False b f by (simp add: worker_step_def)
        next
          case OutOfBounds
          then show thesis using that c Inr False b f by (simp add: worker_step_def)
        qed
        have "\<exists>K L. K \<subseteq> L \<and> L \<subseteq> pending_keys (store_view s) \<and> store_view s2 = claims L (store_view s) |` (- K)"
          using K(2,3) sub cs(3) by (intro exI [of _ K] exI [of _ "keys_of cs"]) simp
        then show ?thesis using K(1) r(2) unfolding r(1) by simp
      qed
    qed
  qed
qed

section \<open>The whole run\<close>

text \<open>Rows that another worker holds stay as they are, and no row appears.\<close>

definition drained_from :: "(string \<times> string \<rightharpoonup> string \<times> bool) \<Rightarrow> (string \<times> string \<rightharpoonup> string \<times> bool) \<Rightarrow> bool" where
  "drained_from m m' \<longleftrightarrow> (\<forall>k d. m k = Some (d, True) \<longrightarrow> m' k = Some (d, True))
     \<and> (\<forall>k d c. m' k = Some (d, c) \<longrightarrow> (\<exists>c'. m k = Some (d, c') \<and> (c' \<longrightarrow> c)))"

lemma drained_claims:
  assumes "drained_from m m1" "K \<subseteq> L" "L \<subseteq> pending_keys m1"
  shows "drained_from m ((claims L m1) |` (- K))"
proof -
  have L: "k \<notin> L" if "m1 k = Some (d, True)" for k d using assms(3) that by (auto simp: pending_keys_def)
  show ?thesis unfolding drained_from_def
  proof (intro conjI allI impI)
    fix k d assume "m k = Some (d, True)"
    then have m1: "m1 k = Some (d, True)" using assms(1) unfolding drained_from_def by blast
    then have "k \<notin> L" by (rule L)
    moreover from this have "k \<notin> K" using assms(2) by blast
    ultimately show "(claims L m1 |` (- K)) k = Some (d, True)" using m1 by (simp add: claims_def)
  next
    fix k d c assume "(claims L m1 |` (- K)) k = Some (d, c)"
    then obtain c1 where c1: "m1 k = Some (d, c1)" "c1 \<longrightarrow> c" by (auto simp: restrict_map_def claims_def split: if_splits)
    moreover obtain c' where "m k = Some (d, c')" "c' \<longrightarrow> c1" using assms(1) c1(1) unfolding drained_from_def by blast
    ultimately show "\<exists>c'. m k = Some (d, c') \<and> (c' \<longrightarrow> c)" by blast
  qed
qed

lemma drained_restrict: "K \<subseteq> pending_keys m \<Longrightarrow> drained_from m (m |` (- K))"
  using drained_claims [of m m K K] by (simp add: restrict_claims drained_from_def)

lemma worker_loop_law:
  assumes inv: "store_inv db" "scans_all sq" and n: "claim_batch_size wk \<noteq> 0"
  shows "\<exists>db' w' r. worker_loop sq jl env sks wk (db, w) = Some ((db', w'), r) \<and> store_inv db'
     \<and> drained_from (staged db) (staged db')
     \<and> (\<forall>wk'. r = Inr (wk', True) \<longrightarrow> staged db' = staged db |` (- pending_keys (staged db)))"
proof -
  let ?v = "store_view (db, w)"
  let ?I = "\<lambda>s. store_ok sq s \<and> (\<exists>K. K \<subseteq> pending_keys ?v \<and> store_view s = ?v |` (- K))"
  let ?Q = "\<lambda>x. store_ok sq (fst x) \<and> drained_from ?v (store_view (fst x))
     \<and> (\<forall>wk'. snd x = Inr (wk', True) \<longrightarrow> store_view (fst x) = ?v |` (- pending_keys ?v))"
  have "\<exists>x. loop (\<lambda>s. Some (worker_step sq jl env sks wk s)) (db, w) = Some x \<and> ?Q x"
  proof (rule loop_total [where I = ?I and m = "\<lambda>s. card (pending_keys (store_view s))"])
    show "?I (db, w)" using inv by (auto simp: store_ok_def intro!: exI [of _ "{}"])
  next
    fix s assume "?I s"
    then obtain K where s: "store_ok sq s" "K \<subseteq> pending_keys ?v" "store_view s = ?v |` (- K)" by blast
    have fin: "finite (pending_keys (store_view s))" using pending_finite [OF bf.view_finite [OF s(1)]] .
    have dr: "drained_from ?v (store_view s)"
      unfolding s(3) by (rule drained_restrict [OF s(2)])
    note law = worker_step_law [OF s(1), where jl = jl and env = env and sks = sks and wk = wk]
    show "(\<exists>x. Some (worker_step sq jl env sks wk s) = Some (Inl x) \<and> ?Q x) \<or> (\<exists>s'. Some (worker_step sq jl env sks wk s) = Some (Inr s')
        \<and> ?I s' \<and> card (pending_keys (store_view s')) < card (pending_keys (store_view s)))"
    proof (cases "worker_step sq jl env sks wk s")
      case (Inl x)
      obtain s' r where x: "x = (s', r)" by (cases x)
      show ?thesis
      proof (cases "\<exists>wk'. r = Inr (wk', True)")
        case True
        then have v: "store_ok sq s'" "store_view s' = store_view s" "pending_keys (store_view s) = {}" using law Inl x n by auto
        then have "pending_keys ?v - K = {}" using s(3) pending_restrict [of ?v K] by simp
        then have "K = pending_keys ?v" using s(2) by blast
        then show ?thesis using Inl x v s(3) dr by simp
      next
        case False
        then obtain K' L where "store_ok sq s'" "K' \<subseteq> L" "L \<subseteq> pending_keys (store_view s)" "store_view s' = claims L (store_view s) |` (- K')"
          using law Inl x by auto
        then show ?thesis using Inl x False drained_claims [OF dr] by auto
      qed
    next
      case (Inr s')
      then obtain K' where s': "store_ok sq s'" "K' \<noteq> {}" "K' \<subseteq> pending_keys (store_view s)" "store_view s' = store_view s |` (- K')"
        using law by auto
      have "store_view s' = ?v |` (- (K \<union> K'))" unfolding s'(4) s(3) by (auto simp: restrict_map_def fun_eq_iff)
      moreover have "K \<union> K' \<subseteq> pending_keys ?v" using s(2) s'(3) unfolding s(3) pending_restrict by blast
      moreover have "card (pending_keys (store_view s')) < card (pending_keys (store_view s))"
        unfolding s'(4) pending_restrict using s'(2,3) fin by (intro psubset_card_mono) auto
      ultimately show ?thesis using Inr s'(1) by blast
    qed
  qed
  then show ?thesis unfolding worker_loop_def store_view_def store_ok_def by auto
qed

text \<open>
  C18. A worker with a positive batch size always ends. When it reports success, exactly the rows
  that were pending are gone and nothing is pending; in every case the rows that other workers
  hold are untouched and every row that is left has its data.
\<close>

theorem worker_loop_drains:
  assumes inv: "store_inv db" "scans_all sq" and n: "claim_batch_size wk \<noteq> 0"
  shows "\<exists>db' w' r. worker_loop sq jl env sks wk (db, w) = Some ((db', w'), r) \<and> store_inv db'
     \<and> drained_from (staged db) (staged db')
     \<and> (\<forall>wk'. r = Inr (wk', True) \<longrightarrow> staged db' = staged db |` (- pending_keys (staged db)))"
  using assms by (rule worker_loop_law)

text \<open>
  With a batch size of zero the worker claims nothing, takes that for an empty store and
  reports success with all rows still pending.
\<close>

theorem worker_batch_size_zero:
  assumes "claim_batch_size wk = 0" "claim_pending sq 0 (db, w) = (s, Inr cs)" "store_inv db" "scans_all sq"
  shows "worker_loop sq jl env sks wk (db, w) = Some (s, Inr (wk, True)) \<and> staged (fst s) = staged db"
proof -
  have "store_ok sq (db, w)" using assms by (simp add: store_ok_def)
  from bf.claim_law [OF this assms(2)] have "claimable 0 (staged db) cs" "store_view s = claims (set (map cr_key cs)) (staged db)"
    by (simp_all add: store_view_def)
  moreover from this have "cs = []" by (simp add: claimable_def)
  ultimately show ?thesis using assms(1,2) by (simp add: worker_loop_def worker_step_def loop_simps(2) store_view_def claims_def)
qed

section \<open>From an update to the sinks\<close>

text \<open>The value of a column in a row, as JSON.\<close>

definition row_value :: "DecodedRow \<Rightarrow> string \<Rightarrow> json option" where
  "row_value row n = map_option (\<lambda>c. if is_null c then JNull else JStr (text_value c)) (find (\<lambda>c. cv_name c = n) (columns row))"

lemma columns_of_flat:
  assumes "flat ob"
  shows "\<exists>cols. mapE column_of ob = Inr cols \<and> (\<forall>n. map_option (\<lambda>c. if is_null c then JNull else JStr (text_value c)) (find (\<lambda>c. cv_name c = n) cols) = map_of ob n)"
  using assms
proof (induction ob)
  case (Cons kv ob)
  obtain k v where kv: "kv = (k, v)" by (cases kv)
  have "flat ob" using Cons.prems by (simp add: flat_def)
  then obtain cols where cols: "mapE column_of ob = Inr cols"
    "\<forall>n. map_option (\<lambda>c. if is_null c then JNull else JStr (text_value c)) (find (\<lambda>c. cv_name c = n) cols) = map_of ob n"
    using Cons.IH by blast
  have "v = JNull \<or> (\<exists>t. v = JStr t)" using Cons.prems by (auto simp: flat_def kv)
  then obtain c where "column_of (k, v) = Inr c" "cv_name c = k" "(if is_null c then JNull else JStr (text_value c)) = v"
    by (auto simp: json_get_string_def)
  then show ?case using cols by (intro exI [of _ "c # cols"]) (auto simp: kv simp del: column_of.simps)
qed simp

lemma to_change_event_flat:
  assumes "j_parse jl (cr_data row) = Inr (JObj ob)" "flat ob"
  shows "\<exists>ev r. to_change_event jl row = Inr ev \<and> op ev = Insert \<and> table_name ev = cr_table row \<and> new_row ev = Some r \<and> row_value r = map_of ob"
proof -
  obtain cols where cols: "mapE column_of ob = Inr cols"
    "\<forall>n. map_option (\<lambda>c. if is_null c then JNull else JStr (text_value c)) (find (\<lambda>c. cv_name c = n) cols) = map_of ob n"
    using columns_of_flat [OF assms(2)] by blast
  then show ?thesis using assms(1) by (simp add: to_change_event_def row_value_def fun_eq_iff)
qed


section \<open>A sample run\<close>

text \<open>One sink, which keeps the batches it was given.\<close>

definition log_env :: "(unit, unit, ChangeEvent list list) worker_env" where
  "log_env = \<lparr>wk_parse_file = (\<lambda>_. Inl ''no file''), wk_provider = (\<lambda>_ w. (w, Inr ())), wk_create_sink = (\<lambda>_ _ w. (w, Inr ())),
     wk_call_batch = (\<lambda>_ evs w. (w @ [evs], None))\<rparr>"

definition bf_insert :: "string \<Rightarrow> ChangeEvent" where
  "bf_insert b = (new_event Insert)\<lparr>table_name := ''items'', new_row := Some \<lparr>row_schema = [], row_table = ''items'', row_kind = TupleInsert,
     columns = [\<lparr>cv_name = ''id'', is_null = False, is_unchanged_toast = False, text_value = ''7''\<rparr>,
                \<lparr>cv_name = ''body'', is_null = False, is_unchanged_toast = False, text_value = b\<rparr>]\<rparr>\<rparr>"

definition bf_done :: BackfillDb where
  "bf_done = (bf_dumped ''A'')\<lparr>backfill_rows := []\<rparr>"

definition bf_worker :: "u64 \<Rightarrow> BackfillWorker" where
  "bf_worker n = new_BackfillWorker ''config.toml'' ''state/items.db'' n"

lemma bf_worker_run:
  "worker_loop quiet_sqlite bf_json log_env [()] (bf_worker 200) (bf_dumped ''A'', []) = Some ((bf_done, [[bf_insert ''old'']]), Inr (bf_worker 200, True))"
  by code_simp

theorem worker_loop_drains_witness: "staged bf_done = staged (bf_dumped ''A'') |` (- pending_keys (staged (bf_dumped ''A'')))"
proof -
  have "claim_batch_size (bf_worker 200) \<noteq> 0" by code_simp
  from worker_loop_drains [OF bf_dumped_inv quiet_scans this, of bf_json log_env "[()]" "[]"] show ?thesis
    unfolding bf_worker_run by auto
qed

theorem worker_batch_size_zero_witness:
  "worker_loop quiet_sqlite bf_json log_env [()] (bf_worker 0) (bf_dumped ''A'', []) = Some ((bf_dumped ''A'', []), Inr (bf_worker 0, True))"
proof -
  have n: "claim_batch_size (bf_worker 0) = 0" by (simp add: bf_worker_def new_BackfillWorker_def)
  have c: "claim_pending quiet_sqlite 0 (bf_dumped ''A'', [] :: ChangeEvent list list) = ((bf_dumped ''A'', []), Inr [])" by code_simp
  show ?thesis using worker_batch_size_zero [OF n c bf_dumped_inv quiet_scans] by (rule conjunct1)
qed



end
