(* ===== verification/Backfill_System.thy ===== *)
theory Backfill_System
  imports Backfill_Worker
begin

text \<open>
  Several workers and the main process on one staging store. Every rule of \<open>bf_step\<close> is one
  operation of the code on the shared file: a worker claims rows, hands them to the sinks, marks
  one row done, or dies anywhere; the main process resets stale claims when no worker is left and
  reconciles live events. Workers are numbered. \<open>delivered\<close> and \<open>absorbed\<close> are histories: the rows
  that all sinks have taken and the live events that went past the store.
\<close>

section \<open>Steps\<close>

record 'w bf_sys =
  shared :: "BackfillDb \<times> 'w"
  held :: "nat \<Rightarrow> ClaimedRow list"
  clearing :: "nat \<Rightarrow> ClaimedRow list"
  delivered :: "ClaimedRow list"
  absorbed :: "ChangeEvent list"

definition idle :: "nat \<Rightarrow> 'w bf_sys \<Rightarrow> bool" where
  "idle i s \<longleftrightarrow> held s i = [] \<and> clearing s i = []"

inductive bf_step ::
  "'w sqlite \<Rightarrow> json_lib \<Rightarrow> BackfillUtil \<Rightarrow> ('s, 'p, 'w) worker_env \<Rightarrow> 's list \<Rightarrow> 'w bf_sys \<Rightarrow> 'w bf_sys \<Rightarrow> bool"
  for sq jl u env sks where
  claim: "idle i s \<Longrightarrow> claim_pending sq n (shared s) = (st, Inr cs) \<Longrightarrow>
    bf_step sq jl u env sks s (s\<lparr>shared := st, held := (held s)(i := cs)\<rparr>)"
| deliver: "held s i = cs \<Longrightarrow> clearing s i = [] \<Longrightarrow> mapE (to_change_event jl) cs = Inr evs \<Longrightarrow> call_sinks env sks evs (shared s) = (st, Inr ()) \<Longrightarrow>
    bf_step sq jl u env sks s (s\<lparr>shared := st, held := (held s)(i := []), clearing := (clearing s)(i := cs), delivered := delivered s @ cs\<rparr>)"
| clear: "clearing s i = c # cs \<Longrightarrow> mark_done sq (cr_table c) (cr_id c) (shared s) = (st, Inr ()) \<Longrightarrow>
    bf_step sq jl u env sks s (s\<lparr>shared := st, clearing := (clearing s)(i := cs)\<rparr>)"
| die: "bf_step sq jl u env sks s (s\<lparr>shared := (fst (shared s), w), held := (held s)(i := []), clearing := (clearing s)(i := [])\<rparr>)"
| release: "(\<And>i. idle i s) \<Longrightarrow> reset_stale_claims sq (shared s) = (st, Inr ()) \<Longrightarrow> bf_step sq jl u env sks s (s\<lparr>shared := st\<rparr>)"
| absorb: "absorb_event sq jl u e (shared s) = (st, r) \<Longrightarrow> bf_step sq jl u env sks s (s\<lparr>shared := st, absorbed := absorbed s @ [e]\<rparr>)"

inductive bf_steps ::
  "'w sqlite \<Rightarrow> json_lib \<Rightarrow> BackfillUtil \<Rightarrow> ('s, 'p, 'w) worker_env \<Rightarrow> 's list \<Rightarrow> 'w bf_sys \<Rightarrow> 'w bf_sys \<Rightarrow> bool"
  for sq jl u env sks where
  refl: "bf_steps sq jl u env sks s s"
| trans: "bf_steps sq jl u env sks s s' \<Longrightarrow> bf_step sq jl u env sks s' s'' \<Longrightarrow> bf_steps sq jl u env sks s s''"

text \<open>The key of the row that a live delete names.\<close>

definition deleted_key :: "BackfillUtil \<Rightarrow> ChangeEvent \<Rightarrow> (string \<times> string) option" where
  "deleted_key u e =
     (if op e = Delete then
        (case find_mapping (bu_mappings u) (table_name e) of
           None \<Rightarrow> None
         | Some tm \<Rightarrow>
             (case old_row e of
                None \<Rightarrow> None
              | Some row \<Rightarrow> if get_column row (id_source tm) = [] then None
                  else Some (c_str (source_table tm), c_str (get_column row (id_source tm)))))
      else None)"

section \<open>What a live event does to the store\<close>

text \<open>A live event removes at most the row it deletes, adds none and never changes who holds a row.\<close>

lemma absorb_event_scope:
  assumes ok: "store_ok sq s" and run: "absorb_event sq jl u e s = (s', r)"
  shows "store_ok sq s' \<and> (\<forall>k. map_option snd (store_view s' k) = map_option snd (store_view s k) \<or> store_view s' k = None \<and> deleted_key u e = Some k)"
proof (cases "find_mapping (bu_mappings u) (table_name e)")
  case None
  then show ?thesis using run ok by (auto simp: absorb_event_def split: if_splits)
next
  case tm: (Some tm)
  consider (other) "op e \<noteq> Update" "op e \<noteq> Delete" | (del) "op e = Delete" | (upd) "op e = Update" by blast
  then show ?thesis
  proof cases
    case other
    then show ?thesis using run ok by (simp add: absorb_event_def)
  next
    case del
    show ?thesis
    proof (cases "old_row e")
      case None
      then show ?thesis using run ok del tm by (simp add: absorb_event_def)
    next
      case (Some row)
      let ?i = "get_column row (id_source tm)"
      show ?thesis
      proof (cases "?i = []")
        case True
        then show ?thesis using run ok del tm Some by (simp add: absorb_event_def)
      next
        case False
        then have "bindS (mark_done sq (source_table tm) ?i) (\<lambda>_. returnS False) s = (s', r)"
          using run del tm Some by (simp add: absorb_event_def Let_def)
        then show ?thesis
        proof (cases rule: bindS_cases)
          case (stop f)
          then show ?thesis using bf.remove_law [OF ok stop(1)] by simp
        next
          case (step s1 x)
          then show ?thesis using bf.remove_law [OF ok step(1)] del tm Some False by (auto simp: deleted_key_def)
        qed
      qed
    qed
  next
    case upd
    show ?thesis
    proof (cases "new_row e")
      case None
      then show ?thesis using run ok upd tm by (simp add: absorb_event_def)
    next
      case (Some row)
      let ?i = "get_column row (id_source tm)"
      show ?thesis
      proof (cases "?i = []")
        case True
        then show ?thesis using run ok upd tm Some by (simp add: absorb_event_def)
      next
        case False
        then have "bindS (get_row_data sq (source_table tm) ?i) (\<lambda>existing. case existing of None \<Rightarrow> returnS False | Some data \<Rightarrow>
            bindS (liftE (bindE (j_parse jl data) (merge_known_columns row tm))) (\<lambda>merged. bindS (liftE (j_dump jl merged))
              (\<lambda>text. bindS (update_row_data sq (source_table tm) ?i text) (\<lambda>_. returnS True)))) s = (s', r)"
          using run upd tm Some by (simp add: absorb_event_def Let_def)
        then show ?thesis
        proof (cases rule: bindS_cases)
          case (stop f)
          then show ?thesis using bf.get_law [OF ok stop(1)] by simp
        next
          case (step s1 x)
          have s1: "store_ok sq s1" "store_view s1 = store_view s" using bf.get_law [OF ok step(1)] by simp_all
          show ?thesis
          proof (cases "\<exists>t s2 b. update_row_data sq (source_table tm) ?i t s1 = (s2, b) \<and> s' = s2")
            case True
            then obtain t b where up: "update_row_data sq (source_table tm) ?i t s1 = (s', b)" by blast
            show ?thesis using bf.update_law [OF s1(1) up] s1(2) by (cases b) (auto simp: option.map_comp comp_def case_prod_beta)
          next
            case no: False
            have "s' = s1"
            proof (cases x)
              case (Some data)
              show ?thesis
              proof (cases "bindE (bindE (j_parse jl data) (merge_known_columns row tm)) (j_dump jl)")
                case (Inl f)
                then show ?thesis using step(2) Some
                  by (cases "bindE (j_parse jl data) (merge_known_columns row tm)") (auto simp: bindE_def)
              next
                case (Inr t)
                then have "bindS (update_row_data sq (source_table tm) ?i t) (\<lambda>_. returnS True) s1 = (s', r)"
                  using step(2) Some by (cases "bindE (j_parse jl data) (merge_known_columns row tm)") (auto simp: bindE_def)
                then obtain b where "update_row_data sq (source_table tm) ?i t s1 = (s', b)" by (cases rule: bindS_cases) auto
                then show ?thesis using no by blast
              qed
            qed (use step(2) in simp)
            then show ?thesis using s1 by simp
          qed
        qed
      qed
    qed
  qed
qed

section \<open>Invariant\<close>

text \<open>The keys that worker \<open>i\<close> is busy with.\<close>

definition busy :: "nat \<Rightarrow> 'w bf_sys \<Rightarrow> (string \<times> string) set" where
  "busy i s = keys_of (held s i) \<union> keys_of (clearing s i)"

definition deleted_keys :: "BackfillUtil \<Rightarrow> 'w bf_sys \<Rightarrow> (string \<times> string) set" where
  "deleted_keys u s = {k. Some k \<in> deleted_key u ` set (absorbed s)}"

definition marked :: "(string \<times> string \<rightharpoonup> string \<times> bool) \<Rightarrow> (string \<times> string) set \<Rightarrow> bool" where
  "marked m K \<longleftrightarrow> (\<forall>k \<in> K. \<forall>d. m k \<noteq> Some (d, False))"

definition bf_inv :: "'w sqlite \<Rightarrow> BackfillUtil \<Rightarrow> (string \<times> string) set \<Rightarrow> 'w bf_sys \<Rightarrow> bool" where
  "bf_inv sq u D s \<longleftrightarrow> store_ok sq (shared s)
     \<and> (\<forall>i j. i \<noteq> j \<longrightarrow> busy i s \<inter> busy j s = {})
     \<and> (\<forall>i. marked (store_view (shared s)) (busy i s))
     \<and> (\<forall>i. clean_claims (held s i @ clearing s i) \<and> keys_of (clearing s i) \<subseteq> keys_of (delivered s))
     \<and> D \<subseteq> dom (store_view (shared s)) \<union> keys_of (delivered s) \<union> deleted_keys u s"

lemma keys_of_simps [simp]: "keys_of [] = {}" "keys_of (c # cs) = insert (cr_key c) (keys_of cs)" "keys_of (a @ b) = keys_of a \<union> keys_of b"
  by (auto simp: keys_of_def)

lemma clean_claims_simps [simp]: "clean_claims []" "clean_claims (a @ b) \<longleftrightarrow> clean_claims a \<and> clean_claims b"
  "clean_claims (c # cs) \<longleftrightarrow> c_str (cr_table c) = cr_table c \<and> c_str (cr_id c) = cr_id c \<and> clean_claims cs"
  by (auto simp: clean_claims_def)

lemma marked_Un [simp]: "marked m {}" "marked m (A \<union> B) \<longleftrightarrow> marked m A \<and> marked m B"
  by (auto simp: marked_def)

lemma marked_pending: "marked m K \<longleftrightarrow> K \<inter> pending_keys m = {}"
  by (auto simp: marked_def pending_keys_def)

lemma marked_antimono: "marked m K \<Longrightarrow> L \<subseteq> K \<Longrightarrow> marked m L"
  by (auto simp: marked_def)

lemma busy_upd [simp]:
  "busy j (s\<lparr>shared := st, held := (held s)(i := a)\<rparr>) = (if j = i then keys_of a \<union> keys_of (clearing s i) else busy j s)"
  "busy j (s\<lparr>shared := st, clearing := (clearing s)(i := b)\<rparr>) = (if j = i then keys_of (held s i) \<union> keys_of b else busy j s)"
  "busy j (s\<lparr>shared := st, held := (held s)(i := a), clearing := (clearing s)(i := b)\<rparr>) = (if j = i then keys_of a \<union> keys_of b else busy j s)"
  "busy j (s\<lparr>shared := st, held := (held s)(i := a), clearing := (clearing s)(i := b), delivered := d\<rparr>) = (if j = i then keys_of a \<union> keys_of b else busy j s)"
  "busy j (s\<lparr>shared := st\<rparr>) = busy j s" "busy j (s\<lparr>shared := st, absorbed := x\<rparr>) = busy j s"
  by (auto simp: busy_def)

lemma deleted_keys_upd [simp]:
  "deleted_keys u (s\<lparr>shared := st, held := h\<rparr>) = deleted_keys u s"
  "deleted_keys u (s\<lparr>shared := st, clearing := c\<rparr>) = deleted_keys u s"
  "deleted_keys u (s\<lparr>shared := st, held := h, clearing := c\<rparr>) = deleted_keys u s"
  "deleted_keys u (s\<lparr>shared := st, held := h, clearing := c, delivered := d\<rparr>) = deleted_keys u s"
  "deleted_keys u (s\<lparr>shared := st\<rparr>) = deleted_keys u s"
  by (simp_all add: deleted_keys_def)

lemma bf_invD:
  assumes "bf_inv sq u D s"
  shows "store_ok sq (shared s)" "i \<noteq> j \<Longrightarrow> busy i s \<inter> busy j s = {}" "marked (store_view (shared s)) (busy i s)"
    "clean_claims (held s i)" "clean_claims (clearing s i)" "keys_of (clearing s i) \<subseteq> keys_of (delivered s)"
    "D \<subseteq> dom (store_view (shared s)) \<union> keys_of (delivered s) \<union> deleted_keys u s"
  using assms by (simp_all add: bf_inv_def)

text \<open>How the invariant is rebuilt after a step that gives worker \<open>i\<close> the keys \<open>B\<close>.\<close>

lemma bf_invI:
  assumes "bf_inv sq u D s" "store_ok sq (shared s')"
    and "\<And>j. busy j s' = (if j = i then B else busy j s)" "\<And>j. j \<noteq> i \<Longrightarrow> B \<inter> busy j s = {}"
    and "marked (store_view (shared s')) B" "\<And>K. marked (store_view (shared s)) K \<Longrightarrow> marked (store_view (shared s')) K"
    and "\<And>j. clean_claims (held s' j @ clearing s' j) \<and> keys_of (clearing s' j) \<subseteq> keys_of (delivered s')"
    and "D \<subseteq> dom (store_view (shared s')) \<union> keys_of (delivered s') \<union> deleted_keys u s'"
  shows "bf_inv sq u D s'"
proof -
  have d: "busy j s \<inter> busy k s = {}" if "j \<noteq> k" for j k using assms(1) that by (simp add: bf_inv_def)
  have "busy j s' \<inter> busy k s' = {}" if "j \<noteq> k" for j k
    using that d [OF that] assms(4) [of j] assms(4) [of k] unfolding assms(3) by (auto split: if_splits)
  moreover have "marked (store_view (shared s')) (busy j s')" for j
    using assms(1,5,6) unfolding assms(3) by (simp add: bf_inv_def)
  ultimately show ?thesis using assms(2,7,8) by (simp add: bf_inv_def)
qed

lemma bf_step_inv:
  assumes step: "bf_step sq jl u env sks s s'" and inv: "bf_inv sq u D s"
  shows "bf_inv sq u D s'"
  using step
proof (cases rule: bf_step.cases)
  case (claim i n st cs)
  note I = bf_invD [OF inv]
  have c: "store_ok sq st" "claimable n (store_view (shared s)) cs" "store_view st = claims (keys_of cs) (store_view (shared s))" "clean_claims cs"
    using bf.claim_law [OF I(1) claim(3)] by (auto simp: keys_of_def clean_claims_def)
  have p: "pending_keys (store_view st) = pending_keys (store_view (shared s)) - keys_of cs" unfolding c(3) by (rule pending_claims)
  have dm: "dom (store_view st) = dom (store_view (shared s))" unfolding c(3) by (auto simp: claims_def dom_def)
  have sub: "keys_of cs \<subseteq> pending_keys (store_view (shared s))" using claimable_keys(1) [OF c(2)] .
  have idle: "held s i = []" "clearing s i = []" using claim(2) by (simp_all add: idle_def)
  show ?thesis unfolding claim(1)
  proof (rule bf_invI [OF inv, where i = i and B = "keys_of cs"])
    show "keys_of cs \<inter> busy j s = {}" for j using I(3) [of j] sub unfolding marked_pending by blast
    show "marked (store_view (shared (s\<lparr>shared := st, held := (held s)(i := cs)\<rparr>))) (keys_of cs)" by (simp add: marked_pending p)
  qed (use I(4-7) c(1,4) p dm idle in \<open>auto simp: marked_pending\<close>)
next
  case (deliver i cs evs st)
  note I = bf_invD [OF inv]
  have "fst st = fst (shared s)" using call_sinks_db [OF deliver(5)] .
  then have st: "store_view st = store_view (shared s)" "store_ok sq st" using I(1) by (simp_all add: store_defs)
  have B: "busy i s = keys_of cs" using deliver(2,3) by (simp add: busy_def)
  have cl: "clean_claims cs" using I(4) [of i] deliver(2) by simp
  show ?thesis unfolding deliver(1)
  proof (rule bf_invI [OF inv, where i = i and B = "keys_of cs"])
    show "keys_of cs \<inter> busy j s = {}" if "j \<noteq> i" for j using I(2) [of i j] that unfolding B by simp
  qed (use I(3) [of i] I(4-7) st cl B in \<open>auto\<close>)
next
  case (clear i c cs st)
  note I = bf_invD [OF inv]
  have cl: "c_str (cr_table c) = cr_table c" "c_str (cr_id c) = cr_id c" "cr_key c \<in> keys_of (delivered s)" "clean_claims cs"
    "keys_of cs \<subseteq> keys_of (delivered s)" using I(5,6) [of i] clear(2) by simp_all
  have st: "store_ok sq st" "store_view st = (store_view (shared s))(cr_key c := None)"
    using bf.remove_law [OF I(1) clear(3)] cl by simp_all
  have B: "busy i s = keys_of (held s i) \<union> keys_of (c # cs)" using clear(2) by (simp add: busy_def)
  show ?thesis unfolding clear(1)
  proof (rule bf_invI [OF inv, where i = i and B = "keys_of (held s i) \<union> keys_of cs"])
    show "(keys_of (held s i) \<union> keys_of cs) \<inter> busy j s = {}" if "j \<noteq> i" for j
      using I(2) [of i j] that unfolding B by auto
  next
    show "marked (store_view (shared (s\<lparr>shared := st, clearing := (clearing s)(i := cs)\<rparr>))) (keys_of (held s i) \<union> keys_of cs)"
      using I(3) [of i] unfolding B by (auto simp: st(2) marked_def)
  next
    show "D \<subseteq> dom (store_view (shared (s\<lparr>shared := st, clearing := (clearing s)(i := cs)\<rparr>))) \<union> keys_of (delivered (s\<lparr>shared := st, clearing := (clearing s)(i := cs)\<rparr>))
        \<union> deleted_keys u (s\<lparr>shared := st, clearing := (clearing s)(i := cs)\<rparr>)"
      using I(7) cl(3) by (simp add: st(2)) blast
  qed (use I(4-6) cl st in \<open>simp_all add: marked_def\<close>)
next
  case (die i w)
  note I = bf_invD [OF inv]
  have st: "store_view (fst (shared s), w) = store_view (shared s)" "store_ok sq (fst (shared s), w)"
    using I(1) by (simp_all add: store_defs)
  show ?thesis unfolding die
    by (rule bf_invI [OF inv, where i = i and B = "{}"]) (use I(4-7) st in simp_all)
next
  case (release st)
  note I = bf_invD [OF inv]
  have st: "store_ok sq st" "dom (store_view st) = dom (store_view (shared s))" using bf.release_law [OF I(1) release(3)] by (auto simp: dom_def)
  have "busy i s = {}" for i using release(2) [of i] by (simp add: idle_def busy_def)
  then show ?thesis using inv st unfolding release(1) by (simp add: bf_inv_def)
next
  case (absorb e st r)
  note I = bf_invD [OF inv]
  note scope = absorb_event_scope [OF I(1) absorb(2)]
  have del: "deleted_keys u (s\<lparr>shared := st, absorbed := absorbed s @ [e]\<rparr>) = deleted_keys u s \<union> {k. deleted_key u e = Some k}"
    by (auto simp: deleted_keys_def)
  have dm: "dom (store_view (shared s)) \<subseteq> dom (store_view st) \<union> {k. deleted_key u e = Some k}"
  proof
    fix k assume k: "k \<in> dom (store_view (shared s))"
    have "map_option snd (store_view st k) = map_option snd (store_view (shared s) k) \<or> deleted_key u e = Some k" using scope by blast
    then show "k \<in> dom (store_view st) \<union> {k. deleted_key u e = Some k}" using k by (cases "store_view st k") (auto simp: dom_def)
  qed
  have mk: "marked (store_view st) K" if m: "marked (store_view (shared s)) K" for K
    unfolding marked_def
  proof (intro ballI allI notI)
    fix k d assume k: "k \<in> K" "store_view st k = Some (d, False)"
    then have "map_option snd (store_view (shared s) k) = Some False" using conjunct2 [OF scope, rule_format, of k] by simp
    then obtain d' where "store_view (shared s) k = Some (d', False)" by (cases "store_view (shared s) k") auto
    then show False using m k(1) by (simp add: marked_def)
  qed
  have "D \<subseteq> dom (store_view st) \<union> keys_of (delivered s) \<union> (deleted_keys u s \<union> {k. deleted_key u e = Some k})" using I(7) dm by blast
  then show ?thesis using inv scope mk unfolding absorb(1) by (simp add: bf_inv_def del)
qed

lemma bf_steps_inv: "bf_steps sq jl u env sks s s' \<Longrightarrow> bf_inv sq u D s \<Longrightarrow> bf_inv sq u D s'"
  by (induction rule: bf_steps.induct) (auto intro: bf_step_inv)

text \<open>A store after the dump, before any worker has started.\<close>

definition bf_start :: "BackfillDb \<times> 'w \<Rightarrow> 'w bf_sys" where
  "bf_start st = \<lparr>shared = st, held = (\<lambda>_. []), clearing = (\<lambda>_. []), delivered = [], absorbed = []\<rparr>"

lemma bf_start_inv: "store_ok sq st \<Longrightarrow> bf_inv sq u (dom (store_view st)) (bf_start st)"
  by (simp add: bf_inv_def bf_start_def busy_def)

section \<open>The loop of a worker is made of these steps\<close>

lemma bf_steps_trans: "bf_steps sq jl u env sks b c \<Longrightarrow> bf_steps sq jl u env sks a b \<Longrightarrow> bf_steps sq jl u env sks a c"
  by (induction rule: bf_steps.induct) (auto intro: bf_steps.trans)

lemma clear_steps:
  assumes "clearing s i = cs" "mark_all_done sq cs (shared s) = (st, Inr ())"
  shows "bf_steps sq jl u env sks s (s\<lparr>shared := st, clearing := (clearing s)(i := [])\<rparr>)"
  using assms
proof (induction cs arbitrary: s)
  case Nil
  then have "s\<lparr>shared := st, clearing := (clearing s)(i := [])\<rparr> = s" by (auto simp: mark_all_done_def fun_upd_idem)
  then show ?case by (simp only: bf_steps.refl)
next
  case (Cons c cs)
  have "bindS (mark_done sq (cr_table c) (cr_id c)) (\<lambda>_. mark_all_done sq cs) (shared s) = (st, Inr ())"
    using Cons.prems(2) by (simp add: mark_all_done_def)
  then obtain s1 where s1: "mark_done sq (cr_table c) (cr_id c) (shared s) = (s1, Inr ())" "mark_all_done sq cs s1 = (st, Inr ())"
    by (cases rule: bindS_cases) auto
  let ?s = "s\<lparr>shared := s1, clearing := (clearing s)(i := cs)\<rparr>"
  have one: "bf_steps sq jl u env sks s ?s" using bf_steps.trans [OF bf_steps.refl bf_step.clear [OF Cons.prems(1) s1(1)]] .
  have "bf_steps sq jl u env sks ?s (?s\<lparr>shared := st, clearing := (clearing ?s)(i := [])\<rparr>)" by (rule Cons.IH) (simp_all add: s1(2))
  from bf_steps_trans [OF this one] show ?case by (simp del: fun_upd_apply)
qed


section \<open>Properties\<close>



section \<open>A sample run\<close>

lemma sample_claim:
  "claim_pending quiet_sqlite 200 (bf_dumped ''A'', [] :: ChangeEvent list list)
     = (((bf_dumped ''A'')\<lparr>backfill_rows := [(bf_row ''A'')\<lparr>br_status := ''claimed''\<rparr>]\<rparr>, []), Inr [\<lparr>cr_table = ''items'', cr_id = ''7'', cr_data = ''A''\<rparr>])"
  by code_simp

definition sample_claimed :: "ChangeEvent list list bf_sys" where
  "sample_claimed = (let s = bf_start (bf_dumped ''A'', []) in
     s\<lparr>shared := ((bf_dumped ''A'')\<lparr>backfill_rows := [(bf_row ''A'')\<lparr>br_status := ''claimed''\<rparr>]\<rparr>, []),
       held := (held s)(0 := [\<lparr>cr_table = ''items'', cr_id = ''7'', cr_data = ''A''\<rparr>])\<rparr>)"

lemma sample_claimed_steps: "bf_steps quiet_sqlite bf_json bf_util log_env [()] (bf_start (bf_dumped ''A'', [])) sample_claimed"
  unfolding sample_claimed_def Let_def
  by (rule bf_steps.trans [OF bf_steps.refl], rule bf_step.claim [where n = 200]) (simp_all add: idle_def bf_start_def sample_claim)

lemma sample_staged: "(''items'', ''7'') \<in> dom (staged (bf_dumped ''A''))"
  by (simp add: dom_staged bf_dumped_def bf_row_def)



lemma sample_round: "worker_step quiet_sqlite bf_json log_env [()] (bf_worker 200) (bf_dumped ''A'', []) = Inr (bf_done, [[bf_insert ''old'']])"
  by code_simp


end
