(* ===== verification/Replication_Source.thy ===== *)
theory Replication_Source
  imports Wal_Frame Pgoutput_Parser Backfill_Util Sink_Configuration
begin

text \<open>
  The PostgreSQL source: \<^verbatim>\<open>src/src/pgreplication_source.cpp\<close>. The state is the source
  object, the staging store of its backfill and the rest of the world. libpq, libevent, the clock
  and the callback that takes the events are fields of \<open>repl_env\<close>. \<open>rs_log\<close> is a history of the
  events that were passed on and the positions that were reported to the server.
\<close>

section \<open>Positions in the log\<close>

definition format_lsn :: "u64 \<Rightarrow> string" where
  "format_lsn lsn = show_hex (unat (ucast (drop_bit 32 lsn) :: u32)) @ ''/'' @ show_hex (unat (ucast (lsn AND 0xFFFFFFFF) :: u32))"

definition parse_lsn :: "string \<Rightarrow> u64" where
  "parse_lsn s =
     (let (hi, lo) = (case scan_hex (c_str s) of
          None \<Rightarrow> (0, 0)
        | Some (hi, rest) \<Rightarrow>
            (case rest of
               c # r \<Rightarrow> if c = CHR ''/'' then (hi, case scan_hex r of None \<Rightarrow> 0 | Some (lo, _) \<Rightarrow> lo) else (hi, 0)
             | [] \<Rightarrow> (hi, 0)))
      in push_bit 32 (ucast (hi :: u32)) OR ucast (lo :: u32))"

lemma c_str_hex: "c_str (show_hex a @ ''/'' @ show_hex b) = show_hex a @ ''/'' @ show_hex b"
proof (rule c_str_id)
  have "\<not> is_xdigit (CHR 0x00)" by (simp add: is_xdigit_def is_digit_def)
  then show "CHR 0x00 \<notin> set (show_hex a @ ''/'' @ show_hex b)" using show_hex_digits by auto
qed

lemma lsn_halves: "push_bit 32 (ucast (ucast (drop_bit 32 lsn) :: u32)) OR ucast (ucast (lsn AND 0xFFFFFFFF) :: u32) = (lsn :: u64)"
  (is "?l = lsn")
proof (rule bit_word_eqI)
  fix n assume n: "n < LENGTH(64)"
  have mask: "bit (0xFFFFFFFF :: u64) n \<longleftrightarrow> n < 32"
  proof -
    have eq: "(0xFFFFFFFF :: u64) = mask 32" by (simp add: mask_eq_exp_minus_1)
    show ?thesis unfolding eq bit_mask_iff using n by simp
  qed
  show "bit ?l n \<longleftrightarrow> bit lsn n"
  proof (cases "n < 32")
    case True
    then show ?thesis using n mask by (simp add: bit_or_iff bit_push_bit_iff bit_unsigned_iff bit_and_iff)
  next
    case False
    then have "n - 32 < 64" "n - 32 < 32" "32 + (n - 32) = n" using n by auto
    then show ?thesis using False n mask by (simp add: bit_or_iff bit_push_bit_iff bit_unsigned_iff bit_and_iff bit_drop_bit_eq)
  qed
qed

lemma parse_format: "parse_lsn (format_lsn lsn) = lsn"
proof -
  let ?hi = "ucast (drop_bit 32 lsn) :: u32" and ?lo = "ucast (lsn AND 0xFFFFFFFF) :: u32"
  have "scan_hex (show_hex (unat ?hi) @ ''/'' @ show_hex (unat ?lo)) = Some (word_of_nat (unat ?hi), ''/'' @ show_hex (unat ?lo))"
    using unat_bound [of ?hi] by (intro scan_show_hex) (simp_all add: is_xdigit_def is_digit_def)
  moreover have "scan_hex (show_hex (unat ?lo)) = Some (word_of_nat (unat ?lo), [])"
    using unat_bound [of ?lo] scan_show_hex [of "unat ?lo" "[]"] by simp
  ultimately show ?thesis unfolding parse_lsn_def format_lsn_def c_str_hex by (simp add: lsn_halves)
qed

text \<open>
  C38. Positions survive printing: reading back the text form of a position gives the position.
\<close>

theorem parse_format_lsn: "parse_lsn (format_lsn lsn) = lsn"
  by (rule parse_format)

section \<open>Configuration and state\<close>

record PgReplicationConfig =
  rc_host :: string
  rc_port :: string
  rc_dbname :: string
  rc_user :: string
  rc_password :: string
  slot_name :: string
  publication_name :: string
  rc_tls :: TlsConfig
  rc_backfill :: bool
  backfill_table_mappings :: "TableMapping list"
  backfill_store_path :: string

definition to_conninfo :: "PgReplicationConfig \<Rightarrow> string" where
  "to_conninfo c =
     ''host='' @ rc_host c @ '' port='' @ rc_port c @ '' dbname='' @ rc_dbname c @ '' user='' @ rc_user c @
     (if rc_password c = [] then [] else '' password='' @ rc_password c) @
     to_conninfo_fragment (rc_tls c) @ '' replication=database''"

datatype src_action = Handed ChangeEvent | Held ChangeEvent | Acked u64

record PgReplicationSource =
  rs_id :: nat
  rs_config :: PgReplicationConfig
  rs_conn :: bool
  rs_last_error :: string
  start_lsn :: string
  last_read_lsn :: u64
  confirmed_lsn :: u64
  last_status_update :: int
  rs_parser :: PgOutputParser
  rs_handle :: bool
  slot_freshly_created :: bool
  backfill_util :: "BackfillUtil option"
  read_event :: bool
  timer_event :: bool
  rs_log :: "src_action list"

definition new_PgReplicationSource :: "nat \<Rightarrow> PgReplicationConfig \<Rightarrow> PgReplicationSource" where
  "new_PgReplicationSource i c =
     \<lparr>rs_id = i, rs_config = c, rs_conn = False, rs_last_error = [], start_lsn = ''0/0'', last_read_lsn = 0,
      confirmed_lsn = 0, last_status_update = 0,
      rs_parser = \<lparr>relations = Map.empty, pending_commit_timestamp = 0\<rparr>, rs_handle = False, slot_freshly_created = False,
      backfill_util = (if rc_backfill c
        then Some (new_BackfillUtil (to_conninfo c) (backfill_table_mappings c) (backfill_store_path c)) else None),
      read_event = False, timer_event = False, rs_log = []\<rparr>"

datatype copy_data = CopyNothing | CopyEnded | CopyMessage "u8 list"

datatype ev_kind = ReadEvent | TimerEvent

record 'w repl_env =
  rp_conn :: "'w libpq_src"
  rp_dump :: "'w libpq_src"
  rp_sqlite :: "'w sqlite"
  rp_json :: json_lib
  rp_put :: "u8 list \<Rightarrow> 'w \<Rightarrow> 'w \<times> int"
  rp_flush :: "'w \<Rightarrow> 'w"
  rp_consume :: "'w \<Rightarrow> 'w"
  rp_get_copy :: "'w \<Rightarrow> 'w \<times> copy_data"
  rp_socket :: "'w \<Rightarrow> int"
  rp_time :: "'w \<Rightarrow> 'w \<times> int"
  rp_handle :: "ChangeEvent \<Rightarrow> nat \<Rightarrow> 'w \<Rightarrow> 'w \<times> failure option"
  rp_event_new :: "ev_kind \<Rightarrow> 'w \<Rightarrow> 'w \<times> bool"
  rp_event_add :: "ev_kind \<Rightarrow> 'w \<Rightarrow> 'w \<times> bool"
  rp_event_del :: "ev_kind \<Rightarrow> 'w \<Rightarrow> 'w"

type_synonym 'w rs = "PgReplicationSource \<times> BackfillDb \<times> 'w"

text \<open>Operations of the store, of the world and on the object.\<close>

definition on_store :: "('w, 'a) store_op \<Rightarrow> ('w rs, 'a) op" where
  "on_store m = (\<lambda>(r, s). case m s of (s', x) \<Rightarrow> ((r, s'), x))"

definition on_world :: "('w \<Rightarrow> 'w \<times> 'a) \<Rightarrow> ('w rs, 'a) op" where
  "on_world f = (\<lambda>(r, db, w). case f w of (w', x) \<Rightarrow> ((r, db, w'), Inr x))"

definition with_source :: "(PgReplicationSource \<Rightarrow> ('w rs, 'a) op) \<Rightarrow> ('w rs, 'a) op" where
  "with_source f = (\<lambda>(r, s). f r (r, s))"

definition set_source :: "(PgReplicationSource \<Rightarrow> PgReplicationSource) \<Rightarrow> ('w rs, unit) op" where
  "set_source f = (\<lambda>(r, s). ((f r, s), Inr ()))"

definition fail_with :: "string \<Rightarrow> ('w rs, bool) op" where
  "fail_with msg = bindS (set_source (\<lambda>r. r\<lparr>rs_last_error := msg\<rparr>)) (\<lambda>_. returnS False)"

text \<open>The error message of the connection.\<close>

definition fail_conn :: "'w repl_env \<Rightarrow> ('w rs, bool) op" where
  "fail_conn env = (\<lambda>(r, db, w). fail_with (src_error (rp_conn env) w) (r, db, w))"

text \<open>\<^verbatim>\<open>PQgetvalue\<close>: the empty text for a null, no text at all outside the row.\<close>

definition pq_value :: "string option list \<Rightarrow> nat \<Rightarrow> string result" where
  "pq_value row n = (if n < length row then Inr (case row ! n of None \<Rightarrow> [] | Some v \<Rightarrow> v) else Inl OutOfBounds)"

section \<open>Connecting\<close>

definition resume_slot :: "'w repl_env \<Rightarrow> ('w rs, unit) op" where
  "resume_slot env = with_source (\<lambda>r.
     if \<not> rs_conn r then set_source (\<lambda>r. r\<lparr>start_lsn := ''0/0''\<rparr>)
     else
       bindS (on_world (src_exec (rp_conn env) (c_str (''SELECT confirmed_flush_lsn FROM pg_replication_slots WHERE slot_name = '' @
           squote (slot_name (rs_config r)))))) (\<lambda>res.
         set_source (\<lambda>r. r\<lparr>start_lsn := (case res of Tuples ((Some v # _) # _) \<Rightarrow> v | _ \<Rightarrow> ''0/0'')\<rparr>)))"

definition create_slot :: "'w repl_env \<Rightarrow> ('w rs, unit) op" where
  "create_slot env = with_source (\<lambda>r.
     bindS (on_world (src_exec (rp_conn env) (c_str (''CREATE_REPLICATION_SLOT '' @ slot_name (rs_config r) @ '' LOGICAL pgoutput'')))) (\<lambda>res.
       case res of
         Tuples (row # _) \<Rightarrow>
           bindS (liftE (pq_value row 1)) (\<lambda>v. set_source (\<lambda>r. r\<lparr>start_lsn := v, slot_freshly_created := True\<rparr>))
       | _ \<Rightarrow> resume_slot env))"

definition filter_to_source_publication :: "'w repl_env \<Rightarrow> TableMapping list \<Rightarrow> ('w rs, TableMapping list) op" where
  "filter_to_source_publication env ms = with_source (\<lambda>r.
     bindS (on_world (src_exec (rp_conn env) (c_str (''SELECT tablename FROM pg_publication_tables WHERE pubname = '' @
         squote (publication_name (rs_config r)))))) (\<lambda>res.
       case res of
         Tuples rows \<Rightarrow>
           bindS (liftE (if list_all (\<lambda>row. row \<noteq> []) rows then Inr (map (\<lambda>row. case hd row of None \<Rightarrow> [] | Some v \<Rightarrow> v) rows) else Inl OutOfBounds))
             (\<lambda>published. returnS (filter (\<lambda>tm. source_table tm \<in> set published) ms))
       | _ \<Rightarrow> (\<lambda>(r, db, w). throwS (Throw (''failed to read publication membership for '' @
            squote (publication_name (rs_config r)) @ '': '' @ src_error (rp_conn env) w)) (r, db, w))))"

text \<open>The \<^verbatim>\<open>try\<close> block for the backfill.\<close>

definition prepare_backfill :: "'w repl_env \<Rightarrow> ('w rs, bool) op" where
  "prepare_backfill env = with_source (\<lambda>r.
     case backfill_util r of
       None \<Rightarrow> returnS True
     | Some u \<Rightarrow>
         catchS
           (bindS (on_store (util_open (rp_sqlite env) (rp_conn env) u)) (\<lambda>_.
            bindS (filter_to_source_publication env (backfill_table_mappings (rs_config r))) (\<lambda>ms.
            bindS (set_source (\<lambda>r. r\<lparr>backfill_util := Some (set_table_mappings ms u)\<rparr>)) (\<lambda>_.
            bindS (on_store (if slot_freshly_created r then util_reset (rp_sqlite env) else util_reset_stale_claims (rp_sqlite env))) (\<lambda>_.
            returnS True)))))
           (\<lambda>e. fail_with (''backfill store open failed: '' @ e)))"

definition finish_connect :: "'w repl_env \<Rightarrow> ('w rs, bool) op" where
  "finish_connect env =
     bindS (set_source (\<lambda>r. r\<lparr>last_read_lsn := parse_lsn (start_lsn r), confirmed_lsn := parse_lsn (start_lsn r)\<rparr>)) (\<lambda>_.
     bindS (on_world (rp_time env)) (\<lambda>t.
     bindS (set_source (\<lambda>r. r\<lparr>last_status_update := t\<rparr>)) (\<lambda>_. returnS True)))"

definition connect :: "'w repl_env \<Rightarrow> ('w rs, bool) op" where
  "connect env = with_source (\<lambda>r.
     bindS (on_world (src_connect (rp_conn env) (c_str (to_conninfo (rs_config r))))) (\<lambda>err.
       case err of
         Some e \<Rightarrow> bindS (set_source (\<lambda>r. r\<lparr>rs_last_error := e, rs_conn := False\<rparr>)) (\<lambda>_. returnS False)
       | None \<Rightarrow>
           bindS (set_source (\<lambda>r. r\<lparr>rs_conn := True\<rparr>)) (\<lambda>_.
           bindS (create_slot env) (\<lambda>_.
           bindS (prepare_backfill env) (\<lambda>ok. if ok then finish_connect env else returnS False)))))"

definition run_backfill_dump_if_required :: "'w repl_env \<Rightarrow> ('w rs, bool) op" where
  "run_backfill_dump_if_required env = with_source (\<lambda>r.
     case backfill_util r of
       None \<Rightarrow> returnS True
     | Some u \<Rightarrow>
         bindS (if slot_freshly_created r then returnS True else on_store (has_prior_dump_state (rp_sqlite env))) (\<lambda>go.
           if \<not> go then returnS True
           else
             bindS (on_store (dump_all (rp_sqlite env) (rp_dump env) (rp_json env) u)) (\<lambda>(u', ok).
               if ok then bindS (set_source (\<lambda>r. r\<lparr>backfill_util := Some u'\<rparr>)) (\<lambda>_. returnS True)
               else bindS (set_source (\<lambda>r. r\<lparr>backfill_util := Some u', rs_last_error := bu_last_error u'\<rparr>)) (\<lambda>_. returnS False))))"

definition has_pending_backfill_work :: "'w repl_env \<Rightarrow> ('w rs, bool) op" where
  "has_pending_backfill_work env = with_source (\<lambda>r.
     case backfill_util r of
       None \<Rightarrow> returnS False
     | Some u \<Rightarrow> catchS (on_store (has_pending_work (rp_sqlite env))) (\<lambda>e. returnS False))"

definition start_streaming :: "'w repl_env \<Rightarrow> ('w rs, bool) op" where
  "start_streaming env = with_source (\<lambda>r.
     if \<not> rs_conn r then fail_with ''start_streaming() called before a successful connect()''
     else
       bindS (on_world (src_exec (rp_conn env) (c_str (''START_REPLICATION SLOT '' @ slot_name (rs_config r) @ '' LOGICAL '' @ start_lsn r @
           '' (proto_version '' @ squote ''1'' @ '', publication_names '' @ squote (publication_name (rs_config r)) @ '')'')))) (\<lambda>res.
         if res = CopyBoth then returnS True else fail_conn env))"

section \<open>Status updates\<close>

definition set_confirmed_lsn :: "u64 \<Rightarrow> ('w rs, unit) op" where
  "set_confirmed_lsn lsn = set_source (\<lambda>r. r\<lparr>confirmed_lsn := lsn\<rparr>)"

fun put_bytes :: "nat \<Rightarrow> u64 \<Rightarrow> u8 list" where
  "put_bytes 0 v = []"
| "put_bytes (Suc i) v = ucast (drop_bit (i * 8) v AND 0xFF) # put_bytes i v"

definition put_u64 :: "u64 \<Rightarrow> u8 list" where
  "put_u64 v = put_bytes 8 v"

definition status_message :: "u64 \<Rightarrow> int \<Rightarrow> u8 list" where
  "status_message confirmed now =
     byte_of_char (CHR ''r'') # put_u64 confirmed @ put_u64 confirmed @ put_u64 confirmed @
       put_u64 ((word_of_int now - 946684800) * 1000000) @ [0]"

definition ping_update :: "'w repl_env \<Rightarrow> ('w rs, unit) op" where
  "ping_update env = with_source (\<lambda>r.
     bindS (on_world (rp_time env)) (\<lambda>now.
     bindS (on_world (rp_put env (status_message (confirmed_lsn r) now))) (\<lambda>n.
       if n \<le> 0 then returnS ()
       else bindS (set_source (\<lambda>r. r\<lparr>rs_log := rs_log r @ [Acked (confirmed_lsn r)]\<rparr>)) (\<lambda>_.
         on_world (\<lambda>w. (rp_flush env w, ()))))))"

definition flush_confirmed_lsn :: "'w repl_env \<Rightarrow> ('w rs, unit) op" where
  "flush_confirmed_lsn env = with_source (\<lambda>r. if \<not> rs_conn r then returnS () else ping_update env)"

definition on_timer :: "'w repl_env \<Rightarrow> ('w rs, unit) op" where
  "on_timer env = ping_update env"

section \<open>The stream\<close>

text \<open>The body of the loop over the decoded events.\<close>

definition pass_event :: "'w repl_env \<Rightarrow> u64 \<Rightarrow> ChangeEvent \<Rightarrow> ('w rs, unit) op" where
  "pass_event env lsn e0 =
     (let e = e0\<lparr>commit_lsn := lsn\<rparr> in
      with_source (\<lambda>r.
        bindS (case backfill_util r of None \<Rightarrow> returnS False | Some u \<Rightarrow> on_store (absorb_event (rp_sqlite env) (rp_json env) u e)) (\<lambda>absorbed.
          if absorbed then set_source (\<lambda>r. r\<lparr>rs_log := rs_log r @ [Held e]\<rparr>)
          else if \<not> rs_handle r then throwS (Throw ''bad_function_call'')
          else bindS (on_world (rp_handle env e (rs_id r))) (\<lambda>f.
            case f of Some err \<Rightarrow> throwS err
            | None \<Rightarrow> set_source (\<lambda>r. r\<lparr>rs_log := rs_log r @ [Handed e]\<rparr>)))))"

definition decode_payload :: "'w repl_env \<Rightarrow> XLogDataHeader \<Rightarrow> ('w rs, unit) op" where
  "decode_payload env h = with_source (\<lambda>r.
     bindS (liftE (parse (rs_parser r) (payload h))) (\<lambda>(p, evs).
     bindS (set_source (\<lambda>r. r\<lparr>rs_parser := p\<rparr>)) (\<lambda>_.
       case evs of None \<Rightarrow> returnS () | Some es \<Rightarrow> forS (pass_event env (wal_start h)) es)))"

text \<open>After a truncated header the code still reads the start position from it.\<close>

definition handle_message :: "'w repl_env \<Rightarrow> u8 list \<Rightarrow> ('w rs, unit) op" where
  "handle_message env buf =
     (if buf = [] then throwS OutOfBounds
      else if hd buf = byte_of_char (CHR ''k'') then
        (case parse_keepalive_message (Some buf) of
           None \<Rightarrow> returnS ()
         | Some ka \<Rightarrow>
             if reply_requested ka then
               bindS (ping_update env) (\<lambda>_. bindS (on_world (rp_time env)) (\<lambda>t. set_source (\<lambda>r. r\<lparr>last_status_update := t\<rparr>)))
             else returnS ())
      else if hd buf = byte_of_char (CHR ''w'') then
        (case parse_xlogdata_header (Some buf) of
           None \<Rightarrow> throwS OutOfBounds
         | Some h \<Rightarrow>
             bindS (catchS (decode_payload env h) (\<lambda>_. returnS ())) (\<lambda>_.
               set_source (\<lambda>r. r\<lparr>last_read_lsn := wal_start h\<rparr>)))
      else returnS ())"

definition stream_ended :: "'w repl_env \<Rightarrow> 'w rs \<Rightarrow> 'w rs" where
  "stream_ended env = (\<lambda>(r, db, w).
     (r\<lparr>rs_last_error := src_error (rp_conn env) w\<rparr>, db,
      let w1 = (if read_event r then rp_event_del env ReadEvent w else w)
      in if timer_event r then rp_event_del env TimerEvent w1 else w1))"

definition stream_step :: "'w repl_env \<Rightarrow> 'w rs \<Rightarrow> ('w rs \<times> unit result) + 'w rs" where
  "stream_step env = (\<lambda>(r, db, w).
     case rp_get_copy env w of
       (w', CopyNothing) \<Rightarrow> Inl ((r, db, w'), Inr ())
     | (w', CopyEnded) \<Rightarrow> Inl (stream_ended env (r, db, w'), Inr ())
     | (w', CopyMessage buf) \<Rightarrow>
         (case handle_message env buf (r, db, w') of
            (s, Inl e) \<Rightarrow> Inl (s, Inl e)
          | (s, Inr _) \<Rightarrow> Inr s))"

definition drain_available_messages :: "'w repl_env \<Rightarrow> 'w rs \<Rightarrow> ('w rs \<times> unit result) option" where
  "drain_available_messages env = (\<lambda>(r, db, w). loop (\<lambda>s. Some (stream_step env s)) (r, db, rp_consume env w))"

definition on_read :: "'w repl_env \<Rightarrow> 'w rs \<Rightarrow> ('w rs \<times> unit result) option" where
  "on_read env = drain_available_messages env"

section \<open>The event loop\<close>

definition add_event :: "'w repl_env \<Rightarrow> ev_kind \<Rightarrow> string \<Rightarrow> ('w rs, bool) op" where
  "add_event env k what =
     bindS (on_world (rp_event_new env k)) (\<lambda>made.
       if \<not> made then fail_with (''event_new() failed for the '' @ what)
       else
         bindS (set_source (case k of ReadEvent \<Rightarrow> (\<lambda>r. r\<lparr>read_event := True\<rparr>) | TimerEvent \<Rightarrow> (\<lambda>r. r\<lparr>timer_event := True\<rparr>))) (\<lambda>_.
         bindS (on_world (rp_event_add env k)) (\<lambda>added.
           if \<not> added then fail_with (''event_add() failed for the '' @ what) else returnS True)))"

definition register_event_loop :: "'w repl_env \<Rightarrow> ('w rs, bool) op" where
  "register_event_loop env = with_source (\<lambda>r.
     if \<not> rs_conn r then fail_with ''register_event_loop() called before a successful connect()''
     else
       bindS (set_source (\<lambda>r. r\<lparr>rs_handle := True\<rparr>)) (\<lambda>_.
       bindS (on_world (\<lambda>w. (w, rp_socket env w))) (\<lambda>sock.
         if sock < 0 then fail_with ''PQsocket() returned an invalid descriptor''
         else
           bindS (add_event env ReadEvent ''replication socket'') (\<lambda>ok.
             if \<not> ok then returnS False else add_event env TimerEvent ''standby-status timer''))))"

section \<open>What an operation leaves alone\<close>

definition keeps :: "(PgReplicationSource \<Rightarrow> bool) \<Rightarrow> ('w rs, 'a) op \<Rightarrow> bool" where
  "keeps P m \<longleftrightarrow> (\<forall>s s' x. P (fst s) \<longrightarrow> m s = (s', x) \<longrightarrow> P (fst s'))"

named_theorems keep_rules \<open>rules for the facts an operation keeps\<close>

lemma keeps_bindS [keep_rules]: "keeps P m \<Longrightarrow> (\<And>x. keeps P (f x)) \<Longrightarrow> keeps P (bindS m f)"
  unfolding keeps_def by (blast elim: bindS_cases)

lemma keeps_catchS [keep_rules]: "keeps P m \<Longrightarrow> (\<And>e. keeps P (h e)) \<Longrightarrow> keeps P (catchS m h)"
proof -
  assume m: "keeps P m" and h: "\<And>e. keeps P (h e)"
  have "P (fst s')" if P: "P (fst s)" and run: "catchS m h s = (s', x)" for s s' x
  proof -
    obtain t y where t: "m s = (t, y)" by (cases "m s")
    then have Pt: "P (fst t)" using m P unfolding keeps_def by blast
    have "P (fst s'')" if "h e t = (s'', z)" for e s'' z using h [of e] Pt that unfolding keeps_def by blast
    then show ?thesis using run t Pt by (auto simp: catchS_def split: sum.splits failure.splits)
  qed
  then show ?thesis unfolding keeps_def by blast
qed

lemma keeps_forS [keep_rules]: "(\<And>x. keeps P (f x)) \<Longrightarrow> keeps P (forS f xs)"
  unfolding keeps_def using forS_inv [where I = "\<lambda>s. P (fst s)"] by metis

lemma keeps_basic [keep_rules]:
  "keeps P (returnS x)" "keeps P (throwS e)" "keeps P (liftE y)" "keeps P (on_store m)" "keeps P (on_world g)"
  by (auto simp: keeps_def liftE_def on_store_def on_world_def split: prod.splits)

lemma keeps_with_source [keep_rules]: "(\<And>r. P r \<Longrightarrow> keeps P (f r)) \<Longrightarrow> keeps P (with_source f)"
proof -
  assume f: "\<And>r. P r \<Longrightarrow> keeps P (f r)"
  have "P (fst s')" if "P (fst s)" "with_source f s = (s', x)" for s s' x
    using f [of "fst s"] that unfolding keeps_def with_source_def split_beta by (metis prod.collapse)
  then show ?thesis unfolding keeps_def by blast
qed

lemma keeps_set_source: "(\<And>r. P r \<Longrightarrow> P (f r)) \<Longrightarrow> keeps P (set_source f)"
  by (auto simp: keeps_def set_source_def)

lemma keeps_cases [keep_rules]:
  "keeps P a \<Longrightarrow> (\<And>x. keeps P (b x)) \<Longrightarrow> keeps P (case y of None \<Rightarrow> a | Some x \<Rightarrow> b x)"
  "keeps P c \<Longrightarrow> keeps P d \<Longrightarrow> keeps P (if t then c else d)"
  "(\<And>x y. keeps P (e x y)) \<Longrightarrow> keeps P (case z of (x, y) \<Rightarrow> e x y)"
  by (auto split: option.splits prod.splits)

text \<open>The reported positions are among \<open>A\<close>.\<close>

definition acks_in :: "u64 set \<Rightarrow> PgReplicationSource \<Rightarrow> bool" where
  "acks_in A r \<longleftrightarrow> confirmed_lsn r \<in> A \<and> (\<forall>c. Acked c \<in> set (rs_log r) \<longrightarrow> c \<in> A)"

lemma ping_update_acks [keep_rules]: "keeps (acks_in A) (ping_update env)"
  unfolding ping_update_def by (intro keep_rules keeps_set_source) (auto simp: acks_in_def)

lemma pass_event_acks [keep_rules]: "keeps (acks_in A) (pass_event env lsn e)"
  unfolding pass_event_def Let_def by (intro keep_rules keeps_set_source) (auto simp: acks_in_def)

lemma decode_payload_acks [keep_rules]: "keeps (acks_in A) (decode_payload env h)"
  unfolding decode_payload_def by (intro keep_rules keeps_set_source) (auto simp: acks_in_def)

lemma handle_message_acks: "keeps (acks_in A) (handle_message env buf)"
  unfolding handle_message_def by (intro keep_rules keeps_set_source) (auto simp: acks_in_def)

lemma stream_step_acks:
  assumes "acks_in A (fst s)"
  shows "case stream_step env s of Inl y \<Rightarrow> acks_in A (fst (fst y)) | Inr s' \<Rightarrow> acks_in A (fst s')"
proof -
  obtain r db w where s: "s = (r, db, w)" by (cases s)
  obtain w' c where c: "rp_get_copy env w = (w', c)" by (cases "rp_get_copy env w")
  show ?thesis
  proof (cases c)
    case (CopyMessage buf)
    obtain s' x where h: "handle_message env buf (r, db, w') = (s', x)" by (cases "handle_message env buf (r, db, w')")
    have "acks_in A (fst s')" using handle_message_acks [of A env buf] assms h unfolding keeps_def s fst_conv by (metis fst_conv)
    then show ?thesis by (cases x) (simp_all add: s c CopyMessage h stream_step_def)
  qed (use assms in \<open>auto simp: s c stream_step_def stream_ended_def acks_in_def\<close>)
qed

lemma drain_acks:
  assumes "drain_available_messages env s = Some (s', x)" "acks_in A (fst s)"
  shows "acks_in A (fst s')"
proof -
  obtain r db w where s: "s = (r, db, w)" by (cases s)
  have "loop (\<lambda>s. Some (stream_step env s)) (r, db, rp_consume env w) = Some (s', x)"
    using assms(1) by (simp add: drain_available_messages_def s)
  then have "acks_in A (fst (fst (s', x)))"
  proof (rule loop_inv [where I = "\<lambda>s. acks_in A (fst s)" and Q = "\<lambda>y. acks_in A (fst (fst y))"])
    show "acks_in A (fst (r, db, rp_consume env w))" using assms(2) by (simp add: s)
  next
    fix a b assume "acks_in A (fst a)" "Some (stream_step env a) = Some (Inl b)"
    then show "acks_in A (fst (fst b))" using stream_step_acks [of A a env] by simp
  next
    fix a a' assume "acks_in A (fst a)" "Some (stream_step env a) = Some (Inr a')"
    then show "acks_in A (fst a')" using stream_step_acks [of A a env] by simp
  qed
  then show ?thesis by simp
qed

text \<open>
  A source at work: the dispatcher confirms positions, the event loop calls the two callbacks, the
  position is flushed at shutdown, and other parties change the world and the store.
\<close>

inductive source_run :: "'w repl_env \<Rightarrow> 'w rs \<Rightarrow> u64 list \<Rightarrow> 'w rs \<Rightarrow> bool" for env s where
  start: "source_run env s [] s"
| confirm: "source_run env s cs s1 \<Longrightarrow> set_confirmed_lsn c s1 = (s2, x) \<Longrightarrow> source_run env s (c # cs) s2"
| read: "source_run env s cs s1 \<Longrightarrow> on_read env s1 = Some (s2, x) \<Longrightarrow> source_run env s cs s2"
| timer: "source_run env s cs s1 \<Longrightarrow> on_timer env s1 = (s2, x) \<Longrightarrow> source_run env s cs s2"
| flush: "source_run env s cs s1 \<Longrightarrow> flush_confirmed_lsn env s1 = (s2, x) \<Longrightarrow> source_run env s cs s2"
| other: "source_run env s cs (r, st) \<Longrightarrow> source_run env s cs (r, st')"

lemma source_run_acks: "source_run env s cs s' \<Longrightarrow> acks_in A (fst s) \<Longrightarrow> acks_in (A \<union> set cs) (fst s')"
proof (induction rule: source_run.induct)
  case (confirm cs s1 c s2 x)
  then have "acks_in (A \<union> set cs) (fst s1)" by blast
  moreover have "fst s2 = (fst s1)\<lparr>confirmed_lsn := c\<rparr>" using confirm.hyps(2) by (cases s1) (auto simp: set_confirmed_lsn_def set_source_def)
  ultimately show ?case by (auto simp: acks_in_def)
next
  case (read cs s1 s2 x)
  then show ?case using drain_acks by (simp add: on_read_def)
next
  case (timer cs s1 s2 x)
  then show ?case using ping_update_acks unfolding on_timer_def keeps_def by blast
next
  case (flush cs s1 s2 x)
  have "keeps (acks_in B) (flush_confirmed_lsn env)" for B :: "u64 set" unfolding flush_confirmed_lsn_def by (intro keep_rules)
  then show ?case using flush unfolding keeps_def by blast
qed simp_all

lemma connect_log: "keeps (\<lambda>r. rs_log r = L) (connect env)"
proof -
  note [keep_rules] = keeps_set_source
  have res [keep_rules]: "keeps (\<lambda>r. rs_log r = L) (resume_slot env)"
    unfolding resume_slot_def by (intro keep_rules) simp_all
  have cr [keep_rules]: "keeps (\<lambda>r. rs_log r = L) (create_slot env)"
    unfolding create_slot_def by (intro keep_rules) (simp split: pg_reply.split list.split, intro conjI allI impI keep_rules, simp_all)
  have pub [keep_rules]: "keeps (\<lambda>r. rs_log r = L) (filter_to_source_publication env ms)" for ms
    unfolding filter_to_source_publication_def
    by (intro keep_rules) (auto split: pg_reply.splits intro!: keep_rules simp: keeps_def)
  have bf [keep_rules]: "keeps (\<lambda>r. rs_log r = L) (prepare_backfill env)"
    unfolding prepare_backfill_def fail_with_def by (intro keep_rules) simp_all
  show ?thesis unfolding connect_def finish_connect_def by (intro keep_rules) simp_all
qed

lemma connect_position:
  assumes "connect env s0 = (s, Inr True)"
  shows "confirmed_lsn (fst s) = parse_lsn (start_lsn (fst s))" "rs_log (fst s) = rs_log (fst s0)"
proof -
  show "rs_log (fst s) = rs_log (fst s0)" using connect_log assms unfolding keeps_def by blast
  have "\<exists>s1. finish_connect env s1 = (s, Inr True)"
    using assms by (auto simp: connect_def with_source_def split: prod.splits option.splits if_splits elim!: bindS_cases) blast
  then show "confirmed_lsn (fst s) = parse_lsn (start_lsn (fst s))"
    by (auto simp: finish_connect_def set_source_def on_world_def bindS_def split: prod.splits)
qed

section \<open>The store after a connect\<close>

lemmas source_ops = with_source_def set_source_def on_world_def on_store_def bindS_def returnS_def liftE_def

lemma create_slot_store:
  "create_slot env (r, db, w) = ((r', db', w'), x) \<Longrightarrow> db' = db \<and> backfill_util r' = backfill_util r \<and> rs_config r' = rs_config r"
  by (auto simp: create_slot_def resume_slot_def source_ops split: prod.splits pg_reply.splits list.splits sum.splits if_splits)

lemma filter_store:
  "filter_to_source_publication env ms (r, db, w) = ((r', db', w'), x) \<Longrightarrow> db' = db \<and> r' = r \<and> (\<forall>ms'. x = Inr ms' \<longrightarrow> set ms' \<subseteq> set ms)"
  by (auto simp: filter_to_source_publication_def source_ops throwS_def split: prod.splits pg_reply.splits if_splits)

lemma util_open_store: "util_open sq pq u (db, w) = ((db', w'), x) \<Longrightarrow> db' = db"
  by (auto simp: util_open_def store_open_def exec_or_throw_def bindS_def split: prod.splits option.splits if_splits sum.splits)

definition connected_store :: "PgReplicationSource \<Rightarrow> BackfillDb \<Rightarrow> BackfillDb" where
  "connected_store r db = (if slot_freshly_created r then empty_db else fst (run_sql id ReleaseClaims db))"

lemma reset_store:
  assumes "(if slot_freshly_created r then util_reset sq else util_reset_stale_claims sq) (db, w) = ((db', w'), Inr ())"
  shows "db' = connected_store r db"
  using assms
  by (auto simp: connected_store_def util_reset_def util_reset_stale_claims_def store_reset_def reset_stale_claims_def exec_or_throw_def
      bindS_def empty_db_def split: prod.splits option.splits if_splits sum.splits)

lemma prepare_store:
  assumes "prepare_backfill env (r, db, w) = ((r', db', w'), Inr True)" "backfill_util r = Some u"
  shows "slot_freshly_created r' = slot_freshly_created r \<and> db' = connected_store r db
     \<and> (\<exists>ms. backfill_util r' = Some (set_table_mappings ms u) \<and> set ms \<subseteq> set (backfill_table_mappings (rs_config r)))"
proof -
  obtain ms db1 w1 r2 db2 w2 where open1: "util_open (rp_sqlite env) (rp_conn env) u (db, w) = ((db1, w1), Inr ())"
    and filter1: "filter_to_source_publication env (backfill_table_mappings (rs_config r)) (r, db1, w1) = ((r2, db2, w2), Inr ms)"
    and r': "r' = r2\<lparr>backfill_util := Some (set_table_mappings ms u)\<rparr>"
    and reset1: "(if slot_freshly_created r then util_reset (rp_sqlite env) else util_reset_stale_claims (rp_sqlite env)) (db2, w2) = ((db', w'), Inr ())"
    using assms by (auto simp: prepare_backfill_def catchS_def fail_with_def source_ops split: prod.splits sum.splits failure.splits)
  have "db' = connected_store r db" "r2 = r" "set ms \<subseteq> set (backfill_table_mappings (rs_config r))"
    using reset_store [OF reset1] filter_store [OF filter1] util_open_store [OF open1] by simp_all
  then show ?thesis by (auto simp: r' intro!: exI [of _ ms])
qed

lemma connect_backfill:
  assumes "connect env (r0, db0, w0) = ((r, db, w), Inr True)" "backfill_util r0 = Some u"
  shows "db = connected_store r db0
     \<and> (\<exists>ms. backfill_util r = Some (set_table_mappings ms u) \<and> set ms \<subseteq> set (backfill_table_mappings (rs_config r0)))"
proof -
  obtain r1 w1 r2 db2 w2 r3 db3 w3 y where
    c: "create_slot env (r0\<lparr>rs_conn := True\<rparr>, db0, w1) = ((r2, db2, w2), Inr y)"
    and p: "prepare_backfill env (r2, db2, w2) = ((r3, db3, w3), Inr True)"
    and f: "finish_connect env (r3, db3, w3) = ((r, db, w), Inr True)"
    using assms(1) by (auto simp: connect_def source_ops split: prod.splits option.splits sum.splits if_splits)
  have "db2 = db0" "backfill_util r2 = Some u" "rs_config r2 = rs_config r0" using create_slot_store [OF c] assms(2) by simp_all
  moreover have "db = db3" "slot_freshly_created r = slot_freshly_created r3" "backfill_util r = backfill_util r3"
    using f by (auto simp: finish_connect_def source_ops split: prod.splits)
  ultimately show ?thesis using prepare_store [OF p] by (auto simp: connected_store_def)
qed

text \<open>
  C24. A slot that was just created starts a new epoch: connecting leaves no staged row and no dump
  record of an earlier slot of the same name. Connecting to an existing slot keeps every staged row
  and its data, and makes the rows a dead worker had claimed available again.
\<close>

theorem connect_store:
  assumes "connect env (r0, db0, w0) = ((r, db, w), Inr True)" "backfill_util r0 = Some u"
  shows "db = (if slot_freshly_created r then empty_db else fst (run_sql id ReleaseClaims db0))"
  using connect_backfill [OF assms] by (simp add: connected_store_def)

section \<open>What the stream says\<close>

text \<open>The two kinds of frames of the stream, as the server writes them.\<close>

datatype wire_frame = FData u64 u64 u64 wire_msg | FKeep u64 u64 u8

fun enc_frame :: "wire_frame \<Rightarrow> u8 list" where
  "enc_frame (FData a b t m) = byte_of_char (CHR ''w'') # enc_u64 a @ enc_u64 b @ enc_u64 t @ enc_msg m"
| "enc_frame (FKeep a t flag) = byte_of_char (CHR ''k'') # enc_u64 a @ enc_u64 t @ [flag]"

fun wf_frame :: "wire_frame \<Rightarrow> bool" where
  "wf_frame (FData a b t m) = wf_msg m"
| "wf_frame (FKeep a t flag) = True"

text \<open>A message about a relation that was never announced is skipped.\<close>

fun frame_meaning :: "PgOutputParser \<Rightarrow> wire_frame \<Rightarrow> PgOutputParser \<times> ChangeEvent list" where
  "frame_meaning p (FData a b t m) =
     (case msg_meaning p m of
        Inl _ \<Rightarrow> (p, [])
      | Inr (p', None) \<Rightarrow> (p', [])
      | Inr (p', Some es) \<Rightarrow> (p', map (\<lambda>e. e\<lparr>commit_lsn := a\<rparr>) es))"
| "frame_meaning p (FKeep a t flag) = (p, [])"

fun stream_meaning :: "PgOutputParser \<Rightarrow> wire_frame list \<Rightarrow> PgOutputParser \<times> ChangeEvent list" where
  "stream_meaning p [] = (p, [])"
| "stream_meaning p (f # fs) =
     (case frame_meaning p f of (p1, es) \<Rightarrow> case stream_meaning p1 fs of (p2, es') \<Rightarrow> (p2, es @ es'))"

fun handed :: "src_action list \<Rightarrow> ChangeEvent list" where
  "handed [] = []"
| "handed (Handed e # l) = e # handed l"
| "handed (_ # l) = handed l"

lemma handed_append [simp]: "handed (l @ l') = handed l @ handed l'"
  by (induction l rule: handed.induct) auto

lemma handed_map [simp]: "handed (map (\<lambda>e. Handed (f e)) es) = map f es"
  by (induction es) auto

text \<open>
  What is relied on: \<^verbatim>\<open>PQgetCopyData\<close> returns the buffered frames in order and then
  reports that nothing is left, and neither the event handler nor the status update takes frames
  out of the buffer. The handler accepts every event.
\<close>

definition stream_laws :: "'w repl_env \<Rightarrow> ('w \<Rightarrow> u8 list list) \<Rightarrow> bool" where
  "stream_laws env pend \<longleftrightarrow>
     (\<forall>w m ms. pend w = m # ms \<longrightarrow> (\<exists>w'. rp_get_copy env w = (w', CopyMessage m) \<and> pend w' = ms)) \<and>
     (\<forall>w. pend w = [] \<longrightarrow> (\<exists>w'. rp_get_copy env w = (w', CopyNothing))) \<and>
     (\<forall>e i w. \<exists>w'. rp_handle env e i w = (w', None) \<and> pend w' = pend w) \<and>
     (\<forall>bs w. pend (fst (rp_put env bs w)) = pend w) \<and>
     (\<forall>w. pend (fst (rp_time env w)) = pend w \<and> pend (rp_flush env w) = pend w)"

text \<open>The part of the state the hand-over depends on.\<close>

definition live :: "PgReplicationSource \<Rightarrow> bool" where
  "live r \<longleftrightarrow> backfill_util r = None \<and> rs_handle r"

lemma pass_events:
  assumes laws: "stream_laws env pend" and "live r"
  shows "\<exists>w'. forS (pass_event env lsn) es (r, db, w) =
      ((r\<lparr>rs_log := rs_log r @ map (\<lambda>e. Handed (e\<lparr>commit_lsn := lsn\<rparr>)) es\<rparr>, db, w'), Inr ()) \<and> pend w' = pend w"
  using assms(2)
proof (induction es arbitrary: r w)
  case Nil
  then show ?case by simp
next
  case (Cons e es)
  let ?e = "e\<lparr>commit_lsn := lsn\<rparr>"
  let ?r = "r\<lparr>rs_log := rs_log r @ [Handed ?e]\<rparr>"
  obtain w1 where w1: "rp_handle env ?e (rs_id r) w = (w1, None)" "pend w1 = pend w"
    using laws unfolding stream_laws_def by meson
  have step: "pass_event env lsn e (r, db, w) = ((?r, db, w1), Inr ())"
    using Cons.prems w1(1) by (simp add: live_def pass_event_def Let_def with_source_def set_source_def on_world_def bindS_def returnS_def)
  have "live ?r" using Cons.prems by (simp add: live_def)
  from Cons.IH [OF this, of w1] show ?case using step w1(2) by (auto simp: bindS_def)
qed

lemma ping_update_effect:
  assumes "stream_laws env pend"
  shows "\<exists>l w'. ping_update env (r, db, w) = ((r\<lparr>rs_log := l\<rparr>, db, w'), Inr ()) \<and> handed l = handed (rs_log r) \<and> pend w' = pend w"
proof -
  obtain w1 t where t: "rp_time env w = (w1, t)" by (cases "rp_time env w")
  let ?m = "status_message (confirmed_lsn r) t"
  obtain w2 n where n: "rp_put env ?m w1 = (w2, n)" by (cases "rp_put env ?m w1")
  have "pend w1 = pend w" "pend w2 = pend w1" "pend (rp_flush env w2) = pend w2"
    using assms t n unfolding stream_laws_def by (metis fst_conv)+
  moreover have "r = r\<lparr>rs_log := rs_log r\<rparr>" by simp
  ultimately show ?thesis using t n
    by (cases "n \<le> 0") (auto simp: ping_update_def with_source_def set_source_def on_world_def bindS_def returnS_def intro: exI [of _ "rs_log r"])
qed

lemma handle_frame:
  assumes laws: "stream_laws env pend" and r: "live r" and f: "wf_frame f"
  shows "\<exists>r' w'. handle_message env (enc_frame f) (r, db, w) = ((r', db, w'), Inr ()) \<and> live r' \<and>
     rs_parser r' = fst (frame_meaning (rs_parser r) f) \<and>
     handed (rs_log r') = handed (rs_log r) @ snd (frame_meaning (rs_parser r) f) \<and> pend w' = pend w"
proof (cases f)
  case (FKeep a t flag)
  obtain l w1 where ping: "ping_update env (r, db, w) = ((r\<lparr>rs_log := l\<rparr>, db, w1), Inr ())" "handed l = handed (rs_log r)" "pend w1 = pend w"
    using ping_update_effect [OF laws] by blast
  obtain w2 now where "rp_time env w1 = (w2, now)" by (cases "rp_time env w1")
  moreover from this have "pend w2 = pend w1" using laws unfolding stream_laws_def by (metis fst_conv)
  ultimately show ?thesis using ping r
    by (auto simp: FKeep handle_message_def parse_keepalive_enc live_def on_world_def set_source_def)
next
  case (FData a b t m)
  have p: "parse q (enc_msg m) = msg_meaning q m" for q using f parse_meaning by (simp add: FData)
  show ?thesis
  proof (cases "msg_meaning (rs_parser r) m")
    case (Inl e)
    then obtain msg where "e = Throw msg" by (cases m) (auto split: option.splits)
    then show ?thesis using Inl r
      by (auto simp: FData handle_message_def parse_xlogdata_enc p decode_payload_def with_source_def catchS_def set_source_def live_def byte_of_char_def)
  next
    case (Inr y)
    obtain q evs where y: "y = (q, evs)" by (cases y)
    let ?es = "case evs of None \<Rightarrow> [] | Some es \<Rightarrow> es"
    have "live (r\<lparr>rs_parser := q\<rparr>)" using r by (simp add: live_def)
    from pass_events [OF laws this, of a ?es db w] obtain w' where
      "forS (pass_event env a) ?es (r\<lparr>rs_parser := q\<rparr>, db, w) =
        ((r\<lparr>rs_parser := q, rs_log := rs_log r @ map (\<lambda>e. Handed (e\<lparr>commit_lsn := a\<rparr>)) ?es\<rparr>, db, w'), Inr ())" "pend w' = pend w"
      by auto
    then show ?thesis using Inr r
      by (cases evs) (auto simp: FData y handle_message_def parse_xlogdata_enc p decode_payload_def with_source_def catchS_def set_source_def
          live_def byte_of_char_def)
  qed
qed

lemma stream_loop:
  assumes laws: "stream_laws env pend" and "live r" "list_all wf_frame fs" "pend w = map enc_frame fs"
  shows "\<exists>r' w'. loop (\<lambda>s. Some (stream_step env s)) (r, db, w) = Some ((r', db, w'), Inr ()) \<and>
     rs_parser r' = fst (stream_meaning (rs_parser r) fs) \<and>
     handed (rs_log r') = handed (rs_log r) @ snd (stream_meaning (rs_parser r) fs)"
  using assms(2-)
proof (induction fs arbitrary: r w)
  case Nil
  then obtain w' where "rp_get_copy env w = (w', CopyNothing)" using laws unfolding stream_laws_def by auto
  then have "stream_step env (r, db, w) = Inl ((r, db, w'), Inr ())" by (simp add: stream_step_def)
  then have "loop (\<lambda>s. Some (stream_step env s)) (r, db, w) = Some ((r, db, w'), Inr ())" by (subst loop_simps(2)) simp_all
  then show ?case by auto
next
  case (Cons f fs)
  obtain w1 where w1: "rp_get_copy env w = (w1, CopyMessage (enc_frame f))" "pend w1 = map enc_frame fs"
    using laws Cons.prems(3) unfolding stream_laws_def list.map by meson
  obtain r2 w2 where h: "handle_message env (enc_frame f) (r, db, w1) = ((r2, db, w2), Inr ())" "live r2"
     "rs_parser r2 = fst (frame_meaning (rs_parser r) f)"
     "handed (rs_log r2) = handed (rs_log r) @ snd (frame_meaning (rs_parser r) f)" "pend w2 = pend w1"
    using handle_frame [OF laws Cons.prems(1), of f db w1] Cons.prems(2) by auto
  have "stream_step env (r, db, w) = Inr (r2, db, w2)" by (simp add: stream_step_def w1 h)
  moreover have "list_all wf_frame fs" "pend w2 = map enc_frame fs" using Cons.prems w1 h by simp_all
  ultimately show ?case using Cons.IH [OF h(2)] h(3,4)
    by (subst loop_simps(3)) (auto split: prod.splits)
qed



text \<open>
  A truncated data frame is not survived: after the warning about the missing header the code
  still reads the start position from the header it does not have.
\<close>

theorem truncated_xlogdata_frame:
  assumes "length bs < 24"
  shows "handle_message env (byte_of_char (CHR ''w'') # bs) s = (s, Inl OutOfBounds)"
  using assms by (simp add: handle_message_def parse_xlogdata_header_def throwS_def byte_of_char_def)

section \<open>The wire format of a status update\<close>

lemma be_bytes_Cons: "be_bytes (Suc k) n = word_of_nat (n div 256 ^ k mod 256) # be_bytes k n"
proof (induction k arbitrary: n)
  case (Suc k)
  have "be_bytes (Suc (Suc k)) n = be_bytes (Suc k) (n div 256) @ [word_of_nat (n mod 256)]" by simp
  also have "be_bytes (Suc k) (n div 256) = word_of_nat (n div 256 div 256 ^ k mod 256) # be_bytes k (n div 256)" by (rule Suc.IH)
  finally show ?case by (simp add: div_mult2_eq)
qed simp

lemma byte_at: "ucast (drop_bit (i * 8) v AND 0xFF) = (word_of_nat (unat (v :: u64) div 256 ^ i mod 256) :: u8)"
proof -
  have pow: "(256 :: nat) ^ i = 2 ^ (i * 8)" by (simp add: power_mult mult.commute [of i])
  have "unat (drop_bit (i * 8) v) = unat v div 256 ^ i" unfolding unat_drop_bit_eq by (simp add: drop_bit_eq_div pow)
  moreover have "(ucast (w AND 0xFF) :: u8) = word_of_nat (unat w mod 256)" for w :: u64
  proof -
    have "w AND 0xFF = take_bit 8 w" by (simp add: take_bit_eq_mask mask_eq_exp_minus_1)
    moreover have "unat (take_bit 8 w) = unat w mod 256" unfolding unsigned_take_bit_eq by (simp add: take_bit_eq_mod)
    ultimately have "unat (w AND 0xFF) = unat w mod 256" by simp
    then have "(word_of_nat (unat (w AND 0xFF)) :: u8) = word_of_nat (unat w mod 256)" by simp
    then show ?thesis by simp
  qed
  ultimately show ?thesis by metis
qed

lemma put_bytes_be: "put_bytes k v = be_bytes k (unat v)"
proof (induction k)
  case (Suc k)
  then show ?case unfolding put_bytes.simps be_bytes_Cons byte_at by simp
qed simp

text \<open>
  C37. A status update is the documented standby message: the letter r, the confirmed position three
  times and the microseconds since 2000 as big-endian 64-bit numbers, and no request for a reply.
\<close>

theorem status_message_layout:
  "status_message c now = byte_of_char (CHR ''r'') # enc_u64 c @ enc_u64 c @ enc_u64 c @ enc_u64 (word_of_int ((now - 946684800) * 1000000)) @ [0]"
  by (simp add: status_message_def put_u64_def put_bytes_be enc_u64_def)

section \<open>A small source\<close>

definition rs_sample_config :: "bool \<Rightarrow> PgReplicationConfig" where
  "rs_sample_config bf = \<lparr>rc_host = ''db'', rc_port = ''5432'', rc_dbname = ''app'', rc_user = ''u'', rc_password = [], slot_name = ''s'',
     publication_name = ''p'', rc_tls = no_tls, rc_backfill = bf, backfill_table_mappings = [bf_mapping],
     backfill_store_path = ''state/items.db''\<rparr>"

text \<open>The world is the list of the buffered frames; the slot is new and starts at 0/10.\<close>

definition rs_sample_env :: "u8 list list repl_env" where
  "rs_sample_env = \<lparr>rp_conn = \<lparr>src_connect = (\<lambda>_ w. (w, None)), src_exec = (\<lambda>q w. (w, if take 2 q = ''ST'' then CopyBoth else Tuples [[Some ''items'', Some ''0/10'']])),
       src_error = (\<lambda>_. []), make_dirs = (\<lambda>_ w. (w, None))\<rparr>,
     rp_dump = \<lparr>src_connect = (\<lambda>_ w. (w, None)), src_exec = (\<lambda>_ w. (w, Tuples [])), src_error = (\<lambda>_. []), make_dirs = (\<lambda>_ w. (w, None))\<rparr>,
     rp_sqlite = quiet_sqlite, rp_json = bf_json, rp_put = (\<lambda>_ w. (w, 1)), rp_flush = (\<lambda>w. w), rp_consume = (\<lambda>w. w),
     rp_get_copy = (\<lambda>w. case w of [] \<Rightarrow> ([], CopyNothing) | m # ms \<Rightarrow> (ms, CopyMessage m)), rp_socket = (\<lambda>_. 3),
     rp_time = (\<lambda>w. (w, 1700000000)), rp_handle = (\<lambda>_ _ w. (w, None)), rp_event_new = (\<lambda>_ w. (w, True)),
     rp_event_add = (\<lambda>_ w. (w, True)), rp_event_del = (\<lambda>_ w. w)\<rparr>"

lemma rs_sample_laws: "stream_laws rs_sample_env id"
  by (simp add: stream_laws_def rs_sample_env_def)

definition rs_sample :: PgReplicationSource where
  "rs_sample = (new_PgReplicationSource 0 (rs_sample_config False))\<lparr>rs_handle := True, rs_parser := items_parser\<rparr>"

definition rs_sample_frames :: "wire_frame list" where
  "rs_sample_frames = [FKeep 16 0 1, FData 24 24 0 (MDelete 16384 True [WText ''7'']), FData 32 32 0 (MInsert 5 []), FData 40 40 0 (MCommit [])]"


text \<open>The same source after connecting.\<close>

definition rs_connected :: "bool \<Rightarrow> PgReplicationSource" where
  "rs_connected bf = (new_PgReplicationSource 0 (rs_sample_config bf))\<lparr>rs_conn := True, start_lsn := ''0/10'', slot_freshly_created := True,
     last_read_lsn := 16, confirmed_lsn := 16, last_status_update := 1700000000\<rparr>"

lemma rs_sample_calls [simp]:
  "src_connect (rp_conn rs_sample_env) c w = (w, None)"
  "src_exec (rp_conn rs_sample_env) (c_str (CHR ''C'' # q)) w = (w, Tuples [[Some ''items'', Some ''0/10'']])"
  "src_exec (rp_conn rs_sample_env) (c_str (CHR ''S'' # CHR ''E'' # q)) w = (w, Tuples [[Some ''items'', Some ''0/10'']])"
  "src_exec (rp_conn rs_sample_env) (c_str (CHR ''S'' # CHR ''T'' # q)) w = (w, CopyBoth)"
  "make_dirs (rp_conn rs_sample_env) d w = (w, None)" "rp_time rs_sample_env w = (w, 1700000000)" "rp_sqlite rs_sample_env = quiet_sqlite"
  "rp_put rs_sample_env bs w = (w, 1)" "rp_flush rs_sample_env w = w"
  by (simp_all add: rs_sample_env_def c_str_def)

lemma quiet_exec: "exec_or_throw quiet_sqlite q (db, w) = ((fst (run_sql (\<lambda>rs. rs) q db), w), Inr ())"
  by (simp add: exec_or_throw_def quiet_sqlite_def)

lemma quiet_open: "util_open quiet_sqlite (rp_conn rs_sample_env) u (db, w) = ((db, w), Inr ())"
  by (simp add: util_open_def store_open_def bindS_def quiet_exec) (simp add: quiet_sqlite_def)

lemma rs_create_run:
  "create_slot rs_sample_env (r, db, w) = ((r\<lparr>start_lsn := ''0/10'', slot_freshly_created := True\<rparr>, db, w), Inr ())"
  by (simp add: create_slot_def source_ops pq_value_def)

lemma rs_publication_run: "filter_to_source_publication rs_sample_env [bf_mapping] (r, db, w) = ((r, db, w), Inr [bf_mapping])"
  by (simp add: filter_to_source_publication_def source_ops bf_mapping_def)

lemma rs_prepare_run:
  "backfill_util r = None \<Longrightarrow> prepare_backfill rs_sample_env (r, db, w) = ((r, db, w), Inr True)"
  "backfill_util r = Some u \<Longrightarrow> backfill_table_mappings (rs_config r) = [bf_mapping] \<Longrightarrow> bu_mappings u = [bf_mapping] \<Longrightarrow> slot_freshly_created r \<Longrightarrow>
     prepare_backfill rs_sample_env (r, db, w) = ((r, empty_db, w), Inr True)"
  by (simp_all add: prepare_backfill_def source_ops catchS_def quiet_open rs_publication_run set_table_mappings_def util_reset_def store_reset_def
      quiet_exec empty_db_def)

lemma rs_finish_run:
  "start_lsn r = ''0/10'' \<Longrightarrow> finish_connect rs_sample_env (r, db, w) =
     ((r\<lparr>last_read_lsn := 16, confirmed_lsn := 16, last_status_update := 1700000000\<rparr>, db, w), Inr True)"
proof -
  have "show_hex 0 = ''0''" "show_hex 16 = ''10''" by code_simp+
  then have "format_lsn 16 = ''0/10''" by (simp add: format_lsn_def)
  then have "parse_lsn ''0/10'' = 16" using parse_format [of 16] by simp
  then show "start_lsn r = ''0/10'' \<Longrightarrow> ?thesis" by (simp add: finish_connect_def source_ops)
qed

lemma rs_connect_run:
  "connect rs_sample_env (new_PgReplicationSource 0 (rs_sample_config bf), bf_dumped ''A'', []) =
     ((rs_connected bf, if bf then empty_db else bf_dumped ''A'', []), Inr True)"
  by (cases bf)
     (simp_all add: connect_def source_ops rs_create_run rs_prepare_run rs_finish_run rs_connected_def new_PgReplicationSource_def
        rs_sample_config_def new_BackfillUtil_def)

theorem connect_store_witness:
  "\<exists>r. connect rs_sample_env (new_PgReplicationSource 0 (rs_sample_config True), bf_dumped ''A'', []) = ((r, empty_db, []), Inr True)
     \<and> slot_freshly_created r"
proof -
  obtain u where "backfill_util (new_PgReplicationSource 0 (rs_sample_config True)) = Some u"
    by (simp add: new_PgReplicationSource_def rs_sample_config_def)
  from connect_store [OF rs_connect_run this] show ?thesis using rs_connect_run [of True] by (auto simp: rs_connected_def)
qed


theorem truncated_xlogdata_frame_witness:
  "handle_message rs_sample_env (byte_of_char (CHR ''w'') # replicate 23 0) (rs_sample, empty_db, []) = ((rs_sample, empty_db, []), Inl OutOfBounds)"
  by (rule truncated_xlogdata_frame) simp

end
