(* ===== verification/Provider_Factory.thy ===== *)
theory Provider_Factory
  imports Caching_Provider Openai_Provider Llama_Provider
begin

text \<open>
  The choice and set-up of the embedding provider: \<^verbatim>\<open>src/src/embedding_provider.cpp\<close>,
  with the virtual calls of \<^verbatim>\<open>EmbeddingProvider\<close> as functions on the sum of its
  implementations.
\<close>

datatype ('m, 'c, 'l) base_provider = Llama "('m, 'c, 'l) LlamaProvider" | OpenAI OpenAIProvider

datatype ('m, 'c, 'l) EmbeddingProvider = Plain "('m, 'c, 'l) base_provider" | Cached "('m, 'c, 'l) base_provider CachingEmbeddingProvider"

definition make_embedding_provider :: "EmbeddingConfig \<Rightarrow> ('m, 'c, 'l) base_provider result" where
  "make_embedding_provider cfg =
     (if provider cfg = ''llama'' then Inr (Llama (new_LlamaProvider cfg))
      else if provider cfg = ''openai'' then Inr (OpenAI (new_OpenAIProvider cfg))
      else Inl (Throw (''make_embedding_provider: unknown provider '' @ squote (provider cfg) @ '' '' @ em_dash @
        '' valid values: '' @ squote ''llama'' @ '', '' @ squote ''openai'')))"

fun provider_init :: "('m, 'c, 'l) llama_lib \<Rightarrow> bool \<Rightarrow> ('m, 'c, 'l) base_provider \<Rightarrow> ('m, 'c, 'l) base_provider result" where
  "provider_init lib handle (Llama p) = bindE (llama_init lib p) (\<lambda>p. Inr (Llama p))"
| "provider_init lib handle (OpenAI p) = bindE (openai_init handle p) (\<lambda>p. Inr (OpenAI p))"

text \<open>
  \<open>None\<close> when the computation of the cache size does not end. The batch size is converted from
  \<^verbatim>\<open>int\<close> to \<^verbatim>\<open>size_t\<close>.
\<close>

definition create_initialized_embedding_provider ::
  "('m, 'c, 'l) llama_lib \<Rightarrow> bool \<Rightarrow> EmbeddingConfig \<Rightarrow> bool \<Rightarrow> ('m, 'c, 'l) EmbeddingProvider result option" where
  "create_initialized_embedding_provider lib handle cfg use_cached =
     (case bindE (make_embedding_provider cfg) (provider_init lib handle) of
        Inl (Throw e) \<Rightarrow> Some (Inl (Throw ''EmbeddingProvider: failed to create context''))
      | Inl OutOfBounds \<Rightarrow> Some (Inl OutOfBounds)
      | Inr p \<Rightarrow>
          if \<not> use_cached then Some (Inr (Plain p))
          else map_option (\<lambda>n. Inr (Cached (new_caching_provider p (unat n)))) (cache_size_for_batch (word_of_int (max_batch_size cfg))))"

section \<open>What a created provider is\<close>

fun base_of :: "('m, 'c, 'l) EmbeddingProvider \<Rightarrow> ('m, 'c, 'l) base_provider" where
  "base_of (Plain p) = p"
| "base_of (Cached c) = inner c"

text \<open>The handles that the calls of a provider use are there.\<close>

fun base_ready :: "('m, 'c, 'l) base_provider \<Rightarrow> bool" where
  "base_ready (Llama p) \<longleftrightarrow> lp_model p \<noteq> None \<and> lp_ctx p \<noteq> None \<and> (lp_lora_path p = [] \<or> lp_lora p \<noteq> None)"
| "base_ready (OpenAI p) \<longleftrightarrow> oa_http p \<noteq> None \<and> oa_api_key p \<noteq> []"

lemma llama_init_ready: "llama_init lib p = Inr p' \<Longrightarrow> base_ready (Llama p')"
  by (auto simp: llama_init_def llama_activate_lora_def Let_def split: option.splits if_splits prod.splits)

lemma provider_init_ready: "provider_init lib handle p = Inr p' \<Longrightarrow> base_ready p'"
proof (cases p)
  case (Llama q)
  assume "provider_init lib handle p = Inr p'"
  then obtain q' where "llama_init lib q = Inr q'" "p' = Llama q'" by (cases "llama_init lib q") (auto simp: Llama)
  then show ?thesis using llama_init_ready by blast
next
  case (OpenAI q)
  assume "provider_init lib handle p = Inr p'"
  then show ?thesis by (auto simp: OpenAI openai_init_def split: if_splits)
qed

lemma cache_size_bounds:
  assumes "cache_size_for_batch b = Some n"
  shows "16 \<le> unat n \<and> unat b \<le> unat n"
proof -
  obtain k where "max b 16 \<le> n" using assms grow_power_result unfolding cache_size_for_batch_def by blast
  then have "16 \<le> n" "b \<le> n" by simp_all
  then show ?thesis by (simp_all add: word_le_nat_alt)
qed

text \<open>
  C34. A provider that was created is ready for use: its model and context, or its connection and key,
  are in place, so is the adapter when one is configured, and the cache in front of it starts empty
  and holds at least sixteen entries and a whole batch. For every batch size that is not negative
  the creation ends.
\<close>

theorem created_provider_ready:
  assumes "max_batch_size cfg < 2 ^ 31"
  shows "(0 \<le> max_batch_size cfg \<longrightarrow> create_initialized_embedding_provider lib handle cfg use_cached \<noteq> None) \<and>
    (\<forall>p. create_initialized_embedding_provider lib handle cfg use_cached = Some (Inr p) \<longrightarrow>
       base_ready (base_of p) \<and> (\<forall>c. p = Cached c \<longrightarrow> lru c = [] \<and> 16 \<le> max_entries c \<and> max_batch_size cfg \<le> int (max_entries c)))"
proof (intro conjI impI allI)
  let ?b = "word_of_int (max_batch_size cfg) :: u64"
  have b: "unat ?b = nat (max_batch_size cfg)" if "0 \<le> max_batch_size cfg"
    using that assms by (simp add: unat_eq_nat_uint uint_word_of_int)
  show "create_initialized_embedding_provider lib handle cfg use_cached \<noteq> None" if "0 \<le> max_batch_size cfg"
  proof -
    have "unat ?b \<le> 2 ^ 63" using b [OF that] assms by simp
    then obtain n where "cache_size_for_batch ?b = Some n" using cache_size_power by blast
    then show ?thesis
      by (auto simp: create_initialized_embedding_provider_def split: sum.splits failure.splits)
  qed
  fix p assume p: "create_initialized_embedding_provider lib handle cfg use_cached = Some (Inr p)"
  then obtain q where q: "bindE (make_embedding_provider cfg) (provider_init lib handle) = Inr q" "base_of p = q"
    by (auto simp: create_initialized_embedding_provider_def new_caching_provider_def split: sum.splits failure.splits if_splits)
  then show "base_ready (base_of p)" using provider_init_ready by (cases "make_embedding_provider cfg :: ('a, 'b, 'c) base_provider result") auto
  fix c assume c: "p = Cached c"
  then obtain n where n: "cache_size_for_batch ?b = Some n" "c = new_caching_provider q (unat n)"
    using p q by (auto simp: create_initialized_embedding_provider_def split: sum.splits failure.splits if_splits)
  then show "lru c = []" "16 \<le> max_entries c" using cache_size_bounds [OF n(1)] by (simp_all add: new_caching_provider_def)
  show "max_batch_size cfg \<le> int (max_entries c)"
  proof (cases "0 \<le> max_batch_size cfg")
    case True
    then have "nat (max_batch_size cfg) \<le> max_entries c" using cache_size_bounds [OF n(1)] b n(2) by (simp add: new_caching_provider_def)
    then show ?thesis by linarith
  qed linarith
qed

theorem created_provider_ready_witness:
  "\<exists>p. create_initialized_embedding_provider echo_llama True (default_embedding\<lparr>provider := ''openai'', api_key := ''k'', max_batch_size := 20\<rparr>) False = Some (Inr p)
     \<and> base_ready (base_of p)"
proof -
  let ?cfg = "default_embedding\<lparr>provider := ''openai'', api_key := ''k'', max_batch_size := 20\<rparr>"
  have "max_batch_size ?cfg < 2 ^ 31" by simp
  moreover obtain p where "create_initialized_embedding_provider echo_llama True ?cfg False = Some (Inr p)"
    by (auto simp: create_initialized_embedding_provider_def make_embedding_provider_def new_OpenAIProvider_def openai_init_def resolve_api_key_def)
  ultimately show ?thesis using created_provider_ready [of ?cfg echo_llama True False] by blast
qed

end
