(* ===== verification/Command_Line.thy ===== *)
theory Command_Line
  imports C_Library "HOL-Library.Sublist"
begin

text \<open>
  What the two programs use of \<^verbatim>\<open>getopt_long\<close>: short options, alone or in a cluster,
  with the argument attached or as the next word; long options, by name or by an unambiguous
  prefix, with the argument after an equals sign or as the next word; words that are no options
  are passed over, and a double dash ends the options.
\<close>

datatype getopt_result = Opt char string | BadOpt

record long_option =
  lo_name :: string
  lo_arg :: bool
  lo_val :: char

text \<open>The values of the tables in use differ, so a prefix of two names is ambiguous.\<close>

definition find_long :: "long_option list \<Rightarrow> string \<Rightarrow> long_option option" where
  "find_long ls n =
     (case filter (\<lambda>l. lo_name l = n) ls of
        l # _ \<Rightarrow> Some l
      | [] \<Rightarrow> (case filter (\<lambda>l. prefix n (lo_name l)) ls of [l] \<Rightarrow> Some l | _ \<Rightarrow> None))"

fun long_result :: "long_option option \<Rightarrow> string option \<Rightarrow> string list \<Rightarrow> getopt_result \<times> string list" where
  "long_result None v args = (BadOpt, args)"
| "long_result (Some l) (Some v) args = (if lo_arg l then Opt (lo_val l) v else BadOpt, args)"
| "long_result (Some l) None args =
     (if \<not> lo_arg l then (Opt (lo_val l) [], args)
      else case args of [] \<Rightarrow> (BadOpt, []) | a # rest \<Rightarrow> (Opt (lo_val l) a, rest))"

definition scan_long :: "long_option list \<Rightarrow> string \<Rightarrow> string list \<Rightarrow> getopt_result \<times> string list" where
  "scan_long ls w args =
     long_result (find_long ls (takeWhile (\<lambda>c. c \<noteq> CHR ''='') w))
       (case dropWhile (\<lambda>c. c \<noteq> CHR ''='') w of [] \<Rightarrow> None | _ # v \<Rightarrow> Some v) args"

text \<open>The letters of a word; \<open>sp c\<close> says whether the option \<open>c\<close> has an argument.\<close>

fun scan_short :: "(char \<rightharpoonup> bool) \<Rightarrow> string \<Rightarrow> string list \<Rightarrow> getopt_result list \<times> string list" where
  "scan_short sp [] args = ([], args)"
| "scan_short sp (c # cs) args =
     (case sp c of
        None \<Rightarrow> (case scan_short sp cs args of (os, rest) \<Rightarrow> (BadOpt # os, rest))
      | Some False \<Rightarrow> (case scan_short sp cs args of (os, rest) \<Rightarrow> (Opt c [] # os, rest))
      | Some True \<Rightarrow>
          if cs \<noteq> [] then ([Opt c cs], args)
          else (case args of [] \<Rightarrow> ([BadOpt], []) | a # rest \<Rightarrow> ([Opt c a], rest)))"

lemma long_result_length: "long_result l v args = (r, rest) \<Longrightarrow> length rest \<le> length args"
  by (induction l v args rule: long_result.induct) (auto split: if_splits list.splits)

lemma scan_long_length: "scan_long ls w args = (r, rest) \<Longrightarrow> length rest \<le> length args"
  unfolding scan_long_def by (rule long_result_length)

lemma scan_short_length: "scan_short sp cs args = (os, rest) \<Longrightarrow> length rest \<le> length args"
  by (induction sp cs args arbitrary: os rest rule: scan_short.induct)
     (auto split: option.splits bool.splits prod.splits if_splits list.splits)

text \<open>One word of the command line, with the words it leaves; \<open>None\<close> for the double dash.\<close>

definition getopt_word ::
  "(char \<rightharpoonup> bool) \<Rightarrow> long_option list \<Rightarrow> string \<Rightarrow> string list \<Rightarrow> (getopt_result list \<times> string list) option" where
  "getopt_word sp ls w args =
     (case w of
        c # d # cs \<Rightarrow>
          if c \<noteq> CHR ''-'' then Some ([], args)
          else if d \<noteq> CHR ''-'' then Some (scan_short sp (d # cs) args)
          else if cs = [] then None
          else (case scan_long ls cs args of (r, rest) \<Rightarrow> Some ([r], rest))
      | _ \<Rightarrow> Some ([], args))"

lemma getopt_word_length: "getopt_word sp ls w args = Some (os, rest) \<Longrightarrow> length rest \<le> length args"
  unfolding getopt_word_def using scan_short_length scan_long_length
  by (auto simp del: scan_short.simps split: list.splits if_splits prod.splits)

text \<open>All results of the calls of \<^verbatim>\<open>getopt_long\<close> on the words after the program name.\<close>

function getopt_long :: "(char \<rightharpoonup> bool) \<Rightarrow> long_option list \<Rightarrow> string list \<Rightarrow> getopt_result list" where
  "getopt_long sp ls [] = []"
| "getopt_long sp ls (w # args) =
     (case getopt_word sp ls w args of None \<Rightarrow> [] | Some (os, rest) \<Rightarrow> os @ getopt_long sp ls rest)"
  by pat_completeness auto
termination
proof (relation "measure (\<lambda>(sp, ls, args). length args)")
  fix sp ls and w :: string and args x os rest
  assume "getopt_word sp ls w args = Some x" "(os, rest) = x"
  then show "((sp, ls, rest), sp, ls, w # args) \<in> measure (\<lambda>(sp, ls, args). length args)"
    using getopt_word_length [of sp ls w args os rest] by simp
qed simp

end
