(* ===== verification/Worker_Main.thy ===== *)
theory Worker_Main
  imports Command_Line Backfill_Worker
begin

text \<open>
  The program that drains one backfill store: \<^verbatim>\<open>src/src/walkrie_worker_main.cpp\<close>. The
  result of a run is its exit code, or the failure that ends the process.
\<close>

record WorkerOptions =
  wo_config_path :: string
  wo_store_path :: string
  wo_slot_name :: string
  wo_batch_size :: u64
  wo_show_help :: bool

definition default_worker_options :: WorkerOptions where
  "default_worker_options = \<lparr>wo_config_path = [], wo_store_path = [], wo_slot_name = [], wo_batch_size = 200, wo_show_help = False\<rparr>"

definition worker_long_opts :: "long_option list" where
  "worker_long_opts =
     [\<lparr>lo_name = ''config'', lo_arg = True, lo_val = CHR ''c''\<rparr>,
      \<lparr>lo_name = ''store'', lo_arg = True, lo_val = CHR ''s''\<rparr>,
      \<lparr>lo_name = ''slot'', lo_arg = True, lo_val = CHR ''n''\<rparr>,
      \<lparr>lo_name = ''batch-size'', lo_arg = True, lo_val = CHR ''b''\<rparr>,
      \<lparr>lo_name = ''help'', lo_arg = False, lo_val = CHR ''h''\<rparr>]"

definition worker_short_opts :: "char \<rightharpoonup> bool" where
  "worker_short_opts = [CHR ''c'' \<mapsto> True, CHR ''h'' \<mapsto> False]"

text \<open>The loop over the options; \<open>Inl\<close> is the code of an early exit.\<close>

fun worker_apply_opts :: "getopt_result list \<Rightarrow> WorkerOptions \<Rightarrow> (int + WorkerOptions) result" where
  "worker_apply_opts [] opts = Inr (Inr opts)"
| "worker_apply_opts (BadOpt # rs) opts = Inr (Inl 1)"
| "worker_apply_opts (Opt c a # rs) opts =
     (if c = CHR ''c'' then worker_apply_opts rs (opts\<lparr>wo_config_path := a\<rparr>)
      else if c = CHR ''s'' then worker_apply_opts rs (opts\<lparr>wo_store_path := a\<rparr>)
      else if c = CHR ''n'' then worker_apply_opts rs (opts\<lparr>wo_slot_name := a\<rparr>)
      else if c = CHR ''b'' then bindE (stoul a) (\<lambda>n. worker_apply_opts rs (opts\<lparr>wo_batch_size := n\<rparr>))
      else if c = CHR ''h'' then worker_apply_opts rs (opts\<lparr>wo_show_help := True\<rparr>)
      else Inr (Inl 1))"

definition worker_parse_args :: "string list \<Rightarrow> (int + WorkerOptions) result" where
  "worker_parse_args args = worker_apply_opts (getopt_long worker_short_opts worker_long_opts args) default_worker_options"

definition worker_main ::
  "'w sqlite \<Rightarrow> json_lib \<Rightarrow> ('s, 'p, 'w) worker_env \<Rightarrow> string list \<Rightarrow> BackfillDb \<times> 'w \<Rightarrow> ((BackfillDb \<times> 'w) \<times> int result) option" where
  "worker_main sq jl env argv s =
     (case worker_parse_args (tl argv) of
        Inl f \<Rightarrow> Some (s, Inl f)
      | Inr (Inl code) \<Rightarrow> Some (s, Inr code)
      | Inr (Inr opts) \<Rightarrow>
          if wo_show_help opts \<or> wo_config_path opts = [] \<or> wo_store_path opts = [] then Some (s, Inr (if wo_show_help opts then 0 else 1))
          else
            (case worker_run sq jl env (new_BackfillWorker (wo_config_path opts) (wo_store_path opts) (wo_batch_size opts)) s of
               None \<Rightarrow> None
             | Some (s', Inl f) \<Rightarrow> Some (s', Inl f)
             | Some (s', Inr (wk, ok)) \<Rightarrow> Some (s', Inr (if ok then 0 else 1))))"

section \<open>A run that ends well has drained the store\<close>

lemma create_sinks_db: "create_sinks env p cs s = (s', r) \<Longrightarrow> fst s' = fst s"
proof (induction cs arbitrary: s s' r)
  case (Cons c cs)
  from Cons.prems [unfolded create_sinks.simps] show ?case
  proof (cases rule: bindS_cases)
    case (stop e)
    then show ?thesis by (auto simp: outside_def split: prod.splits)
  next
    case (step s1 sk)
    then have "fst s1 = fst s" by (auto simp: outside_def split: prod.splits)
    moreover from step(2) have "fst s' = fst s1"
      by (cases rule: bindS_cases) (auto dest: Cons.IH)
    ultimately show ?thesis by simp
  qed
qed simp

lemma worker_sinks_db: "worker_sinks env cfg s = (s', r) \<Longrightarrow> fst s' = fst s"
  by (auto simp: worker_sinks_def outside_def bindS_def returnS_def dest!: create_sinks_db split: if_splits prod.splits sum.splits)

lemma worker_run_law:
  assumes "store_inv db" "scans_all sq" "claim_batch_size wk \<noteq> 0"
  shows "\<exists>s' r. worker_run sq jl env wk (db, w) = Some (s', r) \<and> store_inv (fst s') \<and>
     (\<forall>wk'. r = Inr (wk', True) \<longrightarrow> staged (fst s') = staged db |` (- pending_keys (staged db)))"
proof (cases "load_config (wk_parse_file env) (config_path wk)")
  case (Inl f)
  then show ?thesis using assms by (cases f) (auto simp: worker_run_def run_failed_def)
next
  case (Inr cfg)
  obtain s1 r1 where s1: "worker_sinks env cfg (db, w) = (s1, r1)" by (cases "worker_sinks env cfg (db, w)")
  then have db1: "fst s1 = db" using worker_sinks_db by fastforce
  show ?thesis
  proof (cases r1)
    case (Inl f)
    then show ?thesis using assms s1 db1 \<open>load_config _ _ = _\<close> by (cases f) (auto simp: worker_run_def run_failed_def)
  next
    case sks: (Inr sks)
    obtain s2 r2 where s2: "store_open sq (wk_store_path wk) s1 = (s2, r2)" by (cases "store_open sq (wk_store_path wk) s1")
    then have db2: "fst s2 = db" using db1
      by (cases s1) (auto simp: store_open_def exec_or_throw_def bindS_def split: prod.splits option.splits sum.splits)
    show ?thesis
    proof (cases r2)
      case (Inl f)
      then show ?thesis using assms s1 sks s2 db2 \<open>load_config _ _ = _\<close> by (cases f) (auto simp: worker_run_def run_failed_def)
    next
      case (Inr _)
      then have "worker_run sq jl env wk (db, w) = worker_loop sq jl env sks wk (db, snd s2)"
        using s1 sks s2 db2 \<open>load_config _ _ = _\<close> by (cases s2) (simp add: worker_run_def)
      then show ?thesis using worker_loop_law [OF assms, of jl env sks "snd s2"] by fastforce
    qed
  qed
qed

end
