(* ===== verification/Backfill_Manager.thy ===== *)
theory Backfill_Manager
  imports Worker_Main Replication_Source
begin

text \<open>
  The parent of the worker processes: \<^verbatim>\<open>src/src/backfill_manager.hpp\<close> and
  \<^verbatim>\<open>src/src/backfill_manager.cpp\<close>. The process calls of the operating system are
  parameters; \<^verbatim>\<open>fork\<close> is given the program that the child goes on with. The notes are
  the lines the code logs about a finished worker.
\<close>

section \<open>State\<close>

record BackfillWorkerHandle =
  bh_pid :: int
  bh_slot :: string

datatype BackfillSpawnStatus = NoPendingWork | WorkerBinaryMissing | ForkFailed | Spawned

datatype wait_status = Exited int | Killed

datatype waitpid_result = StillRunning | Finished wait_status | WaitpidError

datatype wait_result = Waited int wait_status | Interrupted | WaitError

text \<open>What a child runs: a program with its arguments, and the exit code when it cannot be started.\<close>

record child_run =
  ch_path :: string
  ch_argv :: "string list"
  ch_exit :: int

record 'w os_env =
  os_exists :: "string \<Rightarrow> 'w \<Rightarrow> 'w \<times> bool result"
  os_fork :: "child_run \<Rightarrow> 'w \<Rightarrow> 'w \<times> int"
  os_waitpid :: "int \<Rightarrow> 'w \<Rightarrow> 'w \<times> waitpid_result"
  os_wait :: "'w \<Rightarrow> 'w \<times> wait_result"

datatype manager_note = DrainComplete string int | WorkerFailed string int int | WaitpidFailed string int | WorkerDone string int int

record BackfillManager =
  mgr_config_path :: string
  worker_path :: string
  workers :: "BackfillWorkerHandle list"
  reap_timer :: bool
  initialized :: bool
  mgr_notes :: "manager_note list"

type_synonym 'w mgr = "BackfillManager \<times> 'w rs"

section \<open>Operations\<close>

definition new_BackfillManager :: "string \<Rightarrow> BackfillManager" where
  "new_BackfillManager cfg =
     \<lparr>mgr_config_path = cfg, worker_path = [], workers = [], reap_timer = True, initialized = False, mgr_notes = []\<rparr>"

definition set_worker_path :: "string \<Rightarrow> BackfillManager \<Rightarrow> BackfillManager" where
  "set_worker_path p m = m\<lparr>worker_path := p, initialized := True\<rparr>"

definition worker_child :: "BackfillManager \<Rightarrow> PgReplicationSource \<Rightarrow> child_run" where
  "worker_child m r =
     \<lparr>ch_path = c_str (worker_path m),
      ch_argv = [c_str (worker_path m), ''-c'', c_str (mgr_config_path m), ''--store'', c_str (backfill_store_path (rs_config r)),
        ''--slot'', c_str (slot_name (rs_config r))],
      ch_exit = 127\<rparr>"

definition spawn_if_required :: "'w repl_env \<Rightarrow> 'w os_env \<Rightarrow> ('w mgr, BackfillSpawnStatus) op" where
  "spawn_if_required env os = (\<lambda>(m, s).
     if \<not> initialized m then ((m, s), Inr WorkerBinaryMissing)
     else
       (case has_pending_backfill_work env s of
          (s, Inl f) \<Rightarrow> ((m, s), Inl f)
        | (s, Inr False) \<Rightarrow> ((m, s), Inr NoPendingWork)
        | ((r, db, w), Inr True) \<Rightarrow>
            (case os_exists os (worker_path m) w of
               (w, Inl f) \<Rightarrow> ((m, r, db, w), Inl f)
             | (w, Inr False) \<Rightarrow> ((m, r, db, w), Inr WorkerBinaryMissing)
             | (w, Inr True) \<Rightarrow>
                 (case os_fork os (worker_child m r) w of (w, pid) \<Rightarrow>
                    if pid < 0 then ((m, r, db, w), Inr ForkFailed)
                    else ((m\<lparr>workers := workers m @ [\<lparr>bh_pid = pid, bh_slot = slot_name (rs_config r)\<rparr>]\<rparr>, r, db, w), Inr Spawned)))))"

fun exit_code :: "wait_status \<Rightarrow> int" where
  "exit_code (Exited n) = n"
| "exit_code Killed = - 1"

fun reap_each ::
  "'w os_env \<Rightarrow> BackfillWorkerHandle list \<Rightarrow> 'w \<Rightarrow> 'w \<times> BackfillWorkerHandle list \<times> manager_note list" where
  "reap_each os [] w = (w, [], [])"
| "reap_each os (h # hs) w =
     (case os_waitpid os (bh_pid h) w of (w, res) \<Rightarrow>
        case reap_each os hs w of (w, kept, notes) \<Rightarrow>
          case res of
            StillRunning \<Rightarrow> (w, h # kept, notes)
          | WaitpidError \<Rightarrow> (w, kept, WaitpidFailed (bh_slot h) (bh_pid h) # notes)
          | Finished st \<Rightarrow>
              (w, kept, (if exit_code st = 0 then DrainComplete (bh_slot h) (bh_pid h)
                         else WorkerFailed (bh_slot h) (bh_pid h) (exit_code st)) # notes))"

definition remove_finished_workers :: "'w os_env \<Rightarrow> BackfillManager \<times> 'w \<Rightarrow> BackfillManager \<times> 'w" where
  "remove_finished_workers os = (\<lambda>(m, w).
     case reap_each os (workers m) w of (w', kept, notes) \<Rightarrow> (m\<lparr>workers := kept, mgr_notes := mgr_notes m @ notes\<rparr>, w'))"

definition reap_finished_workers :: "'w os_env \<Rightarrow> BackfillManager \<times> 'w \<Rightarrow> BackfillManager \<times> 'w" where
  "reap_finished_workers os = remove_finished_workers os"

definition on_reap_timer :: "'w os_env \<Rightarrow> BackfillManager \<times> 'w \<Rightarrow> BackfillManager \<times> 'w" where
  "on_reap_timer os = reap_finished_workers os"

text \<open>The inner loop: the first worker with the process id is removed.\<close>

fun erase_worker :: "int \<Rightarrow> wait_status \<Rightarrow> BackfillWorkerHandle list \<Rightarrow> BackfillWorkerHandle list \<times> manager_note list" where
  "erase_worker pid st [] = ([], [])"
| "erase_worker pid st (h # hs) =
     (if bh_pid h = pid then (hs, [WorkerDone (bh_slot h) pid (exit_code st)])
      else case erase_worker pid st hs of (hs', notes) \<Rightarrow> (h # hs', notes))"

definition wait_step ::
  "'w os_env \<Rightarrow> BackfillManager \<times> 'w \<Rightarrow> (BackfillManager \<times> 'w) + (BackfillManager \<times> 'w)" where
  "wait_step os = (\<lambda>(m, w).
     if workers m = [] then Inl (m, w)
     else
       (case os_wait os w of
          (w', WaitError) \<Rightarrow> Inl (m, w')
        | (w', Interrupted) \<Rightarrow> Inr (m, w')
        | (w', Waited pid st) \<Rightarrow>
            (case erase_worker pid st (workers m) of (hs, notes) \<Rightarrow> Inr (m\<lparr>workers := hs, mgr_notes := mgr_notes m @ notes\<rparr>, w'))))"

definition wait_for_all_workers :: "'w os_env \<Rightarrow> BackfillManager \<times> 'w \<Rightarrow> (BackfillManager \<times> 'w) option" where
  "wait_for_all_workers os s = loop (\<lambda>s. Some (wait_step os s)) s"

definition destroy_BackfillManager :: "'w os_env \<Rightarrow> BackfillManager \<times> 'w \<Rightarrow> (BackfillManager \<times> 'w) option" where
  "destroy_BackfillManager os = (\<lambda>(m, w). wait_for_all_workers os (m\<lparr>reap_timer := False\<rparr>, w))"

text \<open>The level and the text of the line that is logged, with the message of the last system error.\<close>

definition log_spawn_status :: "BackfillSpawnStatus \<Rightarrow> string \<Rightarrow> string \<Rightarrow> string \<Rightarrow> (string \<times> string) option" where
  "log_spawn_status status slot path err =
     (case status of
        NoPendingWork \<Rightarrow> Some (''trace'', ''[BackfillManager] no pending backfill work for source '' @ squote slot @ '' '' @ em_dash @ '' not spawning'')
      | Spawned \<Rightarrow> None
      | WorkerBinaryMissing \<Rightarrow> Some (''error'', ''[BackfillManager] worker binary not found at '' @ path @ '' '' @ em_dash @
          '' skipping backfill for source '' @ squote slot)
      | ForkFailed \<Rightarrow> Some (''error'', ''[BackfillManager] fork failed for source '' @ squote slot @ '': '' @ err))"

section \<open>The command line of a worker\<close>

lemma worker_options:
  "worker_parse_args [''-c'', a, ''--store'', b, ''--slot'', c] =
     Inr (Inr \<lparr>wo_config_path = a, wo_store_path = b, wo_slot_name = c, wo_batch_size = 200, wo_show_help = False\<rparr>)"
  by (simp add: worker_parse_args_def getopt_word_def scan_long_def find_long_def worker_short_opts_def worker_long_opts_def default_worker_options_def)

text \<open>
  C20. The worker understands how it is started: the command line that the manager builds for a source
  gives the worker the configuration file, the store file and the slot of that source, whatever
  characters these names have, and the default batch size.
\<close>

theorem spawned_command_understood:
  "worker_parse_args (tl (ch_argv (worker_child m r))) =
     Inr (Inr \<lparr>wo_config_path = c_str (mgr_config_path m), wo_store_path = c_str (backfill_store_path (rs_config r)),
       wo_slot_name = c_str (slot_name (rs_config r)), wo_batch_size = 200, wo_show_help = False\<rparr>)"
  by (simp add: worker_child_def worker_options)

text \<open>
  C19. A worker that the manager starts always ends. When its exit code is zero, the code the manager
  takes for a complete drain, every row that was pending is gone from the store and the claimed
  rows of others are as they were.
\<close>

theorem spawned_worker_drains:
  assumes "store_inv db" "scans_all sq" "c_str (mgr_config_path m) \<noteq> []" "c_str (backfill_store_path (rs_config r)) \<noteq> []"
  shows "\<exists>s' x. worker_main sq jl env (ch_argv (worker_child m r)) (db, w) = Some (s', x) \<and> store_inv (fst s') \<and>
     (x = Inr 0 \<longrightarrow> staged (fst s') = staged db |` (- pending_keys (staged db)))"
proof -
  let ?wk = "new_BackfillWorker (c_str (mgr_config_path m)) (c_str (backfill_store_path (rs_config r))) 200"
  have "claim_batch_size ?wk \<noteq> 0" by (simp add: new_BackfillWorker_def)
  from worker_run_law [OF assms(1,2) this, of jl env w] obtain s' y where run: "worker_run sq jl env ?wk (db, w) = Some (s', y)"
    and inv: "store_inv (fst s')" and ok: "\<forall>wk'. y = Inr (wk', True) \<longrightarrow> staged (fst s') = staged db |` (- pending_keys (staged db))" by blast
  have "tl (ch_argv (worker_child m r)) =
      [''-c'', c_str (mgr_config_path m), ''--store'', c_str (backfill_store_path (rs_config r)), ''--slot'', c_str (slot_name (rs_config r))]"
    by (simp add: worker_child_def)
  then have main: "worker_main sq jl env (ch_argv (worker_child m r)) (db, w) =
      (case y of Inl f \<Rightarrow> Some (s', Inl f) | Inr (wk, ok) \<Rightarrow> Some (s', Inr (if ok then 0 else 1)))"
    using run assms(3,4) by (simp add: worker_main_def worker_options split: sum.splits prod.splits)
  show ?thesis
  proof (cases y)
    case (Inl f)
    then show ?thesis using main inv by simp
  next
    case (Inr z)
    then show ?thesis using main inv ok by (cases z) auto
  qed
qed

section \<open>Waiting for the workers\<close>

text \<open>
  What is relied on of \<^verbatim>\<open>wait\<close>: while there are children it returns one of them, which
  is then gone, or it is interrupted, and it is not interrupted forever. \<open>patience\<close> bounds the
  interruptions.
\<close>

definition wait_laws :: "'w os_env \<Rightarrow> ('w \<Rightarrow> int set) \<Rightarrow> ('w \<Rightarrow> nat) \<Rightarrow> bool" where
  "wait_laws os kids patience \<longleftrightarrow>
     (\<forall>w. finite (kids w)) \<and>
     (\<forall>w. kids w \<noteq> {} \<longrightarrow>
        (\<exists>w' pid st. os_wait os w = (w', Waited pid st) \<and> pid \<in> kids w \<and> kids w' = kids w - {pid} \<and> patience w' \<le> patience w) \<or>
        (\<exists>w'. os_wait os w = (w', Interrupted) \<and> kids w' = kids w \<and> patience w' < patience w))"

lemma erase_worker_pids: "distinct (map bh_pid hs) \<Longrightarrow> fst (erase_worker pid st hs) = filter (\<lambda>h. bh_pid h \<noteq> pid) hs"
proof (induction hs)
  case (Cons h hs)
  show ?case
  proof (cases "bh_pid h = pid")
    case True
    then have "filter (\<lambda>h. bh_pid h \<noteq> pid) hs = hs" using Cons.prems by (force simp: filter_id_conv image_iff)
    then show ?thesis using True by simp
  next
    case False
    then show ?thesis using Cons by (simp add: split_beta)
  qed
qed simp

text \<open>One round: the workers are the children among \<open>P\<close>, and there is less left to wait for.\<close>

lemma wait_step_progress:
  fixes os :: "'w os_env"
  assumes laws: "wait_laws os kids patience" and ws: "bh_pid ` set (workers m) = P \<inter> kids w" "distinct (map bh_pid (workers m))" "workers m \<noteq> []"
  shows "\<exists>m' w'. wait_step os (m, w) = Inr (m', w') \<and> bh_pid ` set (workers m') = P \<inter> kids w' \<and> distinct (map bh_pid (workers m'))
     \<and> card (kids w') + patience w' < card (kids w) + patience w"
proof -
  have kids: "kids w \<noteq> {}" "finite (kids w)" using ws laws by (auto simp: wait_laws_def)
  then consider (gone) w' pid st where "os_wait os w = (w', Waited pid st)" "pid \<in> kids w" "kids w' = kids w - {pid}" "patience w' \<le> patience w"
    | (intr) w' where "os_wait os w = (w', Interrupted)" "kids w' = kids w" "patience w' < patience w"
    using laws unfolding wait_laws_def by meson
  then show ?thesis
  proof cases
    case gone
    let ?hs = "filter (\<lambda>h. bh_pid h \<noteq> pid) (workers m)"
    have "fst (erase_worker pid st (workers m)) = ?hs" using ws(2) by (rule erase_worker_pids)
    then obtain ns where "erase_worker pid st (workers m) = (?hs, ns)" by (cases "erase_worker pid st (workers m)") simp
    then have "wait_step os (m, w) = Inr (m\<lparr>workers := ?hs, mgr_notes := mgr_notes m @ ns\<rparr>, w')"
      using ws(3) gone(1) by (simp add: wait_step_def)
    moreover have "bh_pid ` set ?hs = P \<inter> kids w'" "distinct (map bh_pid ?hs)"
      using ws gone(3) by (auto simp: distinct_map inj_on_def)
    moreover have "card (kids w') < card (kids w)" unfolding gone(3) by (rule card_Diff1_less [OF kids(2) gone(2)])
    ultimately show ?thesis using gone(4) by auto
  next
    case intr
    then show ?thesis using ws by (auto simp: wait_step_def)
  qed
qed

text \<open>
  C26. Waiting at shutdown ends with no worker left: when the process ids of the workers are children
  of the process, the wait returns, the list of workers is empty and all of them have been
  collected, in whatever order they finish and although other children finish in between.
\<close>

theorem wait_for_all_workers_ends:
  fixes os :: "'w os_env"
  assumes laws: "wait_laws os kids patience" and "bh_pid ` set (workers m) \<subseteq> kids w" "distinct (map bh_pid (workers m))"
  shows "\<exists>m' w'. wait_for_all_workers os (m, w) = Some (m', w') \<and> workers m' = [] \<and> bh_pid ` set (workers m) \<inter> kids w' = {}"
proof -
  let ?P = "bh_pid ` set (workers m)"
  let ?I = "\<lambda>(m', w'). bh_pid ` set (workers m') = ?P \<inter> kids w' \<and> distinct (map bh_pid (workers m'))"
  let ?Q = "\<lambda>(m', w'). workers m' = [] \<and> ?P \<inter> kids w' = {}"
  have "\<exists>x. loop (\<lambda>s. Some (wait_step os s)) (m, w) = Some x \<and> ?Q x"
  proof (rule loop_total [where I = ?I and m = "\<lambda>(m', w'). card (kids w') + patience w'"])
    show "?I (m, w)" using assms(2,3) by auto
  next
    fix s :: "BackfillManager \<times> 'w" assume I: "?I s"
    obtain m1 w1 where s: "s = (m1, w1)" by (cases s)
    show "(\<exists>b. Some (wait_step os s) = Some (Inl b) \<and> ?Q b) \<or> (\<exists>s'. Some (wait_step os s) = Some (Inr s') \<and> ?I s' \<and>
        (case s' of (m', w') \<Rightarrow> card (kids w') + patience w') < (case s of (m', w') \<Rightarrow> card (kids w') + patience w'))"
    proof (cases "workers m1 = []")
      case True
      then show ?thesis using I by (simp add: s wait_step_def)
    next
      case False
      then show ?thesis using wait_step_progress [OF laws _ _ False, of ?P w1] I by (auto simp: s)
    qed
  qed
  then show ?thesis unfolding wait_for_all_workers_def by auto
qed

section \<open>A small instance\<close>

text \<open>The world is the list of the live children; each wait returns the last of them.\<close>

definition sample_os :: "int list os_env" where
  "sample_os = \<lparr>os_exists = (\<lambda>_ w. (w, Inr True)), os_fork = (\<lambda>_ w. (w @ [int (length w) + 100], int (length w) + 100)),
     os_waitpid = (\<lambda>p w. (w, if p \<in> set w then StillRunning else WaitpidError)),
     os_wait = (\<lambda>w. if w = [] then (w, WaitError) else (filter (\<lambda>p. p \<noteq> last w) w, Waited (last w) (Exited 0)))\<rparr>"

lemma sample_os_laws: "wait_laws sample_os set (\<lambda>_. 0)"
  by (auto simp: wait_laws_def sample_os_def)

definition sample_manager :: BackfillManager where
  "sample_manager = (set_worker_path ''/bin/walkrie_worker'' (new_BackfillManager ''config.toml''))
     \<lparr>workers := [\<lparr>bh_pid = 100, bh_slot = ''a''\<rparr>, \<lparr>bh_pid = 102, bh_slot = ''b''\<rparr>]\<rparr>"

theorem wait_for_all_workers_ends_witness:
  "\<exists>m' w'. wait_for_all_workers sample_os (sample_manager, [100, 101, 102]) = Some (m', w') \<and> workers m' = [] \<and> {100, 102} \<inter> set w' = {}"
proof -
  have ws: "workers sample_manager = [\<lparr>bh_pid = 100, bh_slot = ''a''\<rparr>, \<lparr>bh_pid = 102, bh_slot = ''b''\<rparr>]"
    by (simp add: sample_manager_def set_worker_path_def new_BackfillManager_def)
  show ?thesis using wait_for_all_workers_ends [OF sample_os_laws, of sample_manager "[100, 101, 102]"] by (simp add: ws)
qed

definition sample_worker_env :: "(unit, unit, ChangeEvent list list) worker_env" where
  "sample_worker_env = log_env\<lparr>wk_parse_file := (\<lambda>_. Inr [(''sink'', TArr [TTab [(''type'', TStr ''json-output'')]])])\<rparr>"

lemma sample_worker_run:
  "worker_main quiet_sqlite bf_json sample_worker_env (ch_argv (worker_child sample_manager (rs_connected True))) (bf_dumped ''A'', []) =
     Some ((bf_done, [[bf_insert ''old'']]), Inr 0)"
  by code_simp

theorem spawned_worker_drains_witness:
  "staged bf_done = staged (bf_dumped ''A'') |` (- pending_keys (staged (bf_dumped ''A'')))"
proof -
  have "c_str (mgr_config_path sample_manager) \<noteq> []" "c_str (backfill_store_path (rs_config (rs_connected True))) \<noteq> []"
    by (simp_all add: sample_manager_def set_worker_path_def new_BackfillManager_def rs_connected_def new_PgReplicationSource_def
        rs_sample_config_def c_str_def)
  from spawned_worker_drains [OF bf_dumped_inv quiet_scans this, of bf_json sample_worker_env "[]"] show ?thesis
    unfolding sample_worker_run by auto
qed

end
