(* ===== verification/Daemon_Utils.thy ===== *)
theory Daemon_Utils
  imports C_Library
begin

text \<open>
  Detaching from the terminal and the PID file: \<^verbatim>\<open>src/src/daemon_utils.cpp\<close>. The system
  calls are parameters. \<open>fork\<close> returns in one process at a time: the model follows the process it
  is in, and \<open>Some n\<close> says that this process exits with the code \<open>n\<close>.
\<close>

record 'w daemon_env =
  de_fork :: "'w \<Rightarrow> 'w \<times> int"
  de_setsid :: "'w \<Rightarrow> 'w \<times> int"
  de_chdir :: "string \<Rightarrow> 'w \<Rightarrow> 'w \<times> int"
  de_umask :: "nat \<Rightarrow> 'w \<Rightarrow> 'w"
  de_open_rdwr :: "string \<Rightarrow> 'w \<Rightarrow> 'w \<times> int"
  de_dup2 :: "int \<Rightarrow> int \<Rightarrow> 'w \<Rightarrow> 'w"
  de_close :: "int \<Rightarrow> 'w \<Rightarrow> 'w"
  de_getpid :: "'w \<Rightarrow> int"
  de_write_file :: "string \<Rightarrow> string \<Rightarrow> 'w \<Rightarrow> 'w \<times> bool"
  de_unlink :: "string \<Rightarrow> 'w \<Rightarrow> 'w"

definition write_pid_file :: "'w daemon_env \<Rightarrow> string \<Rightarrow> 'w \<Rightarrow> 'w \<times> bool" where
  "write_pid_file env path w = de_write_file env path (show_int (de_getpid env w) @ [CHR 0x0A]) w"

definition remove_pid_file :: "'w daemon_env \<Rightarrow> string \<Rightarrow> 'w \<Rightarrow> 'w" where
  "remove_pid_file env path w = (if path \<noteq> [] then de_unlink env (c_str path) w else w)"

text \<open>Standard input, output and error go to the null device.\<close>

definition redirect_stdio :: "'w daemon_env \<Rightarrow> 'w \<Rightarrow> 'w" where
  "redirect_stdio env w =
     (case de_open_rdwr env ''/dev/null'' w of (w, fd) \<Rightarrow>
        if fd \<ge> 0 then
          let w = de_dup2 env fd 2 (de_dup2 env fd 1 (de_dup2 env fd 0 w))
          in if fd > 2 then de_close env fd w else w
        else w)"

text \<open>The mode mask is octal 027.\<close>

definition become_daemon :: "'w daemon_env \<Rightarrow> string \<Rightarrow> 'w \<Rightarrow> 'w" where
  "become_daemon env path w =
     (let w = redirect_stdio env (de_umask env 23 (fst (de_chdir env ''/'' w)))
      in if path \<noteq> [] then fst (write_pid_file env path w) else w)"

definition daemonize :: "'w daemon_env \<Rightarrow> string \<Rightarrow> 'w \<Rightarrow> 'w \<times> int option" where
  "daemonize env path w =
     (case de_fork env w of (w, pid) \<Rightarrow>
        if pid < 0 then (w, Some 1)
        else if pid > 0 then (w, Some 0)
        else
          (case de_setsid env w of (w, sid) \<Rightarrow>
             if sid < 0 then (w, Some 1)
             else
               (case de_fork env w of (w, pid) \<Rightarrow>
                  if pid < 0 then (w, Some 1)
                  else if pid > 0 then (w, Some 0)
                  else (become_daemon env path w, None))))"

end
