(* ===== verification/Walkrie_Main.thy ===== *)
theory Walkrie_Main
  imports Backfill_Manager Daemon_Utils Event_Dispatcher App_Config
begin

text \<open>
  The program: \<^verbatim>\<open>src/src/main.cpp\<close>. The sources, the termination flag and the rest of
  the world are the world of the dispatcher, whose callbacks change them. The event loop of
  libevent is a parameter: it runs the callbacks in any order and may change the sources, the
  stores, the manager and the dispatcher. \<open>teardown\<close> records the order in which an exit releases
  what the start has made. Logging is left out.
\<close>

section \<open>Options\<close>

record MainOptions =
  mo_config_path :: string
  mo_pid_file :: string
  mo_foreground :: bool
  mo_show_help :: bool

definition default_main_options :: MainOptions where
  "default_main_options = \<lparr>mo_config_path = [], mo_pid_file = ''/run/walkrie/walkrie.pid'', mo_foreground = False, mo_show_help = False\<rparr>"

definition main_long_opts :: "long_option list" where
  "main_long_opts =
     [\<lparr>lo_name = ''config'', lo_arg = True, lo_val = CHR ''c''\<rparr>,
      \<lparr>lo_name = ''foreground'', lo_arg = False, lo_val = CHR ''f''\<rparr>,
      \<lparr>lo_name = ''pid-file'', lo_arg = True, lo_val = CHR ''p''\<rparr>,
      \<lparr>lo_name = ''help'', lo_arg = False, lo_val = CHR ''h''\<rparr>]"

definition main_short_opts :: "char \<rightharpoonup> bool" where
  "main_short_opts = [CHR ''c'' \<mapsto> True, CHR ''f'' \<mapsto> False, CHR ''h'' \<mapsto> False]"

fun main_apply_opts :: "getopt_result list \<Rightarrow> MainOptions \<Rightarrow> int + MainOptions" where
  "main_apply_opts [] opts = Inr opts"
| "main_apply_opts (BadOpt # rs) opts = Inl 1"
| "main_apply_opts (Opt c a # rs) opts =
     (if c = CHR ''c'' then main_apply_opts rs (opts\<lparr>mo_config_path := a\<rparr>)
      else if c = CHR ''f'' then main_apply_opts rs (opts\<lparr>mo_foreground := True\<rparr>)
      else if c = CHR ''p'' then main_apply_opts rs (opts\<lparr>mo_pid_file := a\<rparr>)
      else if c = CHR ''h'' then main_apply_opts rs (opts\<lparr>mo_show_help := True\<rparr>)
      else Inl 1)"

definition main_parse_args :: "string list \<Rightarrow> int + MainOptions" where
  "main_parse_args args = main_apply_opts (getopt_long main_short_opts main_long_opts args) default_main_options"

section \<open>State\<close>

record 'w main_world =
  mw_sources :: "PgReplicationSource list"
  mw_terminate :: bool
  mw_rest :: 'w

type_synonym stores = "string \<Rightarrow> BackfillDb"

type_synonym ('s, 'w) walkrie = "BackfillManager \<times> stores \<times> ('s, 'w main_world) EventDispatcher"

datatype teardown =
  ManagerReset | DispatcherReset | SourcesFlushed | SourcesDestroyed | SignalEventsFreed | BaseFreed | HttpCleanup | PidFileRemoved

datatype main_end = Code int | Uncaught failure

record ('s, 'p, 'w) main_env =
  me_parse_file :: "string \<Rightarrow> string + toml_table"
  me_fs :: fs_env
  me_gguf :: gguf_lib
  me_self_exe :: "string option"
  me_daemon :: "'w daemon_env"
  me_base_new :: "'w \<Rightarrow> 'w \<times> bool"
  me_provider :: "EmbeddingConfig \<Rightarrow> 'w \<Rightarrow> 'w \<times> 'p result"
  me_create_sink :: "SinkConfiguration \<Rightarrow> 'p option \<Rightarrow> 'w \<Rightarrow> 'w \<times> 's result"
  me_call_batch :: "'s \<Rightarrow> ChangeEvent list \<Rightarrow> 'w \<Rightarrow> 'w \<times> failure option"
  me_now :: "'w \<Rightarrow> 'w \<times> int"
  me_sleep :: "int \<Rightarrow> 'w \<Rightarrow> 'w"
  me_posting :: "'w main_world \<Rightarrow> 'w main_world \<times> 's EventJob list"
  me_malloc :: "nat \<Rightarrow> bool"
  me_map_order :: "(nat \<times> u64) list \<Rightarrow> (nat \<times> u64) list"
  me_repl :: "nat \<Rightarrow> 'w repl_env"
  me_os :: "'w os_env"
  me_loop :: "'s SinkHandle list \<Rightarrow> ('s, 'w) walkrie \<Rightarrow> ('s, 'w) walkrie"

section \<open>Callbacks\<close>

text \<open>\<^verbatim>\<open>on_terminate_poll\<close>: whether the event loop is to be left.\<close>

definition on_terminate_poll :: "'w main_world \<Rightarrow> bool" where
  "on_terminate_poll mw = mw_terminate mw"

definition confirm_source :: "nat \<Rightarrow> u64 \<Rightarrow> PgReplicationSource list \<Rightarrow> PgReplicationSource list" where
  "confirm_source i lsn = map (\<lambda>r. if rs_id r = i then r\<lparr>confirmed_lsn := lsn\<rparr> else r)"

text \<open>The dispatcher as the program sets it up; \<open>go\<close> is its running flag.\<close>

definition main_disp_env :: "('s, 'p, 'w) main_env \<Rightarrow> bool \<Rightarrow> ('s, 'w main_world) disp_env" where
  "main_disp_env env go =
     \<lparr>call_batch = (\<lambda>s evs mw. case me_call_batch env s evs (mw_rest mw) of (w, r) \<Rightarrow> (mw\<lparr>mw_rest := w\<rparr>, r)),
      steady_now = (\<lambda>mw. case me_now env (mw_rest mw) of (w, t) \<Rightarrow> (mw\<lparr>mw_rest := w\<rparr>, t)),
      sleep_ms = (\<lambda>ms mw. mw\<lparr>mw_rest := me_sleep env ms (mw_rest mw)\<rparr>),
      posting = me_posting env, running = (\<lambda>mw. (mw, go)), malloc_ok = me_malloc env,
      on_confirmed = Some (\<lambda>i lsn mw. mw\<lparr>mw_sources := confirm_source i lsn (mw_sources mw)\<rparr>),
      on_fatal = Some (\<lambda>mw. mw\<lparr>mw_terminate := True\<rparr>), map_order = me_map_order env\<rparr>"

definition dispatch_handle ::
  "('s, 'p, 'w) main_env \<Rightarrow> 's SinkHandle list \<Rightarrow> ChangeEvent \<Rightarrow> nat \<Rightarrow> ('s, 'w main_world) EventDispatcher \<Rightarrow> ('s, 'w main_world) EventDispatcher" where
  "dispatch_handle env hs e i d = post_job (main_disp_env env True) \<lparr>ev = e, source_id = i, job_sinks = hs\<rparr> d"

section \<open>Set-up\<close>

definition path_append :: "string \<Rightarrow> string \<Rightarrow> string" where
  "path_append dir name = (if dir = [] \<or> last dir = CHR ''/'' then dir @ name else dir @ ''/'' @ name)"

definition resolve_backfill_worker_path :: "string option \<Rightarrow> string \<Rightarrow> string" where
  "resolve_backfill_worker_path self_exe argv0 =
     path_append (parent_path (case self_exe of Some p \<Rightarrow> p | None \<Rightarrow> argv0)) ''walkrie_worker''"

definition all_mappings :: "AppConfig \<Rightarrow> TableMapping list" where
  "all_mappings cfg = concat (map sink_mappings (sinks cfg))"

definition source_config :: "AppConfig \<Rightarrow> SourceConfig \<Rightarrow> PgReplicationConfig" where
  "source_config cfg src =
     \<lparr>rc_host = src_host src, rc_port = src_port src, rc_dbname = src_dbname src, rc_user = src_user src, rc_password = src_password src,
      slot_name = SourceConfig.slot_name src, publication_name = publication src, rc_tls = src_tls src, rc_backfill = src_backfill src,
      backfill_table_mappings = (if src_backfill src then all_mappings cfg else []),
      backfill_store_path = (if src_backfill src
        then backfill_dir (settings cfg) @ ''/'' @ SourceConfig.slot_name src @ ''.sqlite3'' else [])\<rparr>"

definition make_sources :: "AppConfig \<Rightarrow> PgReplicationSource list" where
  "make_sources cfg = map (\<lambda>(i, src). new_PgReplicationSource i (source_config cfg src)) (enumerate 1 (sources cfg))"

fun make_sinks :: "('s, 'p, 'w) main_env \<Rightarrow> 'p option \<Rightarrow> SinkConfiguration list \<Rightarrow> 'w \<Rightarrow> 'w \<times> 's SinkHandle list result" where
  "make_sinks env p [] w = (w, Inr [])"
| "make_sinks env p (c # cs) w =
     (case me_create_sink env c (if needs_embedding_provider c then p else None) w of
        (w, Inl f) \<Rightarrow> (w, Inl f)
      | (w, Inr s) \<Rightarrow>
          (case make_sinks env p cs w of
             (w, Inl f) \<Rightarrow> (w, Inl f)
           | (w, Inr hs) \<Rightarrow>
               (w, Inr (\<lparr>sink = s, required = (case required_override c of Some b \<Rightarrow> b | None \<Rightarrow> default_required c)\<rparr> # hs))))"

definition init_sinks :: "('s, 'p, 'w) main_env \<Rightarrow> AppConfig \<Rightarrow> 'w \<Rightarrow> 'w \<times> 's SinkHandle list result" where
  "init_sinks env cfg w =
     (if any_sink_needs_provider cfg then
        (case me_provider env (embedding cfg) w of
           (w, Inl f) \<Rightarrow> (w, Inl f)
         | (w, Inr p) \<Rightarrow> make_sinks env (Some p) (sinks cfg) w)
      else make_sinks env None (sinks cfg) w)"

section \<open>Starting the sources\<close>

definition on_src :: "('w rs, 'a) op \<Rightarrow> ('w mgr, 'a) op" where
  "on_src f = (\<lambda>(m, s). case f s of (s', x) \<Rightarrow> ((m, s'), x))"

text \<open>The body of the loop; \<open>False\<close> for the exits with an error.\<close>

definition start_source :: "'w repl_env \<Rightarrow> 'w os_env \<Rightarrow> ('w mgr, bool) op" where
  "start_source env os =
     bindS (on_src (connect env)) (\<lambda>ok. if \<not> ok then returnS False else
     bindS (on_src (run_backfill_dump_if_required env)) (\<lambda>ok. if \<not> ok then returnS False else
     bindS (spawn_if_required env os) (\<lambda>spawn_status.
     bindS (on_src (start_streaming env)) (\<lambda>ok. if \<not> ok then returnS False else
     on_src (register_event_loop env)))))"

definition store_of :: "PgReplicationSource \<Rightarrow> string" where
  "store_of r = backfill_store_path (rs_config r)"

fun start_sources ::
  "(nat \<Rightarrow> 'w repl_env) \<Rightarrow> 'w os_env \<Rightarrow> PgReplicationSource list \<Rightarrow> BackfillManager \<times> stores \<times> 'w \<Rightarrow>
     (BackfillManager \<times> PgReplicationSource list \<times> stores \<times> 'w) \<times> bool result" where
  "start_sources env os [] (m, st, w) = ((m, [], st, w), Inr True)"
| "start_sources env os (r # rs) (m, st, w) =
     (case start_source (env (rs_id r)) os (m, r, st (store_of r), w) of
        ((m, r', db, w), Inr True) \<Rightarrow>
          (case start_sources env os rs (m, st(store_of r := db), w) of ((m, rs', st', w), x) \<Rightarrow> ((m, r' # rs', st', w), x))
      | ((m, r', db, w), x) \<Rightarrow> ((m, r' # rs, st(store_of r := db), w), x))"

section \<open>Shutting down\<close>

fun flush_sources ::
  "(nat \<Rightarrow> 'w repl_env) \<Rightarrow> PgReplicationSource list \<Rightarrow> stores \<times> 'w \<Rightarrow> PgReplicationSource list \<times> stores \<times> 'w" where
  "flush_sources env [] (st, w) = ([], st, w)"
| "flush_sources env (r # rs) (st, w) =
     (case flush_confirmed_lsn (env (rs_id r)) (r, st (store_of r), w) of
        ((r', db, w), _) \<Rightarrow> (case flush_sources env rs (st(store_of r := db), w) of (rs', st', w) \<Rightarrow> (r' # rs', st', w)))"

text \<open>
  After the event loop: the workers are waited for, the manager is destroyed, which waits again,
  the worker thread of the dispatcher is joined, which drains the queue, and the positions are
  flushed. An exception that leaves the worker thread ends the process.
\<close>

definition stop_walkrie :: "('s, 'p, 'w) main_env \<Rightarrow> ('s, 'w) walkrie \<Rightarrow> (('s, 'w) walkrie \<times> unit result) option" where
  "stop_walkrie env = (\<lambda>(m, st, d).
     case wait_for_all_workers (me_os env) (m, mw_rest (disp_world d)) of
       None \<Rightarrow> None
     | Some (m, w) \<Rightarrow>
         (case destroy_BackfillManager (me_os env) (m, w) of
            None \<Rightarrow> None
          | Some (m, w) \<Rightarrow>
              (case process_jobs (main_disp_env env False) (d\<lparr>disp_world := (disp_world d)\<lparr>mw_rest := w\<rparr>\<rparr>) of
                 None \<Rightarrow> None
               | Some (d, Inl f) \<Rightarrow> Some ((m, st, d), Inl f)
               | Some (d, Inr _) \<Rightarrow>
                   (case flush_sources (me_repl env) (mw_sources (disp_world d)) (st, mw_rest (disp_world d)) of
                      (rs, st, w) \<Rightarrow> Some ((m, st, d\<lparr>disp_world := (disp_world d)\<lparr>mw_sources := rs, mw_rest := w\<rparr>\<rparr>), Inr ())))))"

definition drop_pid_file :: "('s, 'p, 'w) main_env \<Rightarrow> MainOptions \<Rightarrow> 'w \<Rightarrow> 'w" where
  "drop_pid_file env opts w = (if \<not> mo_foreground opts then remove_pid_file (me_daemon env) (mo_pid_file opts) w else w)"

definition pid_steps :: "MainOptions \<Rightarrow> teardown list" where
  "pid_steps opts = (if \<not> mo_foreground opts then [PidFileRemoved] else [])"

text \<open>
  The three ways out once everything is set up. At a return the objects of \<^verbatim>\<open>main\<close> that
  are still alive are destroyed, the sources before the dispatcher.
\<close>

definition sinks_failed_steps :: "MainOptions \<Rightarrow> teardown list" where
  "sinks_failed_steps opts =
     [DispatcherReset, ManagerReset, SignalEventsFreed, BaseFreed, HttpCleanup] @ pid_steps opts @ [SourcesDestroyed]"

definition start_failed_steps :: "teardown list" where
  "start_failed_steps = [ManagerReset, BaseFreed, SourcesDestroyed, DispatcherReset]"

definition stopped_steps :: "MainOptions \<Rightarrow> teardown list" where
  "stopped_steps opts =
     [ManagerReset, DispatcherReset, SourcesFlushed, SourcesDestroyed, SignalEventsFreed, BaseFreed, HttpCleanup] @ pid_steps opts"

text \<open>The part of \<^verbatim>\<open>main\<close> after the event base exists.\<close>

definition run_walkrie ::
  "('s, 'p, 'w) main_env \<Rightarrow> MainOptions \<Rightarrow> AppConfig \<Rightarrow> string \<Rightarrow> stores \<Rightarrow> 'w \<Rightarrow> (stores \<times> 'w \<times> main_end \<times> teardown list) option" where
  "run_walkrie env opts cfg wpath st w =
     (let m = set_worker_path wpath (new_BackfillManager (mo_config_path opts)); rs = make_sources cfg in
      case new_EventDispatcher (me_malloc env) (batch_size (settings cfg)) (batch_timeout_ms (settings cfg)) default_backoff default_ceiling
             \<lparr>mw_sources = rs, mw_terminate = False, mw_rest = w\<rparr> of
        Inl f \<Rightarrow> Some (st, w, Uncaught f, [])
      | Inr d \<Rightarrow>
          (case init_sinks env cfg w of
             (w, Inl OutOfBounds) \<Rightarrow> Some (st, w, Uncaught OutOfBounds, [])
           | (w, Inl (Throw e)) \<Rightarrow>
               map_option (\<lambda>(m, w). (st, drop_pid_file env opts w, Code 1, sinks_failed_steps opts)) (destroy_BackfillManager (me_os env) (m, w))
           | (w, Inr hs) \<Rightarrow>
               (case start_sources (me_repl env) (me_os env) rs (m, st, w) of
                  ((m, rs, st, w), Inl f) \<Rightarrow> Some (st, w, Uncaught f, [])
                | ((m, rs, st, w), Inr False) \<Rightarrow>
                    map_option (\<lambda>(m, w). (st, w, Code 1, start_failed_steps)) (destroy_BackfillManager (me_os env) (m, w))
                | ((m, rs, st, w), Inr True) \<Rightarrow>
                    (case stop_walkrie env (me_loop env hs (m, st, d\<lparr>disp_world := (disp_world d)\<lparr>mw_sources := rs, mw_rest := w\<rparr>\<rparr>)) of
                       None \<Rightarrow> None
                     | Some ((m, st, d), Inl f) \<Rightarrow> Some (st, mw_rest (disp_world d), Uncaught f, [])
                     | Some ((m, st, d), Inr _) \<Rightarrow> Some (st, drop_pid_file env opts (mw_rest (disp_world d)), Code 0, stopped_steps opts)))))"

definition walkrie_main ::
  "('s, 'p, 'w) main_env \<Rightarrow> string list \<Rightarrow> stores \<Rightarrow> 'w \<Rightarrow> (stores \<times> 'w \<times> main_end \<times> teardown list) option" where
  "walkrie_main env argv st w =
     (case main_parse_args (tl argv) of
        Inl code \<Rightarrow> Some (st, w, Code code, [])
      | Inr opts \<Rightarrow>
          if mo_show_help opts \<or> mo_config_path opts = [] then Some (st, w, Code (if mo_show_help opts then 0 else 1), [])
          else
            (case load_config (me_parse_file env) (mo_config_path opts) of
               Inl OutOfBounds \<Rightarrow> Some (st, w, Uncaught OutOfBounds, [])
             | Inl (Throw e) \<Rightarrow> Some (st, w, Code 1, [])
             | Inr cfg \<Rightarrow>
                 if app_validate (me_fs env) (me_gguf env) cfg \<noteq> [] then Some (st, w, Code 1, [])
                 else
                   let wpath = resolve_backfill_worker_path (me_self_exe env) (hd argv) in
                   (case (if mo_foreground opts then (w, None) else daemonize (me_daemon env) (mo_pid_file opts) w) of
                      (w, Some code) \<Rightarrow> Some (st, w, Code code, [])
                    | (w, None) \<Rightarrow>
                        (case me_base_new env w of
                           (w, False) \<Rightarrow> Some (st, w, Code 1, [])
                         | (w, True) \<Rightarrow> run_walkrie env opts cfg wpath st w))))"

section \<open>The sources of a configuration\<close>

lemma make_sources_ids: "map rs_id (make_sources cfg) = [1 ..< Suc (length (sources cfg))]"
proof -
  have "map rs_id (make_sources cfg) = map fst (enumerate 1 (sources cfg))"
    by (simp add: make_sources_def new_PgReplicationSource_def comp_def split_beta)
  then show ?thesis by (simp add: map_fst_enumerate)
qed

text \<open>
  The sources of a configuration do not get in each other's way: their ids are different, so a
  confirmed position reaches one source, and two sources with backfill and different slots have
  different store files. A source with backfill covers the mappings of every sink.
\<close>

theorem make_sources_separate:
  "distinct (map rs_id (make_sources cfg)) \<and>
   (\<forall>a \<in> set (make_sources cfg). \<forall>b \<in> set (make_sources cfg). rc_backfill (rs_config a) \<longrightarrow> rc_backfill (rs_config b) \<longrightarrow>
      slot_name (rs_config a) \<noteq> slot_name (rs_config b) \<longrightarrow> store_of a \<noteq> store_of b) \<and>
   (\<forall>a \<in> set (make_sources cfg). rc_backfill (rs_config a) \<longrightarrow>
      (\<forall>c \<in> set (sinks cfg). set (sink_mappings c) \<subseteq> set (backfill_table_mappings (rs_config a))))"
proof -
  have c: "\<exists>src. rs_config a = source_config cfg src" if "a \<in> set (make_sources cfg)" for a
    using that by (auto simp: make_sources_def new_PgReplicationSource_def)
  show ?thesis
    by (intro conjI ballI impI) (auto simp: make_sources_ids store_of_def source_config_def all_mappings_def dest!: c)
qed

section \<open>A started source\<close>

lemma has_pending_store: "has_pending sq (db, w) = ((db', w'), x) \<Longrightarrow> db' = db"
  by (auto simp: has_pending_def first_int_def statement_def prepare_or_throw_def step_or_throw_def bindS_def returnS_def throwS_def
      split: prod.splits option.splits sum.splits list.splits)

lemma spawn_store:
  "spawn_if_required env os (m, r, db, w) = ((m', r', db', w'), x) \<Longrightarrow> db' = db \<and> r' = r"
  by (auto simp: spawn_if_required_def has_pending_backfill_work_def has_pending_work_def with_source_def returnS_def catchS_def on_store_def
      dest!: has_pending_store split: if_splits prod.splits option.splits sum.splits bool.splits failure.splits)

lemma start_streaming_store:
  "start_streaming env (r, db, w) = ((r', db', w'), x) \<Longrightarrow> db' = db \<and> backfill_util r' = backfill_util r \<and> slot_freshly_created r' = slot_freshly_created r"
  by (auto simp: start_streaming_def fail_with_def fail_conn_def source_ops split: if_splits prod.splits)

lemma add_event_store:
  "add_event env k what (r, db, w) = ((r', db', w'), x) \<Longrightarrow> db' = db \<and> backfill_util r' = backfill_util r \<and> slot_freshly_created r' = slot_freshly_created r"
  by (auto simp: add_event_def fail_with_def source_ops split: if_splits prod.splits ev_kind.splits)

lemma register_store:
  "register_event_loop env (r, db, w) = ((r', db', w'), x) \<Longrightarrow> db' = db \<and> backfill_util r' = backfill_util r \<and> slot_freshly_created r' = slot_freshly_created r"
  by (auto simp: register_event_loop_def fail_with_def source_ops dest!: add_event_store split: if_splits prod.splits sum.splits)

lemma dump_store:
  assumes "run_backfill_dump_if_required env (r, db, w) = ((r', db', w'), Inr True)" "backfill_util r = Some u" "slot_freshly_created r"
    "store_inv db" "scans_all (rp_sqlite env)"
  shows "slot_freshly_created r' \<and> (\<exists>u'. backfill_util r' = Some u' \<and> bu_mappings u' = bu_mappings u) \<and>
     (\<forall>tm \<in> set (bu_mappings u). dumped db' (c_str (source_table tm)))"
proof -
  obtain u' where d: "dump_all (rp_sqlite env) (rp_dump env) (rp_json env) u (db, w) = ((db', w'), Inr (u', True))"
    and r': "r' = r\<lparr>backfill_util := Some u'\<rparr>"
    using assms(1-3) by (auto simp: run_backfill_dump_if_required_def source_ops split: prod.splits sum.splits if_splits)
  have "bu_mappings u' = bu_mappings u"
    using d by (auto simp: dump_all_def bindS_def returnS_def split: prod.splits option.splits sum.splits)
  then show ?thesis using dump_all_law [OF assms(4,5) d] r' assms(3) by auto
qed


section \<open>The last acknowledgement\<close>

fun last_confirmed :: "nat \<Rightarrow> 's action list \<Rightarrow> u64 \<Rightarrow> u64" where
  "last_confirmed i [] c = c"
| "last_confirmed i (Confirmed s lsn # l) c = last_confirmed i l (if s = i then lsn else c)"
| "last_confirmed i (_ # l) c = last_confirmed i l c"

lemma replay_confirm_source:
  "replay confirm_source l rs = map (\<lambda>r. r\<lparr>confirmed_lsn := last_confirmed (rs_id r) l (confirmed_lsn r)\<rparr>) rs"
proof (induction l arbitrary: rs)
  case (Cons a l)
  then show ?case by (cases a) (auto simp: confirm_source_def)
qed simp

lemma main_view_laws: "view_laws (main_disp_env env go) mw_sources confirm_source"
  by (auto simp: view_laws_def main_disp_env_def split: prod.splits)

lemma final_drain_tracks:
  assumes "process_jobs (main_disp_env env False) d = Some (d', r)"
  shows "tracks mw_sources confirm_source d d'"
proof -
  let ?e = "main_disp_env env False"
  have run: "running ?e w = (w, False)" for w by (simp add: main_disp_env_def)
  have "process_step ?e d = map_option Inl (after_loop ?e d)" by (simp add: process_step_def run)
  then have "after_loop ?e d = Some (d', r)"
    using assms by (cases "after_loop ?e d") (auto simp: process_jobs_def loop_simps)
  then show ?thesis using drain_remaining_tracks [OF main_view_laws] by (auto simp: after_loop_def split: if_splits)
qed

lemma flush_effect:
  assumes "flush_confirmed_lsn env (r, db, w) = ((r', db', w'), x)" "\<And>bs w. 0 < snd (rp_put env bs w)"
  shows "r' = (if rs_conn r then r\<lparr>rs_log := rs_log r @ [Acked (confirmed_lsn r)]\<rparr> else r)"
  using assms(1) assms(2) [of "status_message (confirmed_lsn r) (snd (rp_time env w))" "fst (rp_time env w)"]
  by (auto simp: flush_confirmed_lsn_def ping_update_def source_ops split: if_splits prod.splits)

lemma flush_sources_effect:
  assumes "\<And>i bs w. 0 < snd (rp_put (env i) bs w)"
  shows "fst (flush_sources env rs s) = map (\<lambda>r. if rs_conn r then r\<lparr>rs_log := rs_log r @ [Acked (confirmed_lsn r)]\<rparr> else r) rs"
proof (induction rs arbitrary: s)
  case (Cons r rs)
  obtain st w where s: "s = (st, w)" by (cases s)
  obtain r' db w' x where f: "flush_confirmed_lsn (env (rs_id r)) (r, st (store_of r), w) = ((r', db, w'), x)"
    by (cases "flush_confirmed_lsn (env (rs_id r)) (r, st (store_of r), w)") auto
  show ?case using Cons.IH [of "(st(store_of r := db), w')"] flush_effect [OF f assms]
    by (simp add: s f split_beta)
qed (metis flush_sources.simps(1) fst_conv list.map(1) surj_pair)


section \<open>A small system\<close>

definition two_sources :: AppConfig where
  "two_sources = (sample_config 8)\<lparr>sources := [default_source\<lparr>SourceConfig.slot_name := ''a'', src_backfill := True\<rparr>,
     default_source\<lparr>SourceConfig.slot_name := ''b'', src_backfill := True\<rparr>]\<rparr>"

theorem make_sources_separate_witness:
  "store_of (make_sources two_sources ! 0) \<noteq> store_of (make_sources two_sources ! 1)"
proof -
  let ?a = "make_sources two_sources ! 0" and ?b = "make_sources two_sources ! 1"
  have "?a \<in> set (make_sources two_sources)" "?b \<in> set (make_sources two_sources)"
    "rc_backfill (rs_config ?a)" "rc_backfill (rs_config ?b)" "slot_name (rs_config ?a) \<noteq> slot_name (rs_config ?b)"
    by (simp_all add: make_sources_def two_sources_def source_config_def new_PgReplicationSource_def default_source_def)
  then show ?thesis using make_sources_separate [of two_sources] by blast
qed

definition idle_os :: "u8 list list os_env" where
  "idle_os = \<lparr>os_exists = (\<lambda>_ w. (w, Inr True)), os_fork = (\<lambda>_ w. (w, 1)), os_waitpid = (\<lambda>_ w. (w, StillRunning)), os_wait = (\<lambda>w. (w, WaitError))\<rparr>"

definition fresh_dump :: BackfillDb where
  "fresh_dump = \<lparr>backfill_rows = [], backfill_tables = [\<lparr>bt_table = ''items'', bt_status = ''complete'', bt_count = Some 0\<rparr>]\<rparr>"

definition dump_util :: BackfillUtil where
  "dump_util = new_BackfillUtil (to_conninfo (rs_sample_config True)) [bf_mapping] ''state/items.db''"

lemma sample_dump_run:
  "run_backfill_dump_if_required rs_sample_env (rs_connected True, empty_db, []) = ((rs_connected True, fresh_dump, []), Inr True)"
proof -
  have u: "backfill_util (rs_connected True) = Some dump_util" "slot_freshly_created (rs_connected True)"
    by (simp_all add: rs_connected_def new_PgReplicationSource_def rs_sample_config_def dump_util_def)
  have "dump_all (rp_sqlite rs_sample_env) (rp_dump rs_sample_env) (rp_json rs_sample_env) dump_util (empty_db, []) = ((fresh_dump, []), Inr (dump_util, True))"
    by code_simp
  then show ?thesis using u by (simp add: run_backfill_dump_if_required_def source_ops)
qed

definition started_manager :: BackfillManager where
  "started_manager = set_worker_path ''/bin/walkrie_worker'' (new_BackfillManager ''config.toml'')"

lemma sample_spawn_run:
  "spawn_if_required rs_sample_env idle_os (started_manager, rs_connected True, fresh_dump, []) =
     ((started_manager, rs_connected True, fresh_dump, []), Inr NoPendingWork)"
proof -
  have "has_pending quiet_sqlite (fresh_dump, [] :: u8 list list) = ((fresh_dump, []), Inr False)" by code_simp
  moreover have "backfill_util (rs_connected True) = Some dump_util"
    by (simp add: rs_connected_def new_PgReplicationSource_def rs_sample_config_def dump_util_def)
  ultimately show ?thesis
    by (simp add: spawn_if_required_def has_pending_backfill_work_def has_pending_work_def source_ops catchS_def started_manager_def
        set_worker_path_def)
qed

lemma sample_stream_run:
  "start_streaming rs_sample_env (rs_connected True, fresh_dump, []) = ((rs_connected True, fresh_dump, []), Inr True)"
  by (simp add: start_streaming_def source_ops rs_connected_def)

lemma sample_register_run:
  "\<exists>r. register_event_loop rs_sample_env (rs_connected True, fresh_dump, []) = ((r, fresh_dump, []), Inr True) \<and>
     backfill_util r = Some dump_util \<and> slot_freshly_created r"
  by (simp add: register_event_loop_def add_event_def source_ops rs_sample_env_def rs_connected_def new_PgReplicationSource_def
      rs_sample_config_def dump_util_def)


text \<open>One connected source with the id 1, one required sink that takes everything, and one job in the queue.\<close>

definition small_env :: "(unit, unit, u8 list list) main_env" where
  "small_env = \<lparr>me_parse_file = (\<lambda>_. Inl ''no file''), me_fs = no_files, me_gguf = (\<lambda>_. None), me_self_exe = None,
     me_daemon = \<lparr>de_fork = (\<lambda>w. (w, 0)), de_setsid = (\<lambda>w. (w, 1)), de_chdir = (\<lambda>_ w. (w, 0)), de_umask = (\<lambda>_ w. w),
       de_open_rdwr = (\<lambda>_ w. (w, 3)), de_dup2 = (\<lambda>_ _ w. w), de_close = (\<lambda>_ w. w), de_getpid = (\<lambda>_. 42),
       de_write_file = (\<lambda>_ _ w. (w, True)), de_unlink = (\<lambda>_ w. w)\<rparr>,
     me_base_new = (\<lambda>w. (w, True)), me_provider = (\<lambda>_ w. (w, Inr ())), me_create_sink = (\<lambda>_ _ w. (w, Inr ())),
     me_call_batch = (\<lambda>_ _ w. (w, None)), me_now = (\<lambda>w. (w, 0)), me_sleep = (\<lambda>_ w. w), me_posting = (\<lambda>mw. (mw, [])),
     me_malloc = (\<lambda>_. True), me_map_order = (\<lambda>m. m), me_repl = (\<lambda>_. rs_sample_env), me_os = idle_os, me_loop = (\<lambda>_ s. s)\<rparr>"

definition small_world :: "u8 list list main_world" where
  "small_world = \<lparr>mw_sources = [(rs_connected False)\<lparr>rs_id := 1\<rparr>], mw_terminate = False, mw_rest = []\<rparr>"

definition small_dispatcher :: "(unit, u8 list list main_world) EventDispatcher" where
  "small_dispatcher = (case new_EventDispatcher (\<lambda>_. True) 8 50 default_backoff default_ceiling small_world of
     Inr d \<Rightarrow> dispatch_handle small_env [\<lparr>sink = (), required = True\<rparr>] ((new_event Commit)\<lparr>commit_lsn := 40\<rparr>) 1 d)"

lemma small_stop_run: "map_option snd (stop_walkrie small_env (started_manager, (\<lambda>_. empty_db), small_dispatcher)) = Some (Inr ())"
  by code_simp


end
