(* ===== verification/Spec2Isabelle.thy ===== *)
theory Spec2Isabelle
  imports Wal_Frame Pgoutput_Parser App_Config Caching_Provider Openai_Provider Llama_Provider
    Event_Dispatcher Backfill_System Replication_Source Provider_Factory Walkrie_Main
begin

text \<open>
  Verification library of walkrie, the engine that follows PostgreSQL logical replication streams
  and keeps vector stores in step with them. Source files are named below \<^verbatim>\<open>src/src/\<close>.

  \<^bold>\<open>The program.\<close> A replication source connects to a database, creates or resumes a slot, and
  reads the frames of the stream in a callback of the event loop. The pgoutput parser turns a
  message into change events, which the handler of the main program posts as jobs on a queue. The
  worker thread of the dispatcher takes jobs, cuts them into batches, hands each batch to the sinks
  (pgvector, Qdrant, Milvus, JSON lines), tries again when a required sink fails, and confirms the
  positions of the batch to the sources; a source acknowledges its confirmed position to the
  server, which may then discard the log. A sink embeds the texts of a batch through a provider
  (llama.cpp or an OpenAI service) behind a cache. With backfill, the source dumps its tables
  into a SQLite store when the slot is new, live updates and deletes are first reconciled with the
  store, and worker processes drain it into the sinks.

  \<^bold>\<open>Conventions.\<close> Machine integers are words of their width. A C++ exception is \<open>Throw\<close>, a read
  past a buffer or of an empty optional is \<open>OutOfBounds\<close>; both are the left side of \<open>'a result\<close>.
  Stateful code is a function from a state to a state and a result (type \<open>op\<close>), composed with
  \<open>bindS\<close>, \<open>forS\<close> and \<open>catchS\<close>. Loops whose end depends on the outside are \<open>loop\<close>, a partial function
  into \<open>option\<close> with \<open>None\<close> for a run that does not end; there is no fuel anywhere, and where the code
  is claimed to return this is a theorem. Third-party code (libpq, SQLite, libcurl, llama.cpp,
  gguf, libuuid, the JSON and TOML libraries, libevent and the system calls) is a record of
  functions over a world \<open>'w\<close>; what a property needs of it is a hypothesis of the property, and a
  witness instantiates it. Some records carry a history (\<open>disp_log\<close>, \<open>rs_log\<close>, \<open>delivered\<close>,
  \<open>absorbed\<close>, \<open>teardown\<close>) that no operation reads. Log lines and usage texts are left out.

  \<^bold>\<open>Theories and sources.\<close>
  \<^item> \<open>Walkrie_Prelude\<close>, \<open>C_Library\<close>, \<open>Command_Line\<close>, \<open>Json_Library\<close>: shared types, lemmas and loops; the
    parts of the C++ library, \<^verbatim>\<open>getopt_long\<close> and the JSON library that the code uses.
  \<^item> \<open>Byte_Utils\<close> (\<^verbatim>\<open>byte_utils.cpp\<close>), \<open>Wal_Frame\<close> (\<^verbatim>\<open>wal_frame.cpp\<close>), \<open>Events\<close>
    (\<^verbatim>\<open>event.hpp\<close>), \<open>Pgoutput_Parser\<close> (\<^verbatim>\<open>pgoutput_parser.cpp\<close>): the wire formats. Decoding
    inverts an encoder of the protocol's messages, decoded events are well typed, and truncated
    input is read past its end where the code omits the check.
  \<^item> \<open>Table_Mapping\<close>, \<open>Sink_Configuration\<close>, \<open>App_Config\<close> (\<^verbatim>\<open>config.hpp\<close>, the
    \<^verbatim>\<open>*sink_configuration.cpp\<close>, \<^verbatim>\<open>model/\<close>): loading and validation, and what a
    validated configuration guarantees.
  \<^item> \<open>Sql_Builder\<close>, \<open>Http_Client\<close>, \<open>Batch_Sink\<close>, \<open>Pg_Embedding_Sink\<close>, \<open>Qdrant_Sink\<close>, \<open>Milvus_Sink\<close>
    (\<^verbatim>\<open>pg_sql_builder.cpp\<close>, \<^verbatim>\<open>http_client.cpp\<close>, \<^verbatim>\<open>pgembedding_sink.cpp\<close>,
    \<^verbatim>\<open>qdrant_sink.cpp\<close>, \<^verbatim>\<open>milvus_sink.cpp\<close>): the locale \<open>batch_sink\<close> shows once that the
    two passes of a batch have the effect of its events in order; each sink interprets it.
  \<^item> \<open>Caching_Provider\<close>, \<open>Openai_Provider\<close>, \<open>Llama_Provider\<close>, \<open>Provider_Factory\<close>
    (\<^verbatim>\<open>caching_embedding_provider.cpp\<close>, \<^verbatim>\<open>openai_provider.cpp\<close>,
    \<^verbatim>\<open>llama_provider.cpp\<close>, \<^verbatim>\<open>embedding_provider.cpp\<close>): the cache refines its inner
    provider, the batched encoding equals the encoding text by text, the answers of the service
    are read by their index, and a created provider is ready.
  \<^item> \<open>Reader_Writer_Queue\<close> (\<^verbatim>\<open>queue/\<close>): the ring of blocks and the semaphore refine a list, size and
    capacity are exact; the locale \<open>fifo\<close> is interpreted on the queue and on its blocking form.
  \<^item> \<open>Event_Dispatcher\<close> (\<^verbatim>\<open>event_dispatcher.cpp\<close>): the rounds of the worker thread follow the
    inductive relation \<open>history\<close>; from it order, confirmation after acceptance, completeness of the
    drain, and that every dispatch returns when time passes.
  \<^item> \<open>Backfill_Store\<close>, \<open>Backfill_Util\<close>, \<open>Backfill_Worker\<close>, \<open>Backfill_System\<close>
    (\<^verbatim>\<open>backfill_store.cpp\<close>, \<^verbatim>\<open>backfill_util.cpp\<close>, \<^verbatim>\<open>backfill_worker.cpp\<close>): every
    statement and method with its error paths, the laws of the store as the locale \<open>row_store\<close>, the
    dump, the reconciliation, the drain, and an interleaving of many workers and the main process
    in which no staged row is lost.
  \<^item> \<open>Worker_Main\<close>, \<open>Backfill_Manager\<close> (\<^verbatim>\<open>walkrie_worker_main.cpp\<close>,
    \<^verbatim>\<open>backfill_manager.cpp\<close>): a worker process from its command line to its exit code, its
    parent, and that the two agree.
  \<^item> \<open>Replication_Source\<close> (\<^verbatim>\<open>pgreplication_source.cpp\<close>): connecting, the backfill set-up,
    streaming and status updates; only confirmed positions are acknowledged.
  \<^item> \<open>Daemon_Utils\<close>, \<open>Walkrie_Main\<close> (\<^verbatim>\<open>daemon_utils.cpp\<close>, \<^verbatim>\<open>main.cpp\<close>): the set-up, the start
    of the sources, the shutdown and all exits of the program.
  \<^item> This theory: a source and the dispatcher side by side, and that what the server was told to
    discard has been delivered.

  \<^bold>\<open>Bounds.\<close> Where a statement needs one it is the one the code has: the doubling of the cache size ends for batch sizes up to \<open>2 ^ 63\<close>, and
  configuration integers are below \<open>2 ^ 31\<close> where they are read into an \<^verbatim>\<open>int\<close>.

  \<^bold>\<open>Not modelled.\<close> The memory model under the queue: an operation of the producer or the consumer is one
  atomic step, and what is posted while the consumer waits is an input. The untimed waits, move
  operations and destructors of the queue are not used by the engine in a way that changes its
  contents. The inside of \<^verbatim>\<open>event_base_dispatch\<close> is the parameter \<open>me_loop\<close>; the callbacks it
  runs are modelled with their components, and \<open>pipeline\<close> below interleaves them. Mutexes have no
  counterpart where a call is one step. A float is its 32-bit pattern; the only
  operation on it is printing.
  The logger set-up in \<^verbatim>\<open>main.cpp\<close>, the programs below \<^verbatim>\<open>bench/\<close> and
  \<^verbatim>\<open>src/demo/\<close>, which measure or query and print, the tests, and the bundled TOML and
  doctest headers are left out.
\<close>

section \<open>A source and the dispatcher together\<close>

text \<open>
  The confirmation callback of the main program, as it reaches the source with the number
  \<open>i\<close>: a confirmed position becomes the confirmed position of the source.
\<close>

fun told :: "nat \<Rightarrow> 's action \<Rightarrow> 'w rs \<Rightarrow> 'w rs" where
  "told i (Confirmed i' lsn) s = (if i' = i then fst (set_confirmed_lsn lsn s) else s)"
| "told i _ s = s"

text \<open>
  The two threads: the event loop with the callbacks of a source, and the rounds of the worker
  thread, whose confirmations reach the source one after the other and possibly later than the
  round that made them. The third component counts the actions of the worker that the source has
  seen.
\<close>

inductive pipeline ::
  "'w repl_env \<Rightarrow> ('s, 'v) disp_env \<Rightarrow> nat \<Rightarrow> 'w rs \<Rightarrow> ('s, 'v) EventDispatcher \<Rightarrow>
     'w rs \<Rightarrow> ('s, 'v) EventDispatcher \<Rightarrow> nat \<Rightarrow> bool"
  for renv :: "'w repl_env" and denv :: "('s, 'v) disp_env" and i :: nat and s0 :: "'w rs" and d0 :: "('s, 'v) EventDispatcher" where
  start: "pipeline renv denv i s0 d0 s0 d0 0"
| read: "pipeline renv denv i s0 d0 s d n \<Longrightarrow> on_read renv s = Some (s', x) \<Longrightarrow> pipeline renv denv i s0 d0 s' d n"
| timer: "pipeline renv denv i s0 d0 s d n \<Longrightarrow> on_timer renv s = (s', x) \<Longrightarrow> pipeline renv denv i s0 d0 s' d n"
| flush: "pipeline renv denv i s0 d0 s d n \<Longrightarrow> flush_confirmed_lsn renv s = (s', x) \<Longrightarrow> pipeline renv denv i s0 d0 s' d n"
| other: "pipeline renv denv i s0 d0 (r, st) d n \<Longrightarrow> pipeline renv denv i s0 d0 (r, st') d n"
| work: "pipeline renv denv i s0 d0 s d n \<Longrightarrow> process_step denv d = Some (Inr d') \<Longrightarrow> pipeline renv denv i s0 d0 s d' n"
| tell: "pipeline renv denv i s0 d0 s d n \<Longrightarrow> n < length (disp_log d) \<Longrightarrow>
    pipeline renv denv i s0 d0 (told i (disp_log d ! n) s) d (Suc n)"

text \<open>The source of a pipeline runs on positions that the dispatcher confirmed.\<close>

lemma told_run: "source_run renv s0 cs s \<Longrightarrow> \<exists>cs'. source_run renv s0 cs' (told i a s) \<and> (\<forall>c \<in> set cs'. c \<in> set cs \<or> a = Confirmed i c)"
proof (cases a)
  case (Confirmed i' lsn)
  assume run: "source_run renv s0 cs s"
  show ?thesis
  proof (cases "i' = i")
    case True
    have "source_run renv s0 (lsn # cs) (fst (set_confirmed_lsn lsn s))"
      by (rule source_run.confirm [OF run, where x = "snd (set_confirmed_lsn lsn s)"]) simp
    then show ?thesis using True Confirmed by (intro exI [of _ "lsn # cs"]) simp
  qed (use run Confirmed in auto)
qed auto

lemma pipeline_parts:
  assumes "pipeline renv denv i s0 d0 s d n"
  shows "worker denv d0 d \<and> (\<exists>cs. source_run renv s0 cs s \<and> (\<forall>c \<in> set cs. Confirmed i c \<in> set (disp_log d)))"
  using assms
proof (induction rule: pipeline.induct)
  case start
  then show ?case by (auto intro!: worker.start exI [of _ "[]"] source_run.start)
next
  case (work s d n d')
  obtain l where "disp_log d' = disp_log d @ l" using process_step_extends [OF work.hyps(2)] by blast
  then show ?case using work by (auto intro: worker.round)
next
  case (tell s d n)
  then obtain cs where cs: "source_run renv s0 cs s" "\<forall>c \<in> set cs. Confirmed i c \<in> set (disp_log d)" by blast
  obtain cs' where "source_run renv s0 cs' (told i (disp_log d ! n) s)" "\<forall>c \<in> set cs'. c \<in> set cs \<or> disp_log d ! n = Confirmed i c"
    using told_run [OF cs(1)] by blast
  then show ?case using tell cs(2) nth_mem [OF tell.hyps(2)] by metis
qed (blast intro: source_run.read source_run.timer source_run.flush source_run.other)+

text \<open>An event that was cut is in a batch that every required sink took.\<close>

lemma cut_taken:
  assumes "holds_jobs env [] d" "e \<in> set (cut_events (disp_log d))"
  shows "\<exists>evs hs m. Cut evs hs m \<in> set (disp_log d) \<and> e \<in> set evs \<and> (\<forall>h \<in> set hs. required h \<longrightarrow> Called h evs None \<in> set (disp_log d))"
proof -
  obtain evs hs m where "Cut evs hs m \<in> set (disp_log d)" "e \<in> set evs"
    using assms(2) by (auto simp: cut_events_def split: action.splits)
  then show ?thesis using assms(1) history_accepted by (metis append_Nil holds_jobs_def)
qed


section \<open>A sample run of the pipeline\<close>

definition pipe_source :: "u8 list list rs" where
  "pipe_source = ((rs_connected False)\<lparr>rs_id := 1\<rparr>, bf_dumped ''A'', [])"

lemma pipe_connect:
  "connect rs_sample_env (new_PgReplicationSource 1 (rs_sample_config False), bf_dumped ''A'', []) = (pipe_source, Inr True)"
  by (simp add: connect_def source_ops rs_create_run rs_prepare_run rs_finish_run rs_connected_def new_PgReplicationSource_def
      rs_sample_config_def new_BackfillUtil_def pipe_source_def)

definition pipe_end :: "u8 list list rs" where
  "pipe_end = ((rs_connected False)\<lparr>rs_id := 1, confirmed_lsn := 7, rs_log := [Acked 7]\<rparr>, bf_dumped ''A'', [])"

lemma pipe_told: "pipeline rs_sample_env sample_env 1 pipe_source sample_start (fst (set_confirmed_lsn 7 pipe_source)) sample_end 5"
proof -
  let ?p = "pipeline rs_sample_env sample_env 1 pipe_source sample_start"
  have a0: "?p pipe_source sample_end 0" by (rule pipeline.work [OF pipeline.start sample_step])
  have log: "length (disp_log sample_end) = 5" by (simp add: sample_end_log sample_log_def)
  have a1: "?p pipe_source sample_end 1" using pipeline.tell [OF a0] by (simp add: sample_end_log sample_log_def)
  have a2: "?p pipe_source sample_end 2" using pipeline.tell [OF a1] by (simp add: sample_end_log sample_log_def numeral_2_eq_2)
  have a3: "?p pipe_source sample_end 3" using pipeline.tell [OF a2] by (simp add: sample_end_log sample_log_def)
  have a4: "?p pipe_source sample_end 4" using pipeline.tell [OF a3] by (simp add: sample_end_log sample_log_def)
  show ?thesis using pipeline.tell [OF a4] by (simp add: sample_end_log sample_log_def)
qed

lemma pipe_run: "pipeline rs_sample_env sample_env 1 pipe_source sample_start pipe_end sample_end 5"
proof (rule pipeline.timer [OF pipe_told])
  show "on_timer rs_sample_env (fst (set_confirmed_lsn 7 pipe_source)) = (pipe_end, Inr ())"
    by (simp add: on_timer_def ping_update_def set_confirmed_lsn_def source_ops rs_connected_def new_PgReplicationSource_def pipe_source_def pipe_end_def)
qed


end
